(* ===== verification/Prelude.thy ===== *)
theory Prelude
  imports Main "HOL-Library.Word"
begin

text \<open>
  Types and generic facts shared by every component: Rust's \<open>u64\<close> as a 64-bit word
  with its wrapping and saturating operations, byte strings, hash maps whose keys are
  iterated (association lists with distinct keys), and the collections of facts the
  component proofs use.

  A \<open>DashMap\<close> or \<open>HashMap\<close> that is only looked up and updated is a HOL map;
  one that the code iterates is an association list (the iteration order of the Rust map
  is unspecified; the list fixes one).
\<close>

section \<open>Types\<close>

type_synonym u64 = "64 word"
type_synonym i64 = int \<comment> \<open>a value in the range of a signed 64-bit integer\<close>
type_synonym bytes = "char list" \<comment> \<open>a Rust byte buffer; a \<open>char\<close> of HOL is one byte\<close>
type_synonym str = "char list" \<comment> \<open>a Rust \<open>str\<close>: its UTF-8 bytes\<close>

named_theorems rust_simps \<comment> \<open>evaluation of the standard-library functions the code calls\<close>
named_theorems inv_intros \<comment> \<open>operations preserve the invariant of their component\<close>
named_theorems frame_simps \<comment> \<open>what an operation leaves unchanged\<close>

section \<open>Unsigned 64-bit arithmetic\<close>

definition u64_max :: u64 where
  "u64_max = 18446744073709551615"

definition u64_saturating_add :: "u64 \<Rightarrow> u64 \<Rightarrow> u64" where
  "u64_saturating_add a b = (if unat a + unat b < 2 ^ 64 then a + b else u64_max)"

definition u64_saturating_sub :: "u64 \<Rightarrow> u64 \<Rightarrow> u64" where
  "u64_saturating_sub a b = (if b \<le> a then a - b else 0)"

lemma unat_u64_bound: "unat (x :: u64) < 18446744073709551616"
  using unsigned_less [of x] by simp

lemma unat_u64_inc: "unat (a :: u64) + 1 < 2 ^ 64 \<Longrightarrow> unat (a + 1) = unat a + 1"
  by (simp add: unat_word_ariths)

lemma unat_u64_inc_less: "(a :: u64) < b \<Longrightarrow> unat (a + 1) = Suc (unat a)"
proof -
  assume "a < b"
  then have "unat a < unat b" by (simp add: word_less_nat_alt)
  moreover have "unat b < 18446744073709551616" by (rule unat_u64_bound)
  ultimately have "unat a + 1 < 2 ^ 64" by simp
  then show ?thesis by (simp add: unat_u64_inc)
qed

lemma u64_inc_neq_0: "(a :: u64) < b \<Longrightarrow> a + 1 \<noteq> 0"
  using unat_u64_inc_less [of a b] by (metis Zero_not_Suc unat_0)

lemma unat_saturating_add:
  "unat (u64_saturating_add a b) = min (unat a + unat b) (2 ^ 64 - 1)"
  by (auto simp: u64_saturating_add_def u64_max_def unat_word_ariths min_def)

lemma unat_saturating_sub: "unat (u64_saturating_sub a b) = unat a - unat b"
  by (auto simp: u64_saturating_sub_def unat_sub word_le_nat_alt)

lemma saturating_sub_1: "u64_saturating_sub a 1 = (if a = 0 then 0 else a - 1)"
  by (auto simp: u64_saturating_sub_def word_le_nat_alt Suc_le_eq simp flip: unat_gt_0)

lemma saturating_add_gt: "a \<noteq> u64_max \<Longrightarrow> a < u64_saturating_add a 1"
proof -
  assume "a \<noteq> u64_max"
  then have "unat a \<noteq> unat u64_max" by (metis word_unat_eq_iff)
  moreover have "unat u64_max = 2 ^ 64 - 1" by (simp add: u64_max_def)
  moreover have "unat a < 18446744073709551616" by (rule unat_u64_bound)
  ultimately show ?thesis
    by (simp add: word_less_nat_alt unat_saturating_add)
qed

lemma saturating_add_gap: "u64_saturating_add a 1 < f \<longleftrightarrow> (\<exists>q. a < q \<and> q < f)"
proof
  assume f: "u64_saturating_add a 1 < f"
  have "a \<noteq> u64_max"
  proof
    assume "a = u64_max"
    then have "unat (u64_saturating_add a 1) = 18446744073709551615" by (simp add: unat_saturating_add u64_max_def)
    with f unat_u64_bound [of f] show False by (simp add: word_less_nat_alt)
  qed
  with f show "\<exists>q. a < q \<and> q < f" using saturating_add_gt by blast
next
  assume "\<exists>q. a < q \<and> q < f"
  then show "u64_saturating_add a 1 < f" by (auto simp: word_less_nat_alt unat_saturating_add)
qed

section \<open>Hash maps that are iterated\<close>

type_synonym ('k, 'v) hmap = "('k \<times> 'v) list"

definition hm_remove :: "'k \<Rightarrow> ('k, 'v) hmap \<Rightarrow> ('k, 'v) hmap" where
  "hm_remove k m = filter (\<lambda>p. fst p \<noteq> k) m"

definition hm_insert :: "'k \<Rightarrow> 'v \<Rightarrow> ('k, 'v) hmap \<Rightarrow> ('k, 'v) hmap" where
  "hm_insert k v m = (k, v) # hm_remove k m"

definition hm_keys :: "('k, 'v) hmap \<Rightarrow> 'k list" where
  "hm_keys m = map fst m"

definition hm_ok :: "('k, 'v) hmap \<Rightarrow> bool" where
  "hm_ok m \<longleftrightarrow> distinct (hm_keys m)"

lemma map_of_hm_remove: "map_of (hm_remove k m) = (map_of m)(k := None)"
  by (induction m) (auto simp: hm_remove_def fun_eq_iff)

lemma map_of_hm_insert: "map_of (hm_insert k v m) = (map_of m)(k \<mapsto> v)"
  by (simp add: hm_insert_def map_of_hm_remove)

lemma set_hm_keys_remove [simp]: "set (hm_keys (hm_remove k m)) = set (hm_keys m) - {k}"
  by (auto simp: hm_keys_def hm_remove_def)

lemma set_hm_keys_insert [simp]: "set (hm_keys (hm_insert k v m)) = insert k (set (hm_keys m))"
  by (auto simp: hm_insert_def hm_keys_def hm_remove_def)

lemma hm_ok_Nil [simp]: "hm_ok []"
  by (simp add: hm_ok_def hm_keys_def)

lemma hm_ok_remove [simp]: "hm_ok m \<Longrightarrow> hm_ok (hm_remove k m)"
  by (induction m) (auto simp: hm_ok_def hm_remove_def hm_keys_def)

lemma hm_ok_insert [simp]: "hm_ok m \<Longrightarrow> hm_ok (hm_insert k v m)"
proof -
  assume "hm_ok m"
  then have "hm_ok (hm_remove k m)" by simp
  moreover have "k \<notin> set (hm_keys (hm_remove k m))" by simp
  ultimately show ?thesis by (simp add: hm_insert_def hm_ok_def hm_keys_def)
qed

section \<open>Lists and maps\<close>

lemma filter_neq_empty_iff: "filter (\<lambda>x. x \<noteq> a) xs = [] \<longleftrightarrow> set xs \<subseteq> {a}"
  by (auto simp: filter_empty_conv)

lemma card_dom_upd: "finite (dom m) \<Longrightarrow> m k = None \<Longrightarrow> card (dom (m(k \<mapsto> v))) = Suc (card (dom m))"
  by (simp add: card_insert_if domIff)

lemma card_dom_del:
  "finite (dom m) \<Longrightarrow> m k = Some v \<Longrightarrow> Suc (card (dom (m(k := None)))) = card (dom m)"
  by (simp add: card_Suc_Diff1 domI del: card_Diff_insert)

end
