(* ===== verification/Channels.thy ===== *)
theory Channels
  imports Prelude
begin

text \<open>
  The channels that connect the gateway's tasks, with the documented behaviour of
  \<open>tokio::sync::mpsc\<close>: a bounded queue that preserves order, refuses \<open>try_send\<close>
  when it is full or its receiver is gone, reports the end of the stream to the receiver
  only when it is empty and every sender has been dropped, and panics when created with
  capacity zero or more than the largest semaphore (\<open>None\<close> of \<open>chan_new\<close>). The gateway's own code is not here: this
  theory is the environment the registry, the outbound loop and the handler run in.
  What those components use of a channel is the contract \<open>bounded_queue\<close>.
\<close>

section \<open>One channel\<close>

record 'a chan =
  queue :: "'a list"
  capacity :: nat
  senders :: nat
  rx_alive :: bool

datatype 'a recv_result = Got 'a | Closed | Pending

datatype 'a send_result = Sent 'a | Send_err | Must_wait

text \<open>\<open>Semaphore::MAX_PERMITS\<close> on a 64-bit target: \<open>usize::MAX >> 3\<close>.\<close>

definition MAX_PERMITS :: nat where
  "MAX_PERMITS = 2 ^ 61 - 1"

definition chan_new :: "nat \<Rightarrow> 'a chan option" where
  "chan_new cap =
     (if cap = 0 \<or> cap > MAX_PERMITS then None
      else Some \<lparr>queue = [], capacity = cap, senders = 1, rx_alive = True\<rparr>)"

definition chan_room :: "'a chan \<Rightarrow> bool" where
  "chan_room c \<longleftrightarrow> rx_alive c \<and> length (queue c) < capacity c"

definition chan_try_send :: "'a chan \<Rightarrow> 'a \<Rightarrow> bool \<times> 'a chan" where
  "chan_try_send c x = (if chan_room c then (True, c\<lparr>queue := queue c @ [x]\<rparr>) else (False, c))"

definition chan_send :: "'a chan \<Rightarrow> 'a \<Rightarrow> 'a chan send_result" where
  "chan_send c x =
     (if \<not> rx_alive c then Send_err
      else if length (queue c) < capacity c then Sent (c\<lparr>queue := queue c @ [x]\<rparr>)
      else Must_wait)"

definition chan_recv :: "'a chan \<Rightarrow> 'a recv_result \<times> 'a chan" where
  "chan_recv c =
     (case queue c of
        x # xs \<Rightarrow> (Got x, c\<lparr>queue := xs\<rparr>)
      | [] \<Rightarrow> ((if senders c = 0 then Closed else Pending), c))"

definition chan_try_recv :: "'a chan \<Rightarrow> 'a option \<times> 'a chan" where
  "chan_try_recv c =
     (case queue c of
        x # xs \<Rightarrow> (Some x, c\<lparr>queue := xs\<rparr>)
      | [] \<Rightarrow> (None, c))"

definition chan_clone_sender :: "'a chan \<Rightarrow> 'a chan" where
  "chan_clone_sender c = c\<lparr>senders := Suc (senders c)\<rparr>"

definition chan_drop_sender :: "'a chan \<Rightarrow> 'a chan" where
  "chan_drop_sender c = c\<lparr>senders := senders c - 1\<rparr>"

definition chan_drop_rx :: "'a chan \<Rightarrow> 'a chan" where
  "chan_drop_rx c = c\<lparr>queue := [], rx_alive := False\<rparr>"

section \<open>The contract of a bounded queue\<close>

datatype 'a queue_op = Put 'a | Take

fun run_queue :: "('q \<Rightarrow> 'a \<Rightarrow> bool \<times> 'q) \<Rightarrow> ('q \<Rightarrow> 'a option \<times> 'q) \<Rightarrow> 'q \<Rightarrow> 'a queue_op list \<Rightarrow> 'a list \<times> 'a list \<times> 'q" where
  "run_queue put get q [] = ([], [], q)"
| "run_queue put get q (Put x # ops) =
     (let (ok, q1) = put q x; (ins, outs, q2) = run_queue put get q1 ops
      in ((if ok then x # ins else ins), outs, q2))"
| "run_queue put get q (Take # ops) =
     (let (r, q1) = get q; (ins, outs, q2) = run_queue put get q1 ops
      in (ins, (case r of None \<Rightarrow> outs | Some x \<Rightarrow> x # outs), q2))"

locale bounded_queue =
  fixes put :: "'q \<Rightarrow> 'a \<Rightarrow> bool \<times> 'q"
    and get :: "'q \<Rightarrow> 'a option \<times> 'q"
    and contents :: "'q \<Rightarrow> 'a list"
    and room :: "'q \<Rightarrow> bool"
    and size_limit :: "'q \<Rightarrow> nat"
  assumes put_ok: "room q \<Longrightarrow> put q x = (True, q') \<Longrightarrow> contents q' = contents q @ [x]"
    and put_room: "fst (put q x) = room q"
    and put_full: "\<not> room q \<Longrightarrow> snd (put q x) = q"
    and put_limit: "size_limit (snd (put q x)) = size_limit q"
    and get_some: "contents q = x # xs \<Longrightarrow> \<exists>q'. get q = (Some x, q') \<and> contents q' = xs \<and> size_limit q' = size_limit q"
    and get_none: "contents q = [] \<Longrightarrow> get q = (None, q)"
    and room_limit: "room q \<Longrightarrow> length (contents q) < size_limit q"
begin

lemma put_contents: "contents (snd (put q x)) = contents q @ (if fst (put q x) then [x] else [])"
  using put_ok [of q x "snd (put q x)"] put_full [of q x] put_room [of q x]
  by (cases "room q"; cases "put q x") auto

lemma get_contents:
  "contents q = (case fst (get q) of None \<Rightarrow> [] | Some x \<Rightarrow> [x]) @ contents (snd (get q))"
proof (cases "contents q")
  case Nil
  then show ?thesis using get_none [of q] by simp
next
  case (Cons x xs)
  then show ?thesis using get_some [OF Cons] by auto
qed

text \<open>Nothing is lost, duplicated or reordered between an accepted put and its take.\<close>

lemma run_queue_fifo:
  "run_queue put get q ops = (ins, outs, q') \<Longrightarrow> contents q @ ins = outs @ contents q'"
proof (induction ops arbitrary: q ins outs q')
  case Nil
  then show ?case by simp
next
  case (Cons op ops)
  show ?case
  proof (cases op)
    case (Put x)
    obtain ok q1 where p: "put q x = (ok, q1)" by (cases "put q x")
    obtain ins1 outs1 where r: "run_queue put get q1 ops = (ins1, outs1, q')"
      and i: "ins = (if ok then x # ins1 else ins1)" and o: "outs = outs1"
      using Cons.prems Put p by (auto split: prod.splits)
    from Cons.IH [OF r] put_contents [of q x] p i o show ?thesis by auto
  next
    case Take
    obtain res q1 where g: "get q = (res, q1)" by (cases "get q")
    obtain ins1 outs1 where r: "run_queue put get q1 ops = (ins1, outs1, q')"
      and i: "ins = ins1" and o: "outs = (case res of None \<Rightarrow> outs1 | Some x \<Rightarrow> x # outs1)"
      using Cons.prems Take g by (auto split: prod.splits)
    from Cons.IH [OF r] get_contents [of q] g i o show ?thesis by (cases res) auto
  qed
qed

lemma put_within: "length (contents q) \<le> size_limit q \<Longrightarrow> length (contents (snd (put q x))) \<le> size_limit q"
  using put_contents [of q x] put_room [of q x] room_limit [of q] by auto

end

lemma MAX_PERMITS_ge: "n < 2 ^ 60 \<Longrightarrow> n \<le> MAX_PERMITS"
proof -
  have "(2 :: nat) ^ 60 \<le> 2 ^ 61 - 1" by simp
  then show "n < 2 ^ 60 \<Longrightarrow> n \<le> MAX_PERMITS" unfolding MAX_PERMITS_def by (meson le_trans less_imp_le)
qed

lemma chan_new_None_iff: "chan_new n = None \<longleftrightarrow> n \<notin> {1..MAX_PERMITS}"
  by (auto simp: chan_new_def)

interpretation mpsc: bounded_queue chan_try_send chan_try_recv queue chan_room capacity
  by unfold_locales
    (auto simp: chan_try_send_def chan_try_recv_def chan_room_def split: if_splits list.splits)

section \<open>The channels of a node\<close>

text \<open>
  A sender handle is the number of its channel; the registry and the tasks share the
  channels through the store.
\<close>

record chan_store =
  byte_chans :: "nat \<Rightarrow> bytes chan"
  unit_chans :: "nat \<Rightarrow> unit chan"

definition store_try_send :: "chan_store \<Rightarrow> nat \<Rightarrow> bytes \<Rightarrow> bool \<times> chan_store" where
  "store_try_send st h p =
     (let (ok, c) = chan_try_send (byte_chans st h) p
      in (ok, st\<lparr>byte_chans := (byte_chans st)(h := c)\<rparr>))"

definition store_try_signal :: "chan_store \<Rightarrow> nat \<Rightarrow> bool \<times> chan_store" where
  "store_try_signal st h =
     (let (ok, c) = chan_try_send (unit_chans st h) ()
      in (ok, st\<lparr>unit_chans := (unit_chans st)(h := c)\<rparr>))"

end
