(* ===== verification/Registry.thy ===== *)
theory Registry
  imports Channels
begin

text \<open>
  The connection registry of \<open>src/src/connection/registry.rs\<close>: three maps kept in step
  (connections, subscribers of a stream, streams of a connection), an identifier counter
  and the number of active connections, with the fan-out of a message to the subscribers of
  a stream. The channel operations the fan-out calls (\<open>try_send\<close> on the outbound and on
  the eviction channel) are arguments of \<open>fanout_encoded\<close>; what the proofs use of them is
  the contract \<open>fanout_channels\<close>. \<open>deregister\<close> returns the removed entry, whose two
  sender handles the Rust code drops at that point.
\<close>

section \<open>State\<close>

record connection_entry =
  sender :: nat
  evict_tx :: nat
  is_binary :: bool

record fanout_result =
  fr_sent :: nat
  fr_dropped :: nat
  fr_evicted :: "u64 list"

record registry =
  connections :: "u64 \<rightharpoonup> connection_entry"
  streams :: "str \<rightharpoonup> u64 list"
  conn_streams :: "u64 \<rightharpoonup> str list"
  next_id :: u64
  active :: u64

definition registry_new :: registry where
  "registry_new = \<lparr>connections = Map.empty, streams = Map.empty, conn_streams = Map.empty,
     next_id = 1, active = 0\<rparr>"

section \<open>Operations\<close>

definition allocate_id :: "registry \<Rightarrow> u64 \<times> registry" where
  "allocate_id r = (next_id r, r\<lparr>next_id := next_id r + 1\<rparr>)"

definition register :: "registry \<Rightarrow> u64 \<Rightarrow> nat \<Rightarrow> bool \<Rightarrow> nat \<Rightarrow> registry" where
  "register r conn_id tx binary evict =
     r\<lparr>connections := (connections r)(conn_id \<mapsto> \<lparr>sender = tx, evict_tx = evict, is_binary = binary\<rparr>),
       conn_streams := (conn_streams r)(conn_id \<mapsto> []),
       active := active r + 1\<rparr>"

definition retain_subscriber :: "registry \<Rightarrow> str \<Rightarrow> u64 \<Rightarrow> bool \<times> registry" where
  "retain_subscriber r stream conn_id =
     (case streams r stream of
        None \<Rightarrow> (False, r)
      | Some subscribers \<Rightarrow>
          let kept = filter (\<lambda>id. id \<noteq> conn_id) subscribers
          in (kept = [], r\<lparr>streams := (streams r)(stream \<mapsto> kept)\<rparr>))"

definition remove_if_empty :: "registry \<Rightarrow> str \<Rightarrow> registry" where
  "remove_if_empty r stream =
     (case streams r stream of
        None \<Rightarrow> r
      | Some v \<Rightarrow> if v = [] then r\<lparr>streams := (streams r)(stream := None)\<rparr> else r)"

definition remove_subscriber_from_stream :: "registry \<Rightarrow> str \<Rightarrow> u64 \<Rightarrow> registry" where
  "remove_subscriber_from_stream r stream conn_id =
     (let (should_remove, r1) = retain_subscriber r stream conn_id
      in if should_remove then remove_if_empty r1 stream else r1)"

definition deregister :: "registry \<Rightarrow> u64 \<Rightarrow> registry \<times> connection_entry option" where
  "deregister r conn_id =
     (let r1 = (case conn_streams r conn_id of
                  None \<Rightarrow> r
                | Some stream_list \<Rightarrow>
                    fold (\<lambda>stream r. remove_subscriber_from_stream r stream conn_id) stream_list
                      (r\<lparr>conn_streams := (conn_streams r)(conn_id := None)\<rparr>))
      in case connections r1 conn_id of
           None \<Rightarrow> (r1, None)
         | Some entry \<Rightarrow>
             (r1\<lparr>connections := (connections r1)(conn_id := None), active := active r1 - 1\<rparr>, Some entry))"

definition subscribe :: "registry \<Rightarrow> u64 \<Rightarrow> str \<Rightarrow> registry" where
  "subscribe r conn_id stream =
     (case conn_streams r conn_id of
        None \<Rightarrow> r
      | Some ss \<Rightarrow>
          if stream \<in> set ss then r
          else r\<lparr>streams := (streams r)(stream \<mapsto> (case streams r stream of None \<Rightarrow> [] | Some v \<Rightarrow> v) @ [conn_id]),
                 conn_streams := (conn_streams r)(conn_id \<mapsto> ss @ [stream])\<rparr>)"

definition unsubscribe :: "registry \<Rightarrow> u64 \<Rightarrow> str \<Rightarrow> registry" where
  "unsubscribe r conn_id stream =
     (let r1 = remove_subscriber_from_stream r stream conn_id
      in case conn_streams r1 conn_id of
           None \<Rightarrow> r1
         | Some ss \<Rightarrow> r1\<lparr>conn_streams := (conn_streams r1)(conn_id \<mapsto> filter (\<lambda>s. s \<noteq> stream) ss)\<rparr>)"

definition connection_count :: "registry \<Rightarrow> u64" where
  "connection_count r = active r"

fun fanout_loop ::
  "('st \<Rightarrow> nat \<Rightarrow> bytes \<Rightarrow> bool \<times> 'st) \<Rightarrow> ('st \<Rightarrow> nat \<Rightarrow> bool \<times> 'st) \<Rightarrow> registry \<Rightarrow> bytes \<Rightarrow> bytes
     \<Rightarrow> u64 list \<Rightarrow> nat \<Rightarrow> u64 list \<Rightarrow> 'st \<Rightarrow> nat \<times> u64 list \<times> 'st" where
  "fanout_loop try_send try_evict r json bin [] n ev st = (n, ev, st)"
| "fanout_loop try_send try_evict r json bin (conn_id # rest) n ev st =
     (case connections r conn_id of
        None \<Rightarrow> fanout_loop try_send try_evict r json bin rest n ev st
      | Some entry \<Rightarrow>
          let payload = (if is_binary entry then bin else json);
              (ok, st1) = try_send st (sender entry) payload
          in if ok then fanout_loop try_send try_evict r json bin rest (n + 1) ev st1
             else fanout_loop try_send try_evict r json bin rest n (ev @ [conn_id])
                    (snd (try_evict st1 (evict_tx entry))))"

fun deregister_all :: "registry \<Rightarrow> u64 list \<Rightarrow> registry \<times> connection_entry list" where
  "deregister_all r [] = (r, [])"
| "deregister_all r (conn_id # rest) =
     (let (r1, entry) = deregister r conn_id; (r2, entries) = deregister_all r1 rest
      in (r2, (case entry of None \<Rightarrow> entries | Some e \<Rightarrow> e # entries)))"

text \<open>The list that is returned last holds the entries removed by the evictions.\<close>

definition fanout_encoded ::
  "('st \<Rightarrow> nat \<Rightarrow> bytes \<Rightarrow> bool \<times> 'st) \<Rightarrow> ('st \<Rightarrow> nat \<Rightarrow> bool \<times> 'st) \<Rightarrow> registry \<Rightarrow> 'st \<Rightarrow> str
     \<Rightarrow> bytes \<Rightarrow> bytes \<Rightarrow> fanout_result \<times> registry \<times> 'st \<times> connection_entry list" where
  "fanout_encoded try_send try_evict r st stream json bin =
     (let (n, ev, st1) = (case streams r stream of
                            None \<Rightarrow> (0, [], st)
                          | Some subscribers \<Rightarrow> fanout_loop try_send try_evict r json bin subscribers 0 [] st);
          (r1, gone) = deregister_all r ev
      in (\<lparr>fr_sent = n, fr_dropped = length ev, fr_evicted = ev\<rparr>, r1, st1, gone))"

section \<open>Invariant\<close>

definition subs_of :: "registry \<Rightarrow> str \<Rightarrow> u64 list" where
  "subs_of r s = (case streams r s of None \<Rightarrow> [] | Some l \<Rightarrow> l)"

definition streams_of :: "registry \<Rightarrow> u64 \<Rightarrow> str list" where
  "streams_of r c = (case conn_streams r c of None \<Rightarrow> [] | Some l \<Rightarrow> l)"

definition reg_inv :: "registry \<Rightarrow> bool" where
  "reg_inv r \<longleftrightarrow>
     dom (connections r) = dom (conn_streams r) \<and> finite (dom (connections r)) \<and>
     active r = of_nat (card (dom (connections r))) \<and>
     (\<forall>s. streams r s \<noteq> Some []) \<and>
     (\<forall>s. distinct (subs_of r s)) \<and> (\<forall>c. distinct (streams_of r c)) \<and>
     (\<forall>c s. c \<in> set (subs_of r s) \<longleftrightarrow> s \<in> set (streams_of r c))"

lemma remove_subscriber_frame [frame_simps]:
  "connections (remove_subscriber_from_stream r s c) = connections r"
  "conn_streams (remove_subscriber_from_stream r s c) = conn_streams r"
  "active (remove_subscriber_from_stream r s c) = active r"
  "next_id (remove_subscriber_from_stream r s c) = next_id r"
  by (auto simp: remove_subscriber_from_stream_def retain_subscriber_def remove_if_empty_def Let_def
      split: option.splits)

lemma subs_of_remove_subscriber:
  "subs_of (remove_subscriber_from_stream r s c) = (subs_of r)(s := filter (\<lambda>i. i \<noteq> c) (subs_of r s))"
  by (auto simp: remove_subscriber_from_stream_def retain_subscriber_def remove_if_empty_def Let_def
      subs_of_def fun_eq_iff split: option.splits)

lemma remove_subscriber_nonempty:
  "\<forall>s. streams r s \<noteq> Some [] \<Longrightarrow> streams (remove_subscriber_from_stream r s' c) s \<noteq> Some []"
  by (auto simp: remove_subscriber_from_stream_def retain_subscriber_def remove_if_empty_def Let_def
      split: option.splits if_splits)

lemma fold_remove_frame [frame_simps]:
  "connections (fold (\<lambda>s r. remove_subscriber_from_stream r s c) l r) = connections r"
  "conn_streams (fold (\<lambda>s r. remove_subscriber_from_stream r s c) l r) = conn_streams r"
  "active (fold (\<lambda>s r. remove_subscriber_from_stream r s c) l r) = active r"
  "next_id (fold (\<lambda>s r. remove_subscriber_from_stream r s c) l r) = next_id r"
  by (induction l arbitrary: r) (auto simp: frame_simps)

lemma subs_of_fold_remove:
  "subs_of (fold (\<lambda>s r. remove_subscriber_from_stream r s c) l r) s =
     (if s \<in> set l then filter (\<lambda>i. i \<noteq> c) (subs_of r s) else subs_of r s)"
  by (induction l arbitrary: r) (auto simp: subs_of_remove_subscriber)

lemma fold_remove_nonempty:
  "\<forall>s. streams r s \<noteq> Some [] \<Longrightarrow> streams (fold (\<lambda>s r. remove_subscriber_from_stream r s c) l r) s \<noteq> Some []"
  by (induction l arbitrary: r) (auto simp: remove_subscriber_nonempty)

lemma subs_of_conn_streams_upd [simp]: "subs_of (r\<lparr>conn_streams := x\<rparr>) = subs_of r"
  "subs_of (r\<lparr>connections := y\<rparr>) = subs_of r" "subs_of (r\<lparr>active := a\<rparr>) = subs_of r"
  "subs_of (r\<lparr>next_id := n\<rparr>) = subs_of r"
  by (auto simp: subs_of_def fun_eq_iff)

section \<open>Effect of the operations on the two views\<close>

lemma deregister_frame:
  "connections (fst (deregister r c)) = (connections r)(c := None)"
  "conn_streams (fst (deregister r c)) = (conn_streams r)(c := None)"
  "next_id (fst (deregister r c)) = next_id r"
  by (auto simp: deregister_def Let_def frame_simps fun_eq_iff split: option.splits)

lemma deregister_active:
  "active (fst (deregister r c)) = (if connections r c = None then active r else active r - 1)"
  by (auto simp: deregister_def Let_def frame_simps split: option.splits)

lemma deregister_entry: "snd (deregister r c) = connections r c"
  by (auto simp: deregister_def Let_def frame_simps split: option.splits)

lemma deregister_subs_of:
  "subs_of (fst (deregister r c)) s =
     (if s \<in> set (streams_of r c) then filter (\<lambda>i. i \<noteq> c) (subs_of r s) else subs_of r s)"
  by (auto simp: deregister_def Let_def streams_of_def subs_of_fold_remove split: option.splits)

lemma deregister_streams_of: "streams_of (fst (deregister r c)) = (streams_of r)(c := [])"
  by (auto simp: streams_of_def deregister_frame fun_eq_iff)

lemma deregister_nonempty: "\<forall>s. streams r s \<noteq> Some [] \<Longrightarrow> streams (fst (deregister r c)) s \<noteq> Some []"
  by (auto simp: deregister_def Let_def fold_remove_nonempty split: option.splits)

lemma subscribe_frame [frame_simps]:
  "connections (subscribe r c s) = connections r" "active (subscribe r c s) = active r"
  "next_id (subscribe r c s) = next_id r" "dom (conn_streams (subscribe r c s)) = dom (conn_streams r)"
  by (auto simp: subscribe_def split: option.splits)

lemma unsubscribe_frame [frame_simps]:
  "connections (unsubscribe r c s) = connections r" "active (unsubscribe r c s) = active r"
  "next_id (unsubscribe r c s) = next_id r" "dom (conn_streams (unsubscribe r c s)) = dom (conn_streams r)"
  by (auto simp: unsubscribe_def Let_def frame_simps split: option.splits)

lemma unsubscribe_subs_of:
  "subs_of (unsubscribe r c s) = (subs_of r)(s := filter (\<lambda>i. i \<noteq> c) (subs_of r s))"
  by (auto simp: unsubscribe_def Let_def subs_of_remove_subscriber frame_simps split: option.splits)

lemma unsubscribe_streams_of:
  "streams_of (unsubscribe r c s) = (streams_of r)(c := filter (\<lambda>x. x \<noteq> s) (streams_of r c))"
  by (auto simp: unsubscribe_def Let_def streams_of_def frame_simps fun_eq_iff split: option.splits)

lemma subscribe_subs_of:
  "reg_inv r \<Longrightarrow> subs_of (subscribe r c s) =
     (if c \<in> dom (connections r) \<and> c \<notin> set (subs_of r s) then (subs_of r)(s := subs_of r s @ [c]) else subs_of r)"
  by (auto simp: subscribe_def reg_inv_def subs_of_def streams_of_def fun_eq_iff split: option.splits)

lemma subscribe_streams_of:
  "reg_inv r \<Longrightarrow> streams_of (subscribe r c s) =
     (if c \<in> dom (connections r) \<and> s \<notin> set (streams_of r c) then (streams_of r)(c := streams_of r c @ [s]) else streams_of r)"
  by (auto simp: subscribe_def reg_inv_def subs_of_def streams_of_def fun_eq_iff split: option.splits)

section \<open>Every operation keeps the invariant\<close>

lemma reg_inv_new [inv_intros]: "reg_inv registry_new"
  by (simp add: reg_inv_def registry_new_def subs_of_def streams_of_def)

lemma reg_inv_allocate_id [inv_intros]: "reg_inv r \<Longrightarrow> reg_inv (snd (allocate_id r))"
  by (simp add: reg_inv_def allocate_id_def streams_of_def)

lemma reg_inv_register [inv_intros]:
  assumes "reg_inv r" and "connections r c = None"
  shows "reg_inv (register r c tx b e)"
proof -
  from assms have cs: "conn_streams r c = None" by (auto simp: reg_inv_def)
  then have "c \<notin> set (subs_of r s)" for s
    using assms(1) by (auto simp: reg_inv_def streams_of_def)
  with assms cs show ?thesis
    by (auto simp: reg_inv_def register_def subs_of_def streams_of_def card_insert_if domIff
        split: if_splits option.splits)
qed

lemma reg_inv_subscribe [inv_intros]: "reg_inv r \<Longrightarrow> reg_inv (subscribe r c s)"
proof -
  assume inv: "reg_inv r"
  then have "streams (subscribe r c s) x \<noteq> Some []" for x
    by (auto simp: subscribe_def reg_inv_def split: option.splits if_splits)
  with inv show ?thesis
    by (auto simp: reg_inv_def [of "subscribe r c s"] frame_simps subscribe_subs_of subscribe_streams_of)
      (auto simp: reg_inv_def)
qed

lemma reg_inv_unsubscribe [inv_intros]: "reg_inv r \<Longrightarrow> reg_inv (unsubscribe r c s)"
proof -
  assume inv: "reg_inv r"
  then have "streams (unsubscribe r c s) x \<noteq> Some []" for x
    using remove_subscriber_nonempty [of r s c x]
    by (auto simp: unsubscribe_def reg_inv_def Let_def split: option.splits if_splits)
  with inv show ?thesis
    by (auto simp: reg_inv_def frame_simps unsubscribe_subs_of unsubscribe_streams_of)
qed

lemma reg_inv_deregister [inv_intros]: "reg_inv r \<Longrightarrow> reg_inv (fst (deregister r c))"
proof -
  assume inv: "reg_inv r"
  let ?r = "fst (deregister r c)"
  from inv have "streams ?r s \<noteq> Some []" for s
    by (simp add: reg_inv_def deregister_nonempty)
  moreover have "active ?r = of_nat (card (dom (connections ?r)))"
  proof (cases "connections r c")
    case None
    with inv show ?thesis
      by (simp add: reg_inv_def deregister_active deregister_frame fun_upd_idem del: dom_fun_upd)
  next
    case (Some e)
    with inv have "card (dom (connections r)) = Suc (card (dom ((connections r)(c := None))))"
      by (simp add: reg_inv_def card_dom_del del: dom_fun_upd)
    with inv Some show ?thesis
      by (simp add: reg_inv_def deregister_active deregister_frame del: dom_fun_upd)
  qed
  ultimately show ?thesis using inv
    by (auto simp: reg_inv_def deregister_frame deregister_subs_of deregister_streams_of)
qed

section \<open>Abstract specification: a set of members and a subscription relation\<close>

type_synonym sub_spec = "u64 set \<times> (u64 \<times> str) set"

datatype reg_op =
    Op_register nat bool nat
  | Op_deregister u64
  | Op_subscribe u64 str
  | Op_unsubscribe u64 str

text \<open>\<open>Op_register\<close> is \<open>allocate_id\<close> followed by \<open>register\<close>, the way the handler calls them.\<close>

fun reg_apply :: "registry \<Rightarrow> reg_op \<Rightarrow> registry" where
  "reg_apply r (Op_register tx b e) = (let (c, r1) = allocate_id r in register r1 c tx b e)"
| "reg_apply r (Op_deregister c) = fst (deregister r c)"
| "reg_apply r (Op_subscribe c s) = subscribe r c s"
| "reg_apply r (Op_unsubscribe c s) = unsubscribe r c s"

fun spec_apply :: "u64 \<Rightarrow> sub_spec \<Rightarrow> reg_op \<Rightarrow> sub_spec" where
  "spec_apply new_id (M, R) (Op_register tx b e) = (insert new_id M, R)"
| "spec_apply new_id (M, R) (Op_deregister c) = (M - {c}, {p \<in> R. fst p \<noteq> c})"
| "spec_apply new_id (M, R) (Op_subscribe c s) = (M, if c \<in> M then insert (c, s) R else R)"
| "spec_apply new_id (M, R) (Op_unsubscribe c s) = (M, R - {(c, s)})"

fun spec_run :: "u64 \<Rightarrow> sub_spec \<Rightarrow> reg_op list \<Rightarrow> sub_spec" where
  "spec_run new_id S [] = S"
| "spec_run new_id S (op # ops) =
     spec_run (case op of Op_register _ _ _ \<Rightarrow> new_id + 1 | _ \<Rightarrow> new_id) (spec_apply new_id S op) ops"

definition members :: "registry \<Rightarrow> u64 set" where
  "members r = dom (connections r)"

definition subs_rel :: "registry \<Rightarrow> (u64 \<times> str) set" where
  "subs_rel r = {(c, s). c \<in> set (subs_of r s)}"

definition reg_abs :: "registry \<Rightarrow> sub_spec" where
  "reg_abs r = (members r, subs_rel r)"

text \<open>
  The contract of a subscription table, as the handler and the NATS consumer rely on it:
  which pairs are subscribed after each operation, and that subscriptions belong to members.
\<close>

locale subscription_table =
  fixes inv :: "'r \<Rightarrow> bool"
    and mem :: "'r \<Rightarrow> 'c set"
    and rel :: "'r \<Rightarrow> ('c \<times> 's) set"
    and sub :: "'r \<Rightarrow> 'c \<Rightarrow> 's \<Rightarrow> 'r"
    and unsub :: "'r \<Rightarrow> 'c \<Rightarrow> 's \<Rightarrow> 'r"
    and dereg :: "'r \<Rightarrow> 'c \<Rightarrow> 'r"
  assumes inv_sub: "inv r \<Longrightarrow> inv (sub r c s)"
    and inv_unsub: "inv r \<Longrightarrow> inv (unsub r c s)"
    and inv_dereg: "inv r \<Longrightarrow> inv (dereg r c)"
    and mem_sub: "inv r \<Longrightarrow> mem (sub r c s) = mem r"
    and mem_unsub: "inv r \<Longrightarrow> mem (unsub r c s) = mem r"
    and mem_dereg: "inv r \<Longrightarrow> mem (dereg r c) = mem r - {c}"
    and rel_sub: "inv r \<Longrightarrow> rel (sub r c s) = (if c \<in> mem r then insert (c, s) (rel r) else rel r)"
    and rel_unsub: "inv r \<Longrightarrow> rel (unsub r c s) = rel r - {(c, s)}"
    and rel_dereg: "inv r \<Longrightarrow> rel (dereg r c) = {p \<in> rel r. fst p \<noteq> c}"
    and rel_mem: "inv r \<Longrightarrow> fst ` rel r \<subseteq> mem r"
begin

lemma sub_idem_rel: "inv r \<Longrightarrow> rel (sub (sub r c s) c s) = rel (sub r c s)"
  by (simp add: rel_sub mem_sub inv_sub)

lemma unsub_after_sub: "inv r \<Longrightarrow> (c, s) \<notin> rel r \<Longrightarrow> rel (unsub (sub r c s) c s) = rel r"
  by (auto simp: rel_sub rel_unsub inv_sub)

lemma dereg_twice: "inv r \<Longrightarrow> rel (dereg (dereg r c) c) = rel (dereg r c) \<and> mem (dereg (dereg r c) c) = mem (dereg r c)"
  by (auto simp: rel_dereg mem_dereg inv_dereg)

lemma gone_stays_gone: "inv r \<Longrightarrow> c \<notin> mem r \<Longrightarrow> (c, s) \<notin> rel (sub r c s')"
  using rel_mem [of r] by (force simp: rel_sub)

lemma others_unaffected:
  "inv r \<Longrightarrow> c' \<noteq> c \<Longrightarrow>
     ((c', s') \<in> rel (sub r c s)) = ((c', s') \<in> rel r) \<and>
     ((c', s') \<in> rel (unsub r c s)) = ((c', s') \<in> rel r) \<and>
     ((c', s') \<in> rel (dereg r c)) = ((c', s') \<in> rel r)"
  by (simp add: rel_sub rel_unsub rel_dereg)

end

lemma subs_rel_members: "reg_inv r \<Longrightarrow> fst ` subs_rel r \<subseteq> members r"
  by (fastforce simp: subs_rel_def members_def reg_inv_def streams_of_def split: option.splits)

interpretation regt: subscription_table reg_inv members subs_rel subscribe unsubscribe "\<lambda>r c. fst (deregister r c)"
proof unfold_locales
  fix r c s
  assume inv: "reg_inv r"
  show "reg_inv (subscribe r c s)" "reg_inv (unsubscribe r c s)" "reg_inv (fst (deregister r c))"
    using inv by (simp_all add: inv_intros)
  show "members (subscribe r c s) = members r" "members (unsubscribe r c s) = members r"
    "members (fst (deregister r c)) = members r - {c}"
    by (simp_all add: members_def frame_simps deregister_frame)
  show "subs_rel (subscribe r c s) = (if c \<in> members r then insert (c, s) (subs_rel r) else subs_rel r)"
    using inv by (auto simp: subs_rel_def members_def subscribe_subs_of split: if_splits)
  show "subs_rel (unsubscribe r c s) = subs_rel r - {(c, s)}"
    by (auto simp: subs_rel_def unsubscribe_subs_of split: if_splits)
  show "subs_rel (fst (deregister r c)) = {p \<in> subs_rel r. fst p \<noteq> c}"
    using inv by (auto simp: subs_rel_def deregister_subs_of reg_inv_def split: if_splits)
  show "fst ` subs_rel r \<subseteq> members r"
    using inv by (rule subs_rel_members)
qed

text \<open>The identifiers handed out so far lie below the counter, as long as it has not wrapped.\<close>

definition ids_below :: "registry \<Rightarrow> bool" where
  "ids_below r \<longleftrightarrow> (\<forall>c \<in> members r. c < next_id r)"

lemma reg_apply_next_id:
  "next_id (reg_apply r op) = (case op of Op_register _ _ _ \<Rightarrow> next_id r + 1 | _ \<Rightarrow> next_id r)"
  by (cases op) (simp_all add: allocate_id_def register_def deregister_frame frame_simps)

lemma reg_apply_inv:
  assumes "reg_inv r" "ids_below r"
  shows "reg_inv (reg_apply r op)"
proof (cases op)
  case (Op_register tx b e)
  from assms(2) have "connections r (next_id r) = None"
    by (auto simp: ids_below_def members_def dom_def)
  with assms(1) Op_register show ?thesis
    by (auto simp: allocate_id_def intro!: reg_inv_register reg_inv_allocate_id [of r, simplified allocate_id_def snd_conv])
qed (use assms in \<open>simp_all add: inv_intros\<close>)

lemma reg_apply_abs:
  assumes "reg_inv r" "ids_below r"
  shows "reg_abs (reg_apply r op) = spec_apply (next_id r) (reg_abs r) op"
proof (cases op)
  case (Op_register tx b e)
  have "subs_of (register (r\<lparr>next_id := x\<rparr>) c tx b e) = subs_of r" for x c
    by (simp add: register_def)
  with Op_register show ?thesis
    by (simp add: reg_abs_def allocate_id_def members_def subs_rel_def) (simp add: register_def)
qed (use assms in \<open>simp_all add: reg_abs_def regt.mem_sub regt.mem_unsub regt.mem_dereg regt.rel_sub regt.rel_unsub regt.rel_dereg\<close>)

lemma members_reg_apply_sub:
  "members (reg_apply r op) \<subseteq> (case op of Op_register _ _ _ \<Rightarrow> insert (next_id r) (members r) | _ \<Rightarrow> members r)"
  by (cases op) (auto simp: allocate_id_def register_def members_def frame_simps deregister_frame)

lemma ids_below_apply:
  assumes "ids_below r" "unat (next_id r) + 1 < 2 ^ 64"
  shows "ids_below (reg_apply r op)"
proof -
  have "c < next_id r + 1" if "c \<le> next_id r" for c
    using that assms(2) by (simp add: word_less_nat_alt word_le_nat_alt unat_u64_inc)
  with assms(1) members_reg_apply_sub [of r op] show ?thesis
    by (cases op) (auto simp: ids_below_def reg_apply_next_id less_imp_le simp del: reg_apply.simps dest!: subsetD)
qed

lemma reg_run_simulation:
  assumes "reg_inv r" "ids_below r" "unat (next_id r) + length ops < 2 ^ 64"
  shows "reg_inv (fold (\<lambda>op r. reg_apply r op) ops r) \<and>
         reg_abs (fold (\<lambda>op r. reg_apply r op) ops r) = spec_run (next_id r) (reg_abs r) ops"
  using assms
proof (induction ops arbitrary: r)
  case Nil
  then show ?case by simp
next
  case (Cons op ops)
  then have "unat (next_id r) + 1 < 2 ^ 64" by simp
  with Cons.prems have "unat (next_id (reg_apply r op)) + length ops < 2 ^ 64"
    by (cases op) (simp_all add: reg_apply_next_id unat_u64_inc del: reg_apply.simps)
  moreover have "ids_below (reg_apply r op)"
    using Cons.prems by (intro ids_below_apply) auto
  ultimately show ?case
    using Cons.IH [of "reg_apply r op"] Cons.prems reg_apply_inv reg_apply_abs
    by (simp add: reg_apply_next_id del: reg_apply.simps)
qed

section \<open>Fan-out\<close>

definition own_senders :: "registry \<Rightarrow> u64 list \<Rightarrow> bool" where
  "own_senders r l \<longleftrightarrow> distinct l \<and>
     (\<forall>c \<in> set l. \<forall>c' \<in> set l. \<forall>e e'. connections r c = Some e \<longrightarrow> connections r c' = Some e' \<longrightarrow>
        sender e = sender e' \<longrightarrow> c = c')"

lemma own_senders_ConsD: "own_senders r (c # l) \<Longrightarrow> own_senders r l"
  by (auto simp: own_senders_def)

lemma own_senders_neq:
  assumes "own_senders r (c # l)" "c' \<in> set l" "connections r c = Some e" "connections r c' = Some e'"
  shows "sender e' \<noteq> sender e"
proof
  assume "sender e' = sender e"
  with assms have "c' = c" unfolding own_senders_def by (metis list.set_intros(1,2))
  with assms show False by (simp add: own_senders_def)
qed

text \<open>
  What the fan-out relies on: \<open>try_send\<close> appends to exactly one queue and succeeds exactly
  when that queue has room; the eviction signal touches no outbound queue and leaves its
  channel signalled.
\<close>

locale fanout_channels =
  fixes try_send :: "'st \<Rightarrow> nat \<Rightarrow> bytes \<Rightarrow> bool \<times> 'st"
    and try_evict :: "'st \<Rightarrow> nat \<Rightarrow> bool \<times> 'st"
    and outq :: "'st \<Rightarrow> nat \<Rightarrow> bytes list"
    and has_room :: "'st \<Rightarrow> nat \<Rightarrow> bool"
    and signalled :: "'st \<Rightarrow> nat \<Rightarrow> bool"
  assumes send_ok: "fst (try_send st h p) = has_room st h"
    and send_outq: "outq (snd (try_send st h p)) = (if has_room st h then (outq st)(h := outq st h @ [p]) else outq st)"
    and send_room: "h' \<noteq> h \<Longrightarrow> has_room (snd (try_send st h p)) h' = has_room st h'"
    and send_signalled: "signalled (snd (try_send st h p)) = signalled st"
    and evict_outq: "outq (snd (try_evict st h)) = outq st"
    and evict_room: "has_room (snd (try_evict st h)) = has_room st"
    and evict_set: "signalled (snd (try_evict st h)) h"
    and evict_keep: "signalled st h' \<Longrightarrow> signalled (snd (try_evict st h)) h'"
begin

definition accepts :: "registry \<Rightarrow> 'st \<Rightarrow> u64 \<Rightarrow> bool" where
  "accepts r st c = (case connections r c of None \<Rightarrow> False | Some e \<Rightarrow> has_room st (sender e))"

definition overflows :: "registry \<Rightarrow> 'st \<Rightarrow> u64 \<Rightarrow> bool" where
  "overflows r st c = (case connections r c of None \<Rightarrow> False | Some e \<Rightarrow> \<not> has_room st (sender e))"

text \<open>The channel state after one subscriber has been served.\<close>

definition serve :: "registry \<Rightarrow> bytes \<Rightarrow> bytes \<Rightarrow> u64 \<Rightarrow> 'st \<Rightarrow> 'st" where
  "serve r json bin c st =
     (case connections r c of
        None \<Rightarrow> st
      | Some e \<Rightarrow>
          let st1 = snd (try_send st (sender e) (if is_binary e then bin else json))
          in if has_room st (sender e) then st1 else snd (try_evict st1 (evict_tx e)))"

lemma fanout_loop_Cons:
  "fanout_loop try_send try_evict r json bin (c # l) n ev st =
     fanout_loop try_send try_evict r json bin l (n + (if accepts r st c then 1 else 0))
       (ev @ (if overflows r st c then [c] else [])) (serve r json bin c st)"
proof (cases "connections r c")
  case None
  then show ?thesis by (simp add: accepts_def overflows_def serve_def)
next
  case (Some e)
  obtain ok st1 where t: "try_send st (sender e) (if is_binary e then bin else json) = (ok, st1)"
    by (cases "try_send st (sender e) (if is_binary e then bin else json)")
  from send_ok [of st "sender e" "if is_binary e then bin else json"] t
  have "ok = has_room st (sender e)" by simp
  with Some t show ?thesis by (simp add: accepts_def overflows_def serve_def)
qed

lemma serve_room:
  "own_senders r (c # l) \<Longrightarrow> c' \<in> set l \<Longrightarrow> connections r c' = Some e' \<Longrightarrow>
     has_room (serve r json bin c st) (sender e') = has_room st (sender e')"
  by (cases "connections r c") (simp_all add: serve_def Let_def send_room evict_room own_senders_neq)

lemma serve_accepts:
  "own_senders r (c # l) \<Longrightarrow> c' \<in> set l \<Longrightarrow>
     accepts r (serve r json bin c st) c' = accepts r st c' \<and>
     overflows r (serve r json bin c st) c' = overflows r st c'"
  by (auto simp: accepts_def overflows_def serve_room split: option.splits)

lemma serve_outq:
  "outq (serve r json bin c st) =
     (case connections r c of
        None \<Rightarrow> outq st
      | Some e \<Rightarrow> if has_room st (sender e)
                   then (outq st)(sender e := outq st (sender e) @ [if is_binary e then bin else json])
                   else outq st)"
  by (auto simp: serve_def Let_def send_outq evict_outq split: option.splits)

lemma serve_signalled:
  "signalled st h \<Longrightarrow> signalled (serve r json bin c st) h"
  "overflows r st c \<Longrightarrow> connections r c = Some e \<Longrightarrow> signalled (serve r json bin c st) (evict_tx e)"
  by (auto simp: serve_def Let_def send_signalled overflows_def evict_keep evict_set split: option.splits)

lemma fanout_loop_counts:
  "own_senders r l \<Longrightarrow> \<exists>st'. fanout_loop try_send try_evict r json bin l n ev st =
     (n + length (filter (accepts r st) l), ev @ filter (overflows r st) l, st')"
proof (induction l arbitrary: n ev st)
  case Nil
  then show ?case by simp
next
  case (Cons c l)
  let ?st = "serve r json bin c st"
  have "filter (accepts r ?st) l = filter (accepts r st) l" "filter (overflows r ?st) l = filter (overflows r st) l"
    using serve_accepts [OF Cons.prems] by (auto intro: filter_cong)
  with Cons.IH [OF own_senders_ConsD [OF Cons.prems], of "n + (if accepts r st c then 1 else 0)"
      "ev @ (if overflows r st c then [c] else [])" ?st]
  show ?case by (auto simp: fanout_loop_Cons simp del: fanout_loop.simps)
qed

lemma fanout_loop_untouched:
  "fanout_loop try_send try_evict r json bin l n ev st = (n', ev', st') \<Longrightarrow>
     \<forall>c \<in> set l. \<forall>e. connections r c = Some e \<longrightarrow> sender e \<noteq> h \<Longrightarrow> outq st' h = outq st h"
proof (induction l arbitrary: n ev st)
  case (Cons c l)
  then show ?case
    by (fastforce simp: fanout_loop_Cons serve_outq simp del: fanout_loop.simps split: option.splits if_splits)
qed simp

lemma fanout_loop_signalled:
  "fanout_loop try_send try_evict r json bin l n ev st = (n', ev', st') \<Longrightarrow> signalled st h \<Longrightarrow> signalled st' h"
proof (induction l arbitrary: n ev st)
  case (Cons c l)
  then show ?case by (auto simp: fanout_loop_Cons serve_signalled simp del: fanout_loop.simps)
qed simp

lemma fanout_loop_subscriber:
  "own_senders r l \<Longrightarrow> fanout_loop try_send try_evict r json bin l n ev st = (n', ev', st') \<Longrightarrow>
   c \<in> set l \<Longrightarrow> connections r c = Some e \<Longrightarrow>
     outq st' (sender e) = outq st (sender e) @
       (if has_room st (sender e) then [if is_binary e then bin else json] else []) \<and>
     (\<not> has_room st (sender e) \<longrightarrow> signalled st' (evict_tx e))"
proof (induction l arbitrary: n ev st)
  case Nil
  then show ?case by simp
next
  case (Cons c0 l)
  let ?st = "serve r json bin c0 st"
  from Cons.prems(2) obtain n1 ev1 where rest: "fanout_loop try_send try_evict r json bin l n1 ev1 ?st = (n', ev', st')"
    by (auto simp: fanout_loop_Cons simp del: fanout_loop.simps)
  show ?case
  proof (cases "c = c0")
    case True
    with Cons.prems have "\<forall>c' \<in> set l. \<forall>e'. connections r c' = Some e' \<longrightarrow> sender e' \<noteq> sender e"
      by (auto dest: own_senders_neq)
    from fanout_loop_untouched [OF rest this] have q: "outq st' (sender e) = outq ?st (sender e)" .
    have sig: "signalled st' (evict_tx e)" if "\<not> has_room st (sender e)"
    proof -
      from that True Cons.prems(4) have "overflows r st c0" by (simp add: overflows_def)
      with True Cons.prems(4) have "signalled ?st (evict_tx e)" by (simp add: serve_signalled(2))
      with fanout_loop_signalled [OF rest] show ?thesis by blast
    qed
    show ?thesis unfolding q using sig True Cons.prems(4) by (simp add: serve_outq)
  next
    case False
    with Cons.prems have c: "c \<in> set l" by simp
    have room: "has_room ?st (sender e) = has_room st (sender e)"
      using serve_room [OF Cons.prems(1) c Cons.prems(4)] .
    have "sender e0 \<noteq> sender e" if "connections r c0 = Some e0" for e0
      using own_senders_neq [OF Cons.prems(1) c that Cons.prems(4)] by simp
    then have "outq ?st (sender e) = outq st (sender e)"
      by (auto simp: serve_outq split: option.splits)
    with room Cons.IH [OF own_senders_ConsD [OF Cons.prems(1)] rest c Cons.prems(4)] show ?thesis by simp
  qed
qed

end

definition evict_signalled :: "chan_store \<Rightarrow> nat \<Rightarrow> bool" where
  "evict_signalled st h \<longleftrightarrow>
     queue (unit_chans st h) \<noteq> [] \<or> \<not> rx_alive (unit_chans st h) \<or> capacity (unit_chans st h) = 0"

interpretation fanc: fanout_channels store_try_send store_try_signal
  "\<lambda>st h. queue (byte_chans st h)" "\<lambda>st h. chan_room (byte_chans st h)" evict_signalled
  by unfold_locales
    (auto simp: store_try_send_def store_try_signal_def chan_try_send_def chan_room_def evict_signalled_def fun_eq_iff
      split: if_splits)

lemma deregister_all_inv: "reg_inv r \<Longrightarrow> reg_inv (fst (deregister_all r l))"
  by (induction l arbitrary: r) (auto simp: split_beta Let_def inv_intros)

lemma deregister_all_members: "members (fst (deregister_all r l)) = members r - set l"
proof (induction l arbitrary: r)
  case (Cons c l)
  show ?case
    by (simp add: split_beta Let_def Cons.IH) (auto simp: members_def deregister_frame)
qed simp

lemma deregister_all_rel: "reg_inv r \<Longrightarrow> subs_rel (fst (deregister_all r l)) = {p \<in> subs_rel r. fst p \<notin> set l}"
proof (induction l arbitrary: r)
  case (Cons c l)
  then show ?case
    by (auto simp: split_beta Let_def inv_intros regt.rel_dereg)
qed simp

definition senders_distinct :: "registry \<Rightarrow> bool" where
  "senders_distinct r \<longleftrightarrow>
     (\<forall>c c' e e'. connections r c = Some e \<longrightarrow> connections r c' = Some e' \<longrightarrow> sender e = sender e' \<longrightarrow> c = c')"

definition room_for :: "registry \<Rightarrow> chan_store \<Rightarrow> u64 \<Rightarrow> bool" where
  "room_for r st c = (case connections r c of None \<Rightarrow> False | Some e \<Rightarrow> chan_room (byte_chans st (sender e)))"

lemma own_senders_subs: "reg_inv r \<Longrightarrow> senders_distinct r \<Longrightarrow> own_senders r (subs_of r s)"
  by (auto simp: own_senders_def reg_inv_def senders_distinct_def)

lemma subs_registered: "reg_inv r \<Longrightarrow> c \<in> set (subs_of r s) \<Longrightarrow> \<exists>e. connections r c = Some e"
  using subs_rel_members [of r] by (force simp: subs_rel_def members_def)

lemma accepts_room_for: "fanc.accepts r st c = room_for r st c"
  by (simp add: fanc.accepts_def room_for_def)

lemma overflows_room_for:
  "reg_inv r \<Longrightarrow> c \<in> set (subs_of r s) \<Longrightarrow> fanc.overflows r st c = (\<not> room_for r st c)"
  by (auto simp: fanc.overflows_def room_for_def dest: subs_registered)

text \<open>The fan-out loop over the subscribers of a stream, whether or not the stream has an entry.\<close>

lemma fanout_encoded_unfold:
  "fanout_encoded try_send try_evict r st stream json bin =
     (let (n, ev, st1) = fanout_loop try_send try_evict r json bin (subs_of r stream) 0 [] st;
          (r1, gone) = deregister_all r ev
      in (\<lparr>fr_sent = n, fr_dropped = length ev, fr_evicted = ev\<rparr>, r1, st1, gone))"
  by (simp add: fanout_encoded_def subs_of_def split: option.splits)

lemma fanout_encoded_parts:
  assumes "reg_inv r" "senders_distinct r"
    and "fanout_encoded store_try_send store_try_signal r st stream json bin = (res, r', st', gone)"
  shows "fr_sent res = length (filter (room_for r st) (subs_of r stream))"
    "fr_evicted res = filter (\<lambda>c. \<not> room_for r st c) (subs_of r stream)"
    "fr_dropped res = length (fr_evicted res)"
    "(r', gone) = deregister_all r (fr_evicted res)"
    "fanout_loop store_try_send store_try_signal r json bin (subs_of r stream) 0 [] st = (fr_sent res, fr_evicted res, st')"
proof -
  let ?l = "subs_of r stream"
  from fanc.fanout_loop_counts [OF own_senders_subs [OF assms(1,2)], of json bin stream 0 "[]" st]
  obtain st1 where loop: "fanout_loop store_try_send store_try_signal r json bin ?l 0 [] st =
      (length (filter (room_for r st) ?l), filter (fanc.overflows r st) ?l, st1)"
    by (auto simp: accepts_room_for cong: filter_cong)
  moreover have "filter (fanc.overflows r st) ?l = filter (\<lambda>c. \<not> room_for r st c) ?l"
    using overflows_room_for [OF assms(1)] by (auto intro: filter_cong)
  ultimately show "fr_sent res = length (filter (room_for r st) (subs_of r stream))"
    "fr_evicted res = filter (\<lambda>c. \<not> room_for r st c) (subs_of r stream)"
    "fr_dropped res = length (fr_evicted res)"
    "(r', gone) = deregister_all r (fr_evicted res)"
    "fanout_loop store_try_send store_try_signal r json bin (subs_of r stream) 0 [] st = (fr_sent res, fr_evicted res, st')"
    using assms(3) by (auto simp: fanout_encoded_unfold Let_def split: prod.splits)
qed

section \<open>Properties\<close>

text \<open>A registry with a JSON and a MessagePack connection on one stream, the second one's queue full.\<close>

definition demo_ops :: "reg_op list" where
  "demo_ops = [Op_register 10 False 11, Op_register 20 True 21, Op_subscribe 1 ''room'', Op_subscribe 2 ''room'']"

definition demo_registry :: registry where
  "demo_registry = fold (\<lambda>op r. reg_apply r op) demo_ops registry_new"

definition demo_store :: chan_store where
  "demo_store =
     \<lparr>byte_chans = (\<lambda>_. \<lparr>queue = [], capacity = 1, senders = 2, rx_alive = True\<rparr>)
        (20 := \<lparr>queue = [''old''], capacity = 1, senders = 2, rx_alive = True\<rparr>),
      unit_chans = (\<lambda>_. \<lparr>queue = [], capacity = 1, senders = 1, rx_alive = True\<rparr>)\<rparr>"

lemma ids_below_new: "ids_below registry_new"
  by (simp add: ids_below_def members_def registry_new_def)

lemma reg_abs_new: "reg_abs registry_new = ({}, {})" "next_id registry_new = 1"
  by (simp_all add: reg_abs_def members_def subs_rel_def subs_of_def registry_new_def)

lemma demo_registry_inv: "reg_inv demo_registry"
  using reg_run_simulation [OF reg_inv_new ids_below_new, of demo_ops]
  by (simp add: demo_registry_def demo_ops_def reg_abs_new)

lemma demo_registry_eq:
  "demo_registry =
     \<lparr>connections = [1 \<mapsto> \<lparr>sender = 10, evict_tx = 11, is_binary = False\<rparr>, 2 \<mapsto> \<lparr>sender = 20, evict_tx = 21, is_binary = True\<rparr>],
      streams = [''room'' \<mapsto> [1, 2]], conn_streams = [1 \<mapsto> [''room''], 2 \<mapsto> [''room'']],
      next_id = 3, active = 2\<rparr>"
  by (auto simp: demo_registry_def demo_ops_def registry_new_def allocate_id_def register_def subscribe_def fun_eq_iff)

lemma demo_senders: "senders_distinct demo_registry"
  by (auto simp: senders_distinct_def demo_registry_eq split: if_splits)

text \<open>
  C6. For every sequence of connection registrations (identifier allocation included),
  subscriptions, unsubscriptions and deregistrations from the empty registry, the three maps
  stay consistent (the registry invariant), and the registry implements its specification: the
  set of members and the subscription relation are those of the abstract run, and the
  connection count is the number of members. The bound excludes the wrap-around of the
  identifier counter.
\<close>

theorem registry_run_refines:
  assumes "length ops + 1 < 2 ^ 64"
  shows "reg_inv (fold (\<lambda>op r. reg_apply r op) ops registry_new) \<and>
         reg_abs (fold (\<lambda>op r. reg_apply r op) ops registry_new) = spec_run 1 ({}, {}) ops \<and>
         connection_count (fold (\<lambda>op r. reg_apply r op) ops registry_new) =
           of_nat (card (fst (spec_run 1 ({}, {}) ops)))"
proof -
  let ?r = "fold (\<lambda>op r. reg_apply r op) ops registry_new"
  from assms have "unat (next_id registry_new) + length ops < 2 ^ 64"
    by (simp add: reg_abs_new)
  from reg_run_simulation [OF reg_inv_new ids_below_new this]
  have inv: "reg_inv ?r" and abs: "reg_abs ?r = spec_run 1 ({}, {}) ops"
    by (simp_all add: reg_abs_new)
  then have "members ?r = fst (spec_run 1 ({}, {}) ops)"
    by (metis fst_conv reg_abs_def)
  with inv abs show ?thesis
    by (simp add: connection_count_def reg_inv_def members_def)
qed

theorem registry_run_refines_witness:
  "reg_abs demo_registry = ({1, 2}, {(1, ''room''), (2, ''room'')})"
proof -
  have "length demo_ops + 1 < 2 ^ 64" by (simp add: demo_ops_def)
  from registry_run_refines [OF this] show ?thesis
    by (auto simp: demo_registry_def demo_ops_def)
qed

text \<open>
  C7. Fan-out delivery: every subscriber of the stream whose outbound queue has room gets
  exactly one copy of the message, appended at the end of its queue, in its own encoding; a
  subscriber without room gets none; and no queue of a connection that is not subscribed to
  the stream changes.
\<close>

theorem fanout_delivers_exactly:
  assumes "reg_inv r" "senders_distinct r"
    and "fanout_encoded store_try_send store_try_signal r st stream json bin = (res, r', st', gone)"
  shows "(\<forall>c e. (c, stream) \<in> subs_rel r \<longrightarrow> connections r c = Some e \<longrightarrow>
            queue (byte_chans st' (sender e)) =
              queue (byte_chans st (sender e)) @
                (if room_for r st c then [if is_binary e then bin else json] else [])) \<and>
         (\<forall>h. (\<forall>c e. (c, stream) \<in> subs_rel r \<longrightarrow> connections r c = Some e \<longrightarrow> sender e \<noteq> h) \<longrightarrow>
            queue (byte_chans st' h) = queue (byte_chans st h))"
proof -
  note loop = fanout_encoded_parts(5) [OF assms]
  have own: "own_senders r (subs_of r stream)" using assms(1,2) by (rule own_senders_subs)
  show ?thesis
    using fanc.fanout_loop_subscriber [OF own loop] fanc.fanout_loop_untouched [OF loop]
    by (auto simp: subs_rel_def room_for_def)
qed

theorem fanout_delivers_exactly_witness:
  "\<exists>res r' st' gone.
     fanout_encoded store_try_send store_try_signal demo_registry demo_store ''room'' ''j'' ''b'' = (res, r', st', gone) \<and>
     queue (byte_chans st' 10) = [''j''] \<and> queue (byte_chans st' 20) = [''old'']"
proof -
  obtain res r' st' gone where f:
    "fanout_encoded store_try_send store_try_signal demo_registry demo_store ''room'' ''j'' ''b'' = (res, r', st', gone)"
    by (metis prod_cases4)
  have m: "(1, ''room'') \<in> subs_rel demo_registry" "(2, ''room'') \<in> subs_rel demo_registry"
    by (simp_all add: subs_rel_def subs_of_def demo_registry_eq)
  have c: "connections demo_registry 1 = Some \<lparr>sender = 10, evict_tx = 11, is_binary = False\<rparr>"
    "connections demo_registry 2 = Some \<lparr>sender = 20, evict_tx = 21, is_binary = True\<rparr>"
    by (simp_all add: demo_registry_eq)
  have q: "queue (byte_chans demo_store 10) = []" "room_for demo_registry demo_store 1"
    "queue (byte_chans demo_store 20) = [''old'']" "\<not> room_for demo_registry demo_store 2"
    by (simp_all add: room_for_def c) (simp_all add: demo_store_def chan_room_def)
  note all = fanout_delivers_exactly [OF demo_registry_inv demo_senders f, THEN conjunct1, rule_format]
  from all [OF m(1) c(1)] all [OF m(2) c(2)] q f show ?thesis by auto
qed

text \<open>
  C17. Backpressure eviction: the fan-out counts every subscriber either as sent or as dropped;
  it evicts exactly the subscribers without room, each of which has an eviction signal waiting;
  afterwards the evicted connections are gone from the registry together with all their
  subscriptions, every other connection keeps its own, and the registry invariant holds.
\<close>

theorem fanout_evicts_exactly:
  assumes "reg_inv r" "senders_distinct r"
    and "fanout_encoded store_try_send store_try_signal r st stream json bin = (res, r', st', gone)"
  shows "fr_sent res + fr_dropped res = length (subs_of r stream) \<and>
         fr_dropped res = length (fr_evicted res) \<and> distinct (fr_evicted res) \<and>
         set (fr_evicted res) = {c. (c, stream) \<in> subs_rel r \<and> \<not> room_for r st c} \<and>
         (\<forall>c \<in> set (fr_evicted res). \<forall>e. connections r c = Some e \<longrightarrow> evict_signalled st' (evict_tx e)) \<and>
         reg_inv r' \<and> members r' = members r - set (fr_evicted res) \<and>
         subs_rel r' = {p \<in> subs_rel r. fst p \<notin> set (fr_evicted res)}"
proof -
  note parts = fanout_encoded_parts [OF assms]
  have own: "own_senders r (subs_of r stream)" using assms(1,2) by (rule own_senders_subs)
  have r': "r' = fst (deregister_all r (fr_evicted res))" using parts(4) by (metis fst_conv)
  have "fr_sent res + fr_dropped res = length (subs_of r stream)"
    by (simp add: parts(1,2,3) sum_length_filter_compl)
  moreover have "distinct (fr_evicted res)" using own by (simp add: parts(2) own_senders_def)
  moreover have "set (fr_evicted res) = {c. (c, stream) \<in> subs_rel r \<and> \<not> room_for r st c}"
    by (auto simp: parts(2) subs_rel_def)
  moreover have "evict_signalled st' (evict_tx e)" if "c \<in> set (fr_evicted res)" "connections r c = Some e" for c e
    using that fanc.fanout_loop_subscriber [OF own parts(5), of c e] by (auto simp: parts(2) room_for_def)
  ultimately show ?thesis
    unfolding r' using parts(3) assms(1)
    by (simp add: deregister_all_inv deregister_all_members deregister_all_rel)
qed

theorem fanout_evicts_exactly_witness:
  "\<exists>res r' st' gone.
     fanout_encoded store_try_send store_try_signal demo_registry demo_store ''room'' ''j'' ''b'' = (res, r', st', gone) \<and>
     set (fr_evicted res) = {2} \<and> members r' = {1} \<and> evict_signalled st' 21"
proof -
  obtain res r' st' gone where f:
    "fanout_encoded store_try_send store_try_signal demo_registry demo_store ''room'' ''j'' ''b'' = (res, r', st', gone)"
    by (metis prod_cases4)
  note all = fanout_evicts_exactly [OF demo_registry_inv demo_senders f]
  have "{c. (c, ''room'') \<in> subs_rel demo_registry \<and> \<not> room_for demo_registry demo_store c} = {2}"
    by (auto simp: subs_rel_def subs_of_def demo_registry_eq room_for_def demo_store_def chan_room_def)
  with all have ev: "set (fr_evicted res) = {2}" by simp
  moreover have "members demo_registry = {1, 2}" by (auto simp: members_def demo_registry_eq)
  moreover have "connections demo_registry 2 = Some \<lparr>sender = 20, evict_tx = 21, is_binary = True\<rparr>"
    by (simp add: demo_registry_eq)
  ultimately show ?thesis using all f by auto
qed



text \<open>
  Subscribing is idempotent on the whole registry state, has no effect for a connection
  that is no longer registered, and unsubscribing afterwards restores the subscription
  relation; other connections' subscriptions are never affected.
\<close>

theorem subscribe_idempotent:
  assumes "reg_inv r"
  shows "subscribe (subscribe r c s) c s = subscribe r c s \<and>
         (c \<notin> members r \<longrightarrow> subscribe r c s = r) \<and>
         ((c, s) \<notin> subs_rel r \<longrightarrow> subs_rel (unsubscribe (subscribe r c s) c s) = subs_rel r) \<and>
         (c' \<noteq> c \<longrightarrow> ((c', s') \<in> subs_rel (subscribe r c s)) = ((c', s') \<in> subs_rel r))"
proof -
  have "subscribe (subscribe r c s) c s = subscribe r c s"
    by (auto simp: subscribe_def split: option.splits)
  moreover have "c \<notin> members r \<longrightarrow> subscribe r c s = r"
    using assms by (auto simp: subscribe_def members_def reg_inv_def split: option.splits)
  ultimately show ?thesis
    using regt.unsub_after_sub [OF assms] regt.others_unaffected [OF assms, of c' c s' s] by blast
qed

theorem subscribe_idempotent_witness:
  "subscribe (subscribe demo_registry 1 ''news'') 1 ''news'' = subscribe demo_registry 1 ''news''"
  using subscribe_idempotent [OF demo_registry_inv, of 1 "''news''"] by blast

end
