(* ===== verification/Registry_Steps.thy ===== *)
theory Registry_Steps
  imports Registry "HOL-Library.Multiset"
begin

text \<open>
  The registry of \<open>src/src/connection/registry.rs\<close> under concurrency. Each call is split into the
  operations on the shared maps and counters that the Rust code performs one after the other, and the calls of
  many tasks interleave. A task per connection registers it, subscribes and unsubscribes it and
  deregisters it in the end; consumer tasks fan messages out and deregister whom they evict. An
  operation on a \<open>DashMap\<close> is atomic and waits while another task holds a guard on the shard of
  its key: \<open>subscribe\<close> holds a write guard on the connection's stream list while it pushes, and the
  fan-out holds a read guard on the subscriber list while it iterates. The shard of a key is an argument.
\<close>

section \<open>Program points\<close>

datatype task = Conn u64 | Consumer nat

datatype reg_pc = Reg_conn connection_entry | Reg_streams | Reg_count

datatype dereg_pc =
    Dereg_take
  | Dereg_retain str "str list"
  | Dereg_drop str "str list"
  | Dereg_conn
  | Dereg_count

datatype sub_pc = Sub_guard str | Sub_push str | Sub_note str

datatype unsub_pc = Unsub_retain str | Unsub_drop str | Unsub_note str

datatype fan_pc = Fan_guard str | Fan_each str "u64 list" "u64 list"

text \<open>\<open>Deregistering p c todo\<close>: at point \<open>p\<close> of deregistering \<open>c\<close>, with the evictions \<open>todo\<close> to follow.\<close>

datatype pc =
    Unborn
  | Ready
  | Done
  | Registering reg_pc
  | Deregistering dereg_pc u64 "u64 list"
  | Subscribing sub_pc
  | Unsubscribing unsub_pc
  | Fanning fan_pc

section \<open>The steps of a call\<close>

text \<open>Each function performs one operation and gives the next point of the call, or \<open>None\<close> when it returns.\<close>

fun register_step :: "u64 \<Rightarrow> registry \<Rightarrow> reg_pc \<Rightarrow> registry \<times> reg_pc option" where
  "register_step c r (Reg_conn e) = (r\<lparr>connections := (connections r)(c \<mapsto> e)\<rparr>, Some Reg_streams)"
| "register_step c r Reg_streams = (r\<lparr>conn_streams := (conn_streams r)(c \<mapsto> [])\<rparr>, Some Reg_count)"
| "register_step c r Reg_count = (r\<lparr>active := active r + 1\<rparr>, None)"

fun dereg_next :: "str list \<Rightarrow> dereg_pc" where
  "dereg_next [] = Dereg_conn"
| "dereg_next (s # ss) = Dereg_retain s ss"

fun deregister_step :: "u64 \<Rightarrow> registry \<Rightarrow> dereg_pc \<Rightarrow> registry \<times> dereg_pc option" where
  "deregister_step c r Dereg_take =
     (case conn_streams r c of
        None \<Rightarrow> (r, Some Dereg_conn)
      | Some stream_list \<Rightarrow> (r\<lparr>conn_streams := (conn_streams r)(c := None)\<rparr>, Some (dereg_next stream_list)))"
| "deregister_step c r (Dereg_retain s ss) =
     (let (should_remove, r1) = retain_subscriber r s c
      in (r1, Some (if should_remove then Dereg_drop s ss else dereg_next ss)))"
| "deregister_step c r (Dereg_drop s ss) = (remove_if_empty r s, Some (dereg_next ss))"
| "deregister_step c r Dereg_conn =
     (case connections r c of
        None \<Rightarrow> (r, None)
      | Some _ \<Rightarrow> (r\<lparr>connections := (connections r)(c := None)\<rparr>, Some Dereg_count))"
| "deregister_step c r Dereg_count = (r\<lparr>active := active r - 1\<rparr>, None)"

fun subscribe_step :: "u64 \<Rightarrow> registry \<Rightarrow> sub_pc \<Rightarrow> registry \<times> sub_pc option" where
  "subscribe_step c r (Sub_guard s) =
     (case conn_streams r c of
        None \<Rightarrow> (r, None)
      | Some ss \<Rightarrow> (r, if s \<in> set ss then None else Some (Sub_push s)))"
| "subscribe_step c r (Sub_push s) =
     (r\<lparr>streams := (streams r)(s \<mapsto> (case streams r s of None \<Rightarrow> [] | Some v \<Rightarrow> v) @ [c])\<rparr>, Some (Sub_note s))"
| "subscribe_step c r (Sub_note s) =
     (case conn_streams r c of
        None \<Rightarrow> (r, None)
      | Some ss \<Rightarrow> (r\<lparr>conn_streams := (conn_streams r)(c \<mapsto> ss @ [s])\<rparr>, None))"

fun unsubscribe_step :: "u64 \<Rightarrow> registry \<Rightarrow> unsub_pc \<Rightarrow> registry \<times> unsub_pc option" where
  "unsubscribe_step c r (Unsub_retain s) =
     (let (should_remove, r1) = retain_subscriber r s c
      in (r1, Some (if should_remove then Unsub_drop s else Unsub_note s)))"
| "unsubscribe_step c r (Unsub_drop s) = (remove_if_empty r s, Some (Unsub_note s))"
| "unsubscribe_step c r (Unsub_note s) =
     (case conn_streams r c of
        None \<Rightarrow> (r, None)
      | Some ss \<Rightarrow> (r\<lparr>conn_streams := (conn_streams r)(c \<mapsto> filter (\<lambda>x. x \<noteq> s) ss)\<rparr>, None))"

text \<open>The fan-out writes no map; \<open>sent\<close> is the result of \<open>try_send\<close>. It ends with the list of evicted connections.\<close>

fun fanout_step :: "bool \<Rightarrow> registry \<Rightarrow> fan_pc \<Rightarrow> fan_pc + u64 list" where
  "fanout_step sent r (Fan_guard s) =
     (case streams r s of None \<Rightarrow> Inr [] | Some subscribers \<Rightarrow> Inl (Fan_each s subscribers []))"
| "fanout_step sent r (Fan_each s [] ev) = Inr ev"
| "fanout_step sent r (Fan_each s (c # rest) ev) =
     Inl (Fan_each s rest (if connections r c \<noteq> None \<and> \<not> sent then ev @ [c] else ev))"

section \<open>Tasks\<close>

fun returned :: "task \<Rightarrow> u64 list \<Rightarrow> pc" where
  "returned t (c # todo) = Deregistering Dereg_take c todo"
| "returned (Conn _) [] = Done"
| "returned (Consumer _) [] = Ready"

definition resume :: "('p \<Rightarrow> pc) \<Rightarrow> pc \<Rightarrow> registry \<times> 'p option \<Rightarrow> registry \<times> pc" where
  "resume wrap back res = (fst res, (case snd res of None \<Rightarrow> back | Some p \<Rightarrow> wrap p))"

fun task_step :: "bool \<Rightarrow> task \<Rightarrow> registry \<Rightarrow> pc \<Rightarrow> (registry \<times> pc) option" where
  "task_step sent (Conn c) r (Registering p) = Some (resume Registering Ready (register_step c r p))"
| "task_step sent (Conn c) r (Subscribing p) = Some (resume Subscribing Ready (subscribe_step c r p))"
| "task_step sent (Conn c) r (Unsubscribing p) = Some (resume Unsubscribing Ready (unsubscribe_step c r p))"
| "task_step sent t r (Deregistering p c todo) =
     Some (resume (\<lambda>p. Deregistering p c todo) (returned t todo) (deregister_step c r p))"
| "task_step sent (Consumer i) r (Fanning p) =
     Some (r, (case fanout_step sent r p of Inl p' \<Rightarrow> Fanning p' | Inr ev \<Rightarrow> returned (Consumer i) ev))"
| "task_step sent t r p = None"

text \<open>The guards a task holds between two steps, and the keys whose shards its next step writes or reads.\<close>

fun holds_conn_streams :: "task \<Rightarrow> pc \<Rightarrow> u64 option" where
  "holds_conn_streams (Conn c) (Subscribing (Sub_push _)) = Some c"
| "holds_conn_streams (Conn c) (Subscribing (Sub_note _)) = Some c"
| "holds_conn_streams _ _ = None"

fun reads_stream :: "pc \<Rightarrow> str option" where
  "reads_stream (Fanning (Fan_each s _ _)) = Some s"
| "reads_stream _ = None"

fun needs_conn_streams :: "task \<Rightarrow> pc \<Rightarrow> u64 option" where
  "needs_conn_streams (Conn c) (Registering Reg_streams) = Some c"
| "needs_conn_streams (Conn c) (Subscribing (Sub_guard _)) = Some c"
| "needs_conn_streams (Conn c) (Unsubscribing (Unsub_note _)) = Some c"
| "needs_conn_streams _ (Deregistering Dereg_take c _) = Some c"
| "needs_conn_streams _ _ = None"

fun needs_stream :: "pc \<Rightarrow> str option" where
  "needs_stream (Subscribing (Sub_push s)) = Some s"
| "needs_stream (Unsubscribing (Unsub_retain s)) = Some s"
| "needs_stream (Unsubscribing (Unsub_drop s)) = Some s"
| "needs_stream (Deregistering (Dereg_retain s _) _ _) = Some s"
| "needs_stream (Deregistering (Dereg_drop s _) _ _) = Some s"
| "needs_stream _ = None"

type_synonym pcs = "task \<Rightarrow> pc"

definition may_run :: "(u64 \<Rightarrow> nat) \<Rightarrow> (str \<Rightarrow> nat) \<Rightarrow> pcs \<Rightarrow> task \<Rightarrow> bool" where
  "may_run cshard sshard ps t \<longleftrightarrow>
     (\<forall>c c' t'. needs_conn_streams t (ps t) = Some c \<longrightarrow> holds_conn_streams t' (ps t') = Some c' \<longrightarrow> cshard c \<noteq> cshard c') \<and>
     (\<forall>s s' t'. needs_stream (ps t) = Some s \<longrightarrow> reads_stream (ps t') = Some s' \<longrightarrow> sshard s \<noteq> sshard s')"

text \<open>
  The linearization point of a call: the operation on the connection's stream list that makes it take effect,
  as an operation of the abstract specification with the identifier it concerns.
\<close>

fun linearizes :: "task \<Rightarrow> registry \<Rightarrow> pc \<Rightarrow> (u64 \<times> reg_op) option" where
  "linearizes (Conn c) r (Registering Reg_streams) =
     (case connections r c of None \<Rightarrow> None | Some e \<Rightarrow> Some (c, Op_register (sender e) (is_binary e) (evict_tx e)))"
| "linearizes (Conn c) r (Subscribing (Sub_guard s)) =
     (case conn_streams r c of
        None \<Rightarrow> Some (c, Op_subscribe c s)
      | Some ss \<Rightarrow> if s \<in> set ss then Some (c, Op_subscribe c s) else None)"
| "linearizes (Conn c) r (Subscribing (Sub_note s)) = Some (c, Op_subscribe c s)"
| "linearizes (Conn c) r (Unsubscribing (Unsub_note s)) = Some (c, Op_unsubscribe c s)"
| "linearizes t r (Deregistering Dereg_take c todo) = Some (c, Op_deregister c)"
| "linearizes t r p = None"

type_synonym conc_state = "registry \<times> pcs \<times> (u64 \<times> reg_op) list"

text \<open>
  A task performs the next operation of its call. The state carries the abstract operations that have
  taken effect so far.
\<close>

inductive call_step :: "(u64 \<Rightarrow> nat) \<Rightarrow> (str \<Rightarrow> nat) \<Rightarrow> conc_state \<Rightarrow> conc_state \<Rightarrow> bool"
  for cshard sshard where
  call_stepI: "task_step sent t r (ps t) = Some (r', p) \<Longrightarrow> may_run cshard sshard ps t \<Longrightarrow>
    call_step cshard sshard (r, ps, h)
      (r', ps(t := p), h @ (case linearizes t r (ps t) of None \<Rightarrow> [] | Some op \<Rightarrow> [op]))"

text \<open>
  Steps of the whole: a connection is given an identifier and starts to register, a connection
  or a consumer starts a call, or a task performs the next operation of its call.
\<close>

inductive conc_step :: "(u64 \<Rightarrow> nat) \<Rightarrow> (str \<Rightarrow> nat) \<Rightarrow> conc_state \<Rightarrow> conc_state \<Rightarrow> bool"
  for cshard sshard where
  spawn: "ps (Conn (next_id r)) = Unborn \<Longrightarrow>
    conc_step cshard sshard (r, ps, h) (snd (allocate_id r), ps(Conn (next_id r) := Registering (Reg_conn e)), h)"
| start_subscribe: "ps (Conn c) = Ready \<Longrightarrow>
    conc_step cshard sshard (r, ps, h) (r, ps(Conn c := Subscribing (Sub_guard s)), h)"
| start_unsubscribe: "ps (Conn c) = Ready \<Longrightarrow>
    conc_step cshard sshard (r, ps, h) (r, ps(Conn c := Unsubscribing (Unsub_retain s)), h)"
| start_deregister: "ps (Conn c) = Ready \<Longrightarrow>
    conc_step cshard sshard (r, ps, h) (r, ps(Conn c := Deregistering Dereg_take c []), h)"
| start_fanout: "ps (Consumer i) = Ready \<Longrightarrow>
    conc_step cshard sshard (r, ps, h) (r, ps(Consumer i := Fanning (Fan_guard s)), h)"
| call: "call_step cshard sshard \<sigma> \<sigma>' \<Longrightarrow> conc_step cshard sshard \<sigma> \<sigma>'"

fun initial_pc :: "task \<Rightarrow> pc" where
  "initial_pc (Conn _) = Unborn"
| "initial_pc (Consumer _) = Ready"

definition conc_init :: conc_state where
  "conc_init = (registry_new, initial_pc, [])"

abbreviation conc_reach :: "(u64 \<Rightarrow> nat) \<Rightarrow> (str \<Rightarrow> nat) \<Rightarrow> conc_state \<Rightarrow> bool" where
  "conc_reach cshard sshard \<equiv> (conc_step cshard sshard)\<^sup>*\<^sup>* conc_init"

section \<open>Views of the program points\<close>

fun registered :: "pc \<Rightarrow> bool" where
  "registered Unborn \<longleftrightarrow> False"
| "registered (Registering (Reg_conn _)) \<longleftrightarrow> False"
| "registered (Registering Reg_streams) \<longleftrightarrow> False"
| "registered _ \<longleftrightarrow> True"

text \<open>The connections a task deregisters or will, the one whose stream list it has taken, and the pairs it still has to remove.\<close>

fun targets :: "pc \<Rightarrow> u64 set" where
  "targets (Deregistering _ c todo) = insert c (set todo)"
| "targets (Fanning (Fan_each _ _ ev)) = set ev"
| "targets _ = {}"

fun taken :: "pc \<Rightarrow> u64 set" where
  "taken (Deregistering (Dereg_retain _ _) c _) = {c}"
| "taken (Deregistering (Dereg_drop _ _) c _) = {c}"
| "taken (Deregistering Dereg_conn c _) = {c}"
| "taken _ = {}"

fun pending_removals :: "pc \<Rightarrow> (u64 \<times> str) set" where
  "pending_removals (Deregistering (Dereg_retain s ss) c _) = {c} \<times> set (s # ss)"
| "pending_removals (Deregistering (Dereg_drop s ss) c _) = {c} \<times> set ss"
| "pending_removals _ = {}"

fun pending_drops :: "pc \<Rightarrow> str set" where
  "pending_drops (Unsubscribing (Unsub_drop s)) = {s}"
| "pending_drops (Deregistering (Dereg_drop s _) _ _) = {s}"
| "pending_drops _ = {}"

fun pushing :: "pc \<Rightarrow> str set" where
  "pushing (Subscribing (Sub_push s)) = {s}"
| "pushing (Subscribing (Sub_note s)) = {s}"
| "pushing _ = {}"

fun noting :: "pc \<Rightarrow> str set" where
  "noting (Subscribing (Sub_note s)) = {s}"
| "noting _ = {}"

fun forgetting :: "pc \<Rightarrow> str set" where
  "forgetting (Unsubscribing (Unsub_drop s)) = {s}"
| "forgetting (Unsubscribing (Unsub_note s)) = {s}"
| "forgetting _ = {}"

fun ended :: "pc \<Rightarrow> bool" where
  "ended Done \<longleftrightarrow> True"
| "ended (Deregistering Dereg_count _ _) \<longleftrightarrow> True"
| "ended _ \<longleftrightarrow> False"

fun counting_up :: "pc \<Rightarrow> bool" where
  "counting_up (Registering Reg_streams) \<longleftrightarrow> True"
| "counting_up (Registering Reg_count) \<longleftrightarrow> True"
| "counting_up _ \<longleftrightarrow> False"

fun counting_down :: "pc \<Rightarrow> bool" where
  "counting_down (Deregistering Dereg_count _ _) \<longleftrightarrow> True"
| "counting_down _ \<longleftrightarrow> False"

fun typed :: "task \<Rightarrow> pc \<Rightarrow> bool" where
  "typed (Conn c) (Deregistering _ c' todo) \<longleftrightarrow> c' = c \<and> todo = []"
| "typed (Conn c) (Fanning _) \<longleftrightarrow> False"
| "typed (Conn c) _ \<longleftrightarrow> True"
| "typed (Consumer i) Ready \<longleftrightarrow> True"
| "typed (Consumer i) (Deregistering _ _ _) \<longleftrightarrow> True"
| "typed (Consumer i) (Fanning _) \<longleftrightarrow> True"
| "typed (Consumer i) _ \<longleftrightarrow> False"

section \<open>Effects of the single operations\<close>

lemma retain_frame [simp]:
  "connections (snd (retain_subscriber r s c)) = connections r"
  "conn_streams (snd (retain_subscriber r s c)) = conn_streams r"
  "active (snd (retain_subscriber r s c)) = active r"
  "next_id (snd (retain_subscriber r s c)) = next_id r"
  by (auto simp: retain_subscriber_def Let_def split: option.splits)

lemma remove_if_empty_frame [simp]:
  "connections (remove_if_empty r s) = connections r"
  "conn_streams (remove_if_empty r s) = conn_streams r"
  "active (remove_if_empty r s) = active r"
  "next_id (remove_if_empty r s) = next_id r"
  by (auto simp: remove_if_empty_def split: option.splits)

lemma streams_of_frame [simp]:
  "streams_of (r\<lparr>streams := x\<rparr>) = streams_of r" "streams_of (r\<lparr>connections := y\<rparr>) = streams_of r"
  "streams_of (r\<lparr>active := a\<rparr>) = streams_of r" "streams_of (r\<lparr>next_id := n\<rparr>) = streams_of r"
  "streams_of (snd (retain_subscriber r s c)) = streams_of r" "streams_of (remove_if_empty r s) = streams_of r"
  by (auto simp: streams_of_def fun_eq_iff)

lemma streams_of_upd [simp]:
  "streams_of (r\<lparr>conn_streams := (conn_streams r)(c := v)\<rparr>) = (streams_of r)(c := (case v of None \<Rightarrow> [] | Some l \<Rightarrow> l))"
  by (auto simp: streams_of_def fun_eq_iff)

lemma subs_of_retain [simp]:
  "subs_of (snd (retain_subscriber r s c)) = (subs_of r)(s := filter (\<lambda>i. i \<noteq> c) (subs_of r s))"
  by (auto simp: retain_subscriber_def Let_def subs_of_def fun_eq_iff split: option.splits)

lemma subs_of_remove_if_empty [simp]: "subs_of (remove_if_empty r s) = subs_of r"
  by (auto simp: remove_if_empty_def subs_of_def fun_eq_iff split: option.splits)

lemma subs_of_push [simp]:
  "subs_of (r\<lparr>streams := (streams r)(s \<mapsto> v)\<rparr>) = (subs_of r)(s := v)"
  by (auto simp: subs_of_def fun_eq_iff)

lemma subs_of_push_arg: "(case streams r s of None \<Rightarrow> [] | Some v \<Rightarrow> v) = subs_of r s"
  by (simp add: subs_of_def)

lemma retain_empty:
  "streams (snd (retain_subscriber r s c)) x = Some [] \<Longrightarrow> streams r x = Some [] \<or> x = s \<and> fst (retain_subscriber r s c)"
  by (auto simp: retain_subscriber_def Let_def split: option.splits if_splits)

lemma remove_if_empty_streams: "streams (remove_if_empty r s) x = (if x = s \<and> streams r s = Some [] then None else streams r x)"
  by (auto simp: remove_if_empty_def split: option.splits)

text \<open>The operations, one case each.\<close>

lemma register_stepE:
  assumes "(r', p') = resume Registering Ready (register_step c r q)"
  obtains (reg_conn) e where "q = Reg_conn e" "r' = r\<lparr>connections := (connections r)(c \<mapsto> e)\<rparr>" "p' = Registering Reg_streams"
  | (reg_streams) "q = Reg_streams" "r' = r\<lparr>conn_streams := (conn_streams r)(c \<mapsto> [])\<rparr>" "p' = Registering Reg_count"
  | (reg_count) "q = Reg_count" "r' = r\<lparr>active := active r + 1\<rparr>" "p' = Ready"
proof (cases q)
  case (Reg_conn e)
  with assms show ?thesis by (intro reg_conn) (simp_all add: resume_def)
next
  case Reg_streams
  with assms show ?thesis by (intro reg_streams) (simp_all add: resume_def)
next
  case Reg_count
  with assms show ?thesis by (intro reg_count) (simp_all add: resume_def)
qed

lemma deregister_stepE:
  assumes "(r', p') = resume (\<lambda>p. Deregistering p c todo) done (deregister_step c r q)"
  obtains (take) "q = Dereg_take" "r' = r\<lparr>conn_streams := (conn_streams r)(c := None)\<rparr>"
      "p' = Deregistering (dereg_next (streams_of r c)) c todo"
  | (retain) s ss where "q = Dereg_retain s ss" "r' = snd (retain_subscriber r s c)"
      "p' = Deregistering (if fst (retain_subscriber r s c) then Dereg_drop s ss else dereg_next ss) c todo"
  | (drop) s ss where "q = Dereg_drop s ss" "r' = remove_if_empty r s" "p' = Deregistering (dereg_next ss) c todo"
  | (conn_gone) "q = Dereg_conn" "connections r c = None" "r' = r" "p' = done"
  | (conn) e where "q = Dereg_conn" "connections r c = Some e"
      "r' = r\<lparr>connections := (connections r)(c := None)\<rparr>" "p' = Deregistering Dereg_count c todo"
  | (count) "q = Dereg_count" "r' = r\<lparr>active := active r - 1\<rparr>" "p' = done"
proof (cases q)
  case Dereg_take
  have "r\<lparr>conn_streams := (conn_streams r)(c := None)\<rparr> = r" if "conn_streams r c = None"
    using that by (simp add: fun_upd_idem)
  with Dereg_take assms show ?thesis by (intro take) (auto simp: resume_def streams_of_def split: option.splits)
next
  case Dereg_conn
  show ?thesis
  proof (cases "connections r c")
    case None
    with assms Dereg_conn show ?thesis by (intro conn_gone) (simp_all add: resume_def)
  next
    case (Some e)
    with assms Dereg_conn show ?thesis by (intro conn) (simp_all add: resume_def)
  qed
next
  case (Dereg_retain s ss)
  with assms show ?thesis by (intro retain) (simp_all add: resume_def split_beta Let_def)
next
  case (Dereg_drop s ss)
  with assms show ?thesis by (intro drop) (simp_all add: resume_def)
next
  case Dereg_count
  with assms show ?thesis by (intro count) (simp_all add: resume_def)
qed

lemma subscribe_stepE:
  assumes "(r', p') = resume Subscribing Ready (subscribe_step c r q)"
  obtains (guard_skip) s where "q = Sub_guard s" "r' = r" "p' = Ready" "conn_streams r c = None \<or> s \<in> set (streams_of r c)"
  | (guard) s ss where "q = Sub_guard s" "r' = r" "p' = Subscribing (Sub_push s)" "conn_streams r c = Some ss" "s \<notin> set ss"
  | (push) s where "q = Sub_push s" "p' = Subscribing (Sub_note s)" "r' = r\<lparr>streams := (streams r)(s \<mapsto> subs_of r s @ [c])\<rparr>"
  | (note_gone) s where "q = Sub_note s" "conn_streams r c = None" "r' = r" "p' = Ready"
  | (noted) s ss where "q = Sub_note s" "conn_streams r c = Some ss" "p' = Ready"
      "r' = r\<lparr>conn_streams := (conn_streams r)(c \<mapsto> ss @ [s])\<rparr>"
proof (cases q)
  case (Sub_guard s)
  show ?thesis
  proof (cases "conn_streams r c = None \<or> s \<in> set (streams_of r c)")
    case True
    with assms Sub_guard show ?thesis by (intro guard_skip) (auto simp: resume_def streams_of_def split: option.splits)
  next
    case False
    then obtain ss where "conn_streams r c = Some ss" "s \<notin> set ss" by (auto simp: streams_of_def)
    with assms Sub_guard show ?thesis by (intro guard) (simp_all add: resume_def)
  qed
next
  case (Sub_note s)
  show ?thesis
  proof (cases "conn_streams r c")
    case None
    with assms Sub_note show ?thesis by (intro note_gone) (simp_all add: resume_def)
  next
    case (Some ss)
    with assms Sub_note show ?thesis by (intro noted) (simp_all add: resume_def)
  qed
next
  case (Sub_push s)
  with assms show ?thesis by (intro push) (simp_all add: resume_def subs_of_push_arg)
qed

lemma unsubscribe_stepE:
  assumes "(r', p') = resume Unsubscribing Ready (unsubscribe_step c r q)"
  obtains (unsub_retain) s where "q = Unsub_retain s" "r' = snd (retain_subscriber r s c)"
      "p' = Unsubscribing (if fst (retain_subscriber r s c) then Unsub_drop s else Unsub_note s)"
  | (unsub_drop) s where "q = Unsub_drop s" "r' = remove_if_empty r s" "p' = Unsubscribing (Unsub_note s)"
  | (forget_gone) s where "q = Unsub_note s" "conn_streams r c = None" "r' = r" "p' = Ready"
  | (forget) s ss where "q = Unsub_note s" "conn_streams r c = Some ss" "p' = Ready"
      "r' = r\<lparr>conn_streams := (conn_streams r)(c \<mapsto> filter (\<lambda>x. x \<noteq> s) ss)\<rparr>"
proof (cases q)
  case (Unsub_note s)
  show ?thesis
  proof (cases "conn_streams r c")
    case None
    with assms Unsub_note show ?thesis by (intro forget_gone) (simp_all add: resume_def)
  next
    case (Some ss)
    with assms Unsub_note show ?thesis by (intro forget) (simp_all add: resume_def)
  qed
next
  case (Unsub_retain s)
  with assms show ?thesis by (intro unsub_retain) (simp_all add: resume_def split_beta Let_def)
next
  case (Unsub_drop s)
  with assms show ?thesis by (intro unsub_drop) (simp_all add: resume_def)
qed

lemma fanout_stepE:
  assumes "p' = (case fanout_step sent r q of Inl q' \<Rightarrow> Fanning q' | Inr ev \<Rightarrow> returned (Consumer i) ev)"
  obtains (fan_skip) s where "q = Fan_guard s" "streams r s = None" "p' = Ready"
  | (fan_guard) s l where "q = Fan_guard s" "streams r s = Some l" "p' = Fanning (Fan_each s l [])"
  | (fan_end) s ev where "q = Fan_each s [] ev" "p' = returned (Consumer i) ev"
  | (fan_each) s c rest ev where "q = Fan_each s (c # rest) ev"
      "p' = Fanning (Fan_each s rest (if connections r c \<noteq> None \<and> \<not> sent then ev @ [c] else ev))"
proof (cases q)
  case (Fan_guard s)
  show ?thesis
  proof (cases "streams r s")
    case None
    with assms Fan_guard show ?thesis by (intro fan_skip) (simp_all)
  next
    case (Some ss)
    with assms Fan_guard show ?thesis by (intro fan_guard) (simp_all)
  qed
next
  case (Fan_each s l ev)
  show ?thesis
  proof (cases l)
    case Nil
    with assms Fan_each show ?thesis by (intro fan_end) simp_all
  next
    case (Cons c rest)
    with assms Fan_each show ?thesis by (intro fan_each) simp_all
  qed
qed

lemma task_stepE:
  assumes "task_step sent t r p = Some (r', p')"
  obtains
    (reg_conn) c e where "t = Conn c" "p = Registering (Reg_conn e)" "r' = r\<lparr>connections := (connections r)(c \<mapsto> e)\<rparr>"
      "p' = Registering Reg_streams"
  | (reg_streams) c where "t = Conn c" "p = Registering Reg_streams"
      "r' = r\<lparr>conn_streams := (conn_streams r)(c \<mapsto> [])\<rparr>" "p' = Registering Reg_count"
  | (reg_count) c where "t = Conn c" "p = Registering Reg_count" "r' = r\<lparr>active := active r + 1\<rparr>" "p' = Ready"
  | (take) c todo where "p = Deregistering Dereg_take c todo" "r' = r\<lparr>conn_streams := (conn_streams r)(c := None)\<rparr>"
      "p' = Deregistering (dereg_next (streams_of r c)) c todo"
  | (retain) c s ss todo where "p = Deregistering (Dereg_retain s ss) c todo" "r' = snd (retain_subscriber r s c)"
      "p' = Deregistering (if fst (retain_subscriber r s c) then Dereg_drop s ss else dereg_next ss) c todo"
  | (drop) c s ss todo where "p = Deregistering (Dereg_drop s ss) c todo" "r' = remove_if_empty r s"
      "p' = Deregistering (dereg_next ss) c todo"
  | (conn_gone) c todo where "p = Deregistering Dereg_conn c todo" "connections r c = None" "r' = r" "p' = returned t todo"
  | (conn) c e todo where "p = Deregistering Dereg_conn c todo" "connections r c = Some e"
      "r' = r\<lparr>connections := (connections r)(c := None)\<rparr>" "p' = Deregistering Dereg_count c todo"
  | (count) c todo where "p = Deregistering Dereg_count c todo" "r' = r\<lparr>active := active r - 1\<rparr>" "p' = returned t todo"
  | (guard_skip) c s where "t = Conn c" "p = Subscribing (Sub_guard s)" "r' = r" "p' = Ready"
      "conn_streams r c = None \<or> s \<in> set (streams_of r c)"
  | (guard) c s ss where "t = Conn c" "p = Subscribing (Sub_guard s)" "r' = r" "p' = Subscribing (Sub_push s)"
      "conn_streams r c = Some ss" "s \<notin> set ss"
  | (push) c s where "t = Conn c" "p = Subscribing (Sub_push s)" "p' = Subscribing (Sub_note s)"
      "r' = r\<lparr>streams := (streams r)(s \<mapsto> subs_of r s @ [c])\<rparr>"
  | (note_gone) c s where "t = Conn c" "p = Subscribing (Sub_note s)" "conn_streams r c = None" "r' = r" "p' = Ready"
  | (noted) c s ss where "t = Conn c" "p = Subscribing (Sub_note s)" "conn_streams r c = Some ss" "p' = Ready"
      "r' = r\<lparr>conn_streams := (conn_streams r)(c \<mapsto> ss @ [s])\<rparr>"
  | (unsub_retain) c s where "t = Conn c" "p = Unsubscribing (Unsub_retain s)" "r' = snd (retain_subscriber r s c)"
      "p' = Unsubscribing (if fst (retain_subscriber r s c) then Unsub_drop s else Unsub_note s)"
  | (unsub_drop) c s where "t = Conn c" "p = Unsubscribing (Unsub_drop s)" "r' = remove_if_empty r s"
      "p' = Unsubscribing (Unsub_note s)"
  | (forget_gone) c s where "t = Conn c" "p = Unsubscribing (Unsub_note s)" "conn_streams r c = None" "r' = r" "p' = Ready"
  | (forget) c s ss where "t = Conn c" "p = Unsubscribing (Unsub_note s)" "conn_streams r c = Some ss" "p' = Ready"
      "r' = r\<lparr>conn_streams := (conn_streams r)(c \<mapsto> filter (\<lambda>x. x \<noteq> s) ss)\<rparr>"
  | (fan_skip) i s where "t = Consumer i" "p = Fanning (Fan_guard s)" "streams r s = None" "r' = r" "p' = Ready"
  | (fan_guard) i s l where "t = Consumer i" "p = Fanning (Fan_guard s)" "streams r s = Some l" "r' = r"
      "p' = Fanning (Fan_each s l [])"
  | (fan_end) i s ev where "t = Consumer i" "p = Fanning (Fan_each s [] ev)" "r' = r" "p' = returned t ev"
  | (fan_each) i s c rest ev where "t = Consumer i" "p = Fanning (Fan_each s (c # rest) ev)" "r' = r"
      "p' = Fanning (Fan_each s rest (if connections r c \<noteq> None \<and> \<not> sent then ev @ [c] else ev))"
proof (cases p)
  case (Registering q)
  with assms obtain c where c: "t = Conn c" by (cases t) auto
  have "(r', p') = resume Registering Ready (register_step c r q)" using assms Registering c by simp
  then show ?thesis by (rule register_stepE) (rule that(1-3); simp add: Registering c; fail)+
next
  case (Deregistering q c todo)
  then have "(r', p') = resume (\<lambda>p. Deregistering p c todo) (returned t todo) (deregister_step c r q)" using assms by simp
  then show ?thesis by (rule deregister_stepE) (rule that(4-9); simp add: Deregistering; fail)+
next
  case (Subscribing q)
  with assms obtain c where c: "t = Conn c" by (cases t) auto
  have "(r', p') = resume Subscribing Ready (subscribe_step c r q)" using assms Subscribing c by simp
  then show ?thesis by (rule subscribe_stepE) (rule that(10-14); simp add: Subscribing c; fail)+
next
  case (Unsubscribing q)
  with assms obtain c where c: "t = Conn c" by (cases t) auto
  have "(r', p') = resume Unsubscribing Ready (unsubscribe_step c r q)" using assms Unsubscribing c by simp
  then show ?thesis by (rule unsubscribe_stepE) (rule that(15-18); simp add: Unsubscribing c; fail)+
next
  case (Fanning q)
  with assms obtain i where i: "t = Consumer i" by (cases t) auto
  have eq: "r' = r" "p' = (case fanout_step sent r q of Inl q' \<Rightarrow> Fanning q' | Inr ev \<Rightarrow> returned (Consumer i) ev)" using assms Fanning i by auto
  from eq(2) show ?thesis by (rule fanout_stepE) (rule that(19-22); simp add: Fanning i eq(1); fail)+
next
  case Unborn
  with assms show ?thesis by (cases t) simp_all
next
  case Ready
  with assms show ?thesis by (cases t) simp_all
next
  case Done
  with assms show ?thesis by (cases t) simp_all
qed

section \<open>The invariant\<close>

definition inv_typed :: "pcs \<Rightarrow> bool" where
  "inv_typed ps \<longleftrightarrow> (\<forall>t. typed t (ps t))"

definition inv_targets :: "pcs \<Rightarrow> bool" where
  "inv_targets ps \<longleftrightarrow> (\<forall>t. \<forall>c \<in> targets (ps t). registered (ps (Conn c)))"

text \<open>The two maps keyed by connection differ only while a call is between its operations on them.\<close>

definition inv_maps :: "registry \<Rightarrow> pcs \<Rightarrow> bool" where
  "inv_maps r ps \<longleftrightarrow>
     (\<forall>c. conn_streams r c \<noteq> None \<longrightarrow> connections r c \<noteq> None \<and> registered (ps (Conn c))) \<and>
     (\<forall>t. \<forall>c \<in> taken (ps t). conn_streams r c = None) \<and>
     (\<forall>c. connections r c \<noteq> None \<longrightarrow>
        conn_streams r c \<noteq> None \<or> ps (Conn c) = Registering Reg_streams \<or> (\<exists>t. c \<in> taken (ps t))) \<and>
     (\<forall>c. connections r c \<noteq> None \<longrightarrow>
        ps (Conn c) \<noteq> Unborn \<and> (\<forall>e. ps (Conn c) \<noteq> Registering (Reg_conn e)) \<and> \<not> ended (ps (Conn c))) \<and>
     (\<forall>c. ps (Conn c) = Registering Reg_streams \<longrightarrow> connections r c \<noteq> None)"

text \<open>The two lists of a subscription agree up to the calls in progress, and a held guard protects what it should.\<close>

definition inv_subs :: "registry \<Rightarrow> pcs \<Rightarrow> bool" where
  "inv_subs r ps \<longleftrightarrow>
     (\<forall>c s. c \<in> set (subs_of r s) \<longrightarrow>
        s \<in> set (streams_of r c) \<or> s \<in> noting (ps (Conn c)) \<or> (\<exists>t. (c, s) \<in> pending_removals (ps t))) \<and>
     (\<forall>c s. s \<in> set (streams_of r c) \<longrightarrow> c \<in> set (subs_of r s) \<or> s \<in> forgetting (ps (Conn c))) \<and>
     (\<forall>c s. s \<in> noting (ps (Conn c)) \<longrightarrow> c \<in> set (subs_of r s)) \<and>
     (\<forall>c s. s \<in> pushing (ps (Conn c)) \<longrightarrow> conn_streams r c \<noteq> None \<and> s \<notin> set (streams_of r c)) \<and>
     (\<forall>c s. s \<in> forgetting (ps (Conn c)) \<longrightarrow> c \<notin> set (subs_of r s)) \<and>
     (\<forall>s. distinct (subs_of r s)) \<and> (\<forall>c. distinct (streams_of r c))"

definition inv_empty :: "registry \<Rightarrow> pcs \<Rightarrow> bool" where
  "inv_empty r ps \<longleftrightarrow> (\<forall>s. streams r s = Some [] \<longrightarrow> (\<exists>t. s \<in> pending_drops (ps t)))"

text \<open>The read guard of the fan-out keeps the subscriber list: what is left to visit is a suffix of it.\<close>

definition inv_fan :: "registry \<Rightarrow> pcs \<Rightarrow> bool" where
  "inv_fan r ps \<longleftrightarrow>
     (\<forall>t s rest ev. ps t = Fanning (Fan_each s rest ev) \<longrightarrow> (\<exists>visited. streams r s = Some (visited @ rest)))"

definition inv_count :: "registry \<Rightarrow> pcs \<Rightarrow> bool" where
  "inv_count r ps \<longleftrightarrow>
     finite (dom (connections r)) \<and> finite {t. counting_up (ps t)} \<and> finite {t. counting_down (ps t)} \<and>
     active r + of_nat (card {t. counting_up (ps t)}) =
       of_nat (card (dom (connections r))) + of_nat (card {t. counting_down (ps t)})"

definition conc_inv :: "registry \<Rightarrow> pcs \<Rightarrow> bool" where
  "conc_inv r ps \<longleftrightarrow> inv_typed ps \<and> inv_targets ps \<and> inv_maps r ps \<and> inv_subs r ps \<and> inv_empty r ps \<and>
     inv_fan r ps \<and> inv_count r ps"

lemma typed_Deregistering [simp]:
  "typed t (Deregistering q c todo) \<longleftrightarrow> (case t of Conn c' \<Rightarrow> c = c' \<and> todo = [] | Consumer _ \<Rightarrow> True)"
  by (cases t) auto

lemma typed_returned: "typed t (Deregistering q c todo) \<Longrightarrow> typed t (returned t todo)"
  by (cases t; cases todo) auto

lemma typed_returned_Consumer [simp]: "typed (Consumer i) (returned (Consumer i) ev)"
  by (cases ev) auto

lemma targets_returned [simp]: "targets (returned t todo) = set todo"
  by (cases t; cases todo) auto

lemma returned_views [simp]:
  "taken (returned t todo) = {}" "pending_removals (returned t todo) = {}" "pending_drops (returned t todo) = {}"
  "pushing (returned t todo) = {}" "noting (returned t todo) = {}" "forgetting (returned t todo) = {}"
  "counting_up (returned t todo) = False" "counting_down (returned t todo) = False" "registered (returned t todo)"
  by (cases t; cases todo; simp)+

lemma returned_not [simp]:
  "returned t todo \<noteq> Fanning q" "Fanning q \<noteq> returned t todo" "returned t todo \<noteq> Registering q'"
  "returned t todo \<noteq> Unborn"
  by (cases t; cases todo; simp)+

lemma dereg_next_views [simp]:
  "taken (Deregistering (dereg_next ss) c todo) = {c}"
  "pending_removals (Deregistering (dereg_next ss) c todo) = {c} \<times> set ss"
  "pending_drops (Deregistering (dereg_next ss) c todo) = {}"
  "\<not> counting_down (Deregistering (dereg_next ss) c todo)"
  "\<not> ended (Deregistering (dereg_next ss) c todo)"
  by (cases ss; simp)+

lemma taken_targets: "taken p \<subseteq> targets p"
  by (cases p rule: taken.cases) auto

lemma pending_removals_taken: "(c, s) \<in> pending_removals p \<Longrightarrow> c \<in> taken p"
  by (cases p rule: pending_removals.cases) auto

lemma noting_pushing: "noting p \<subseteq> pushing p"
  by (cases p rule: noting.cases) auto

lemma pushing_registered: "s \<in> pushing p \<Longrightarrow> registered p"
  by (cases p rule: pushing.cases) auto

lemma typed_step: "task_step sent t r p = Some (r', p') \<Longrightarrow> typed t p \<Longrightarrow> typed t p'"
  by (erule task_stepE) (auto split: task.splits dest: typed_returned)

lemma inv_typed_step: "task_step sent t r (ps t) = Some (r', p) \<Longrightarrow> inv_typed ps \<Longrightarrow> inv_typed (ps(t := p))"
  unfolding inv_typed_def using typed_step by simp

lemma subscriber_registered:
  assumes "inv_targets ps" "inv_maps r ps" "inv_subs r ps" "c \<in> set (subs_of r s)"
  shows "registered (ps (Conn c))"
proof -
  from assms(3,4) consider "s \<in> set (streams_of r c)" | "s \<in> noting (ps (Conn c))"
    | t where "(c, s) \<in> pending_removals (ps t)"
    unfolding inv_subs_def by blast
  then show ?thesis
  proof cases
    case 1
    then have "conn_streams r c \<noteq> None" by (cases "conn_streams r c") (simp_all add: streams_of_def)
    with assms(2) show ?thesis unfolding inv_maps_def by blast
  next
    case 2
    then show ?thesis using noting_pushing pushing_registered by blast
  next
    case (3 t)
    then have "c \<in> targets (ps t)" using pending_removals_taken taken_targets by blast
    with assms(1) show ?thesis unfolding inv_targets_def by blast
  qed
qed

lemma registered_step:
  "task_step sent t r (ps t) = Some (r', p) \<Longrightarrow> registered (ps t') \<Longrightarrow> registered ((ps(t := p)) t')"
  by (erule task_stepE) auto

lemma targets_step:
  assumes "task_step sent t r p = Some (r', p')"
  shows "targets p' \<subseteq> targets p \<union> {c. \<exists>s rest ev. p = Fanning (Fan_each s (c # rest) ev)}"
  using assms by (rule task_stepE) auto

lemma inv_targets_step:
  assumes step: "task_step sent t r (ps t) = Some (r', p)" and inv: "inv_targets ps"
    and fan: "inv_fan r ps" and maps: "inv_maps r ps" and subs: "inv_subs r ps"
  shows "inv_targets (ps(t := p))"
proof -
  have "registered (ps (Conn c))" if c: "c \<in> targets p" for c
  proof (cases "c \<in> targets (ps t)")
    case True
    with inv show ?thesis by (auto simp: inv_targets_def)
  next
    case False
    with targets_step [OF step] c obtain s rest ev where "ps t = Fanning (Fan_each s (c # rest) ev)" by blast
    with fan obtain v where "streams r s = Some (v @ c # rest)" unfolding inv_fan_def by blast
    then have "c \<in> set (subs_of r s)" by (simp add: subs_of_def)
    with inv maps subs show ?thesis by (rule subscriber_registered)
  qed
  moreover have "registered (ps (Conn c))" if "c \<in> targets (ps t')" for c t'
    using inv that by (auto simp: inv_targets_def)
  ultimately have "registered (ps (Conn c))" if "c \<in> targets ((ps(t := p)) t')" for c t'
    using that by (cases "t' = t") auto
  with registered_step [of sent t r ps r' p, OF step] show ?thesis unfolding inv_targets_def by blast
qed

lemma streams_empty_step:
  assumes "task_step sent t r p = Some (r', p')" "streams r' s = Some []" "s \<notin> pending_drops p'"
  shows "streams r s = Some [] \<and> s \<notin> pending_drops p"
  using assms(1)
proof (rule task_stepE)
  fix c s' ss todo
  assume a: "p = Deregistering (Dereg_retain s' ss) c todo" "r' = snd (retain_subscriber r s' c)"
    "p' = Deregistering (if fst (retain_subscriber r s' c) then Dereg_drop s' ss else dereg_next ss) c todo"
  with assms(2,3) retain_empty [of r s' c s] show ?thesis by (auto split: if_splits)
next
  fix c s'
  assume a: "p = Unsubscribing (Unsub_retain s')" "r' = snd (retain_subscriber r s' c)"
    "p' = Unsubscribing (if fst (retain_subscriber r s' c) then Unsub_drop s' else Unsub_note s')"
  with assms(2,3) retain_empty [of r s' c s] show ?thesis by (auto split: if_splits)
qed (use assms(2,3) in \<open>auto simp: remove_if_empty_streams split: if_splits\<close>)

lemma inv_empty_step:
  assumes step: "task_step sent t r (ps t) = Some (r', p)" and inv: "inv_empty r ps"
  shows "inv_empty r' (ps(t := p))"
  unfolding inv_empty_def
proof (intro allI impI)
  fix s
  assume e: "streams r' s = Some []"
  show "\<exists>t'. s \<in> pending_drops ((ps(t := p)) t')"
  proof (cases "s \<in> pending_drops p")
    case True
    then show ?thesis by (intro exI [of _ t]) simp
  next
    case False
    with streams_empty_step [OF step e] have "streams r s = Some []" "s \<notin> pending_drops (ps t)" by simp_all
    with inv obtain t' where "s \<in> pending_drops (ps t')" "t' \<noteq> t" unfolding inv_empty_def by metis
    then show ?thesis by (intro exI [of _ t']) simp
  qed
qed

lemma streams_step:
  "task_step sent t r p = Some (r', p') \<Longrightarrow> needs_stream p \<noteq> Some s \<Longrightarrow> streams r' s = streams r s"
  by (erule task_stepE) (auto simp: retain_subscriber_def remove_if_empty_def Let_def split: option.splits)

lemma inv_fan_step:
  assumes step: "task_step sent t r (ps t) = Some (r', p)" and may: "may_run cshard sshard ps t"
    and inv: "inv_fan r ps"
  shows "inv_fan r' (ps(t := p))"
proof -
  have keep: "streams r' s = streams r s" if "ps t' = Fanning (Fan_each s rest ev)" for t' s rest ev
  proof (rule streams_step [OF step])
    show "needs_stream (ps t) \<noteq> Some s"
      using may that unfolding may_run_def by (metis reads_stream.simps(1))
  qed
  have own: "\<exists>visited. streams r' s = Some (visited @ rest)" if "p = Fanning (Fan_each s rest ev)" for s rest ev
    using step
  proof (rule task_stepE)
    fix i s' c rest' ev'
    assume a: "ps t = Fanning (Fan_each s' (c # rest') ev')" "r' = r"
      "p = Fanning (Fan_each s' rest' (if connections r c \<noteq> None \<and> \<not> sent then ev' @ [c] else ev'))"
    with inv obtain v where "streams r s' = Some (v @ c # rest')" unfolding inv_fan_def by blast
    with a that show ?thesis by (intro exI [of _ "v @ [c]"]) simp
  qed (use that in auto)
  show ?thesis
    unfolding inv_fan_def
  proof (intro allI impI)
    fix t' s rest ev
    assume a: "(ps(t := p)) t' = Fanning (Fan_each s rest ev)"
    show "\<exists>visited. streams r' s = Some (visited @ rest)"
    proof (cases "t' = t")
      case True
      with a own show ?thesis by simp
    next
      case False
      with a have "ps t' = Fanning (Fan_each s rest ev)" by simp
      with keep inv show ?thesis unfolding inv_fan_def by metis
    qed
  qed
qed

text \<open>Which step can make or unmake an entry.\<close>

lemma conn_streams_gone:
  "task_step sent t r p = Some (r', p') \<Longrightarrow> conn_streams r c \<noteq> None \<Longrightarrow> conn_streams r' c = None \<Longrightarrow> c \<in> taken p'"
  by (erule task_stepE) (auto split: if_splits)

lemma conn_streams_new:
  "task_step sent t r p = Some (r', p') \<Longrightarrow> conn_streams r c = None \<Longrightarrow> conn_streams r' c \<noteq> None \<Longrightarrow>
     t = Conn c \<and> p = Registering Reg_streams \<and> p' = Registering Reg_count"
  by (erule task_stepE) (auto split: if_splits)

lemma connections_new:
  "task_step sent t r p = Some (r', p') \<Longrightarrow> connections r c = None \<Longrightarrow> connections r' c \<noteq> None \<Longrightarrow>
     t = Conn c \<and> (\<exists>e. p = Registering (Reg_conn e)) \<and> p' = Registering Reg_streams"
  by (erule task_stepE) (auto split: if_splits)

lemma connections_gone:
  "task_step sent t r p = Some (r', p') \<Longrightarrow> connections r c \<noteq> None \<Longrightarrow> connections r' c = None \<Longrightarrow> c \<in> taken p"
  by (erule task_stepE) (auto split: if_splits)

lemma taken_new:
  "task_step sent t r p = Some (r', p') \<Longrightarrow> c \<in> taken p' \<Longrightarrow>
     c \<in> taken p \<or> conn_streams r' c = None \<and> c \<in> targets p"
  by (erule task_stepE) (auto split: if_splits)

lemma taken_old:
  "task_step sent t r p = Some (r', p') \<Longrightarrow> c \<in> taken p \<Longrightarrow> c \<in> taken p' \<or> connections r' c = None"
  by (erule task_stepE) (auto split: if_splits)

lemma ended_new:
  assumes "task_step sent (Conn c) r p = Some (r', p')" "typed (Conn c) p" "ended p'"
  shows "ended p \<and> connections r' c = connections r c \<or> connections r' c = None"
  using assms(1) by (rule task_stepE) (use assms(2,3) in \<open>auto split: if_splits\<close>)

lemma register_points_step:
  "task_step sent t r p = Some (r', p') \<Longrightarrow> p' \<noteq> Unborn \<and> p' \<noteq> Registering (Reg_conn e)"
  "task_step sent t r p = Some (r', p') \<Longrightarrow> p' = Registering Reg_streams \<Longrightarrow> \<exists>e. p = Registering (Reg_conn e)"
  by (erule task_stepE; simp)+

lemma inv_mapsD:
  assumes "inv_maps r ps"
  shows "conn_streams r c \<noteq> None \<Longrightarrow> connections r c \<noteq> None"
    "conn_streams r c \<noteq> None \<Longrightarrow> registered (ps (Conn c))"
    "c \<in> taken (ps t) \<Longrightarrow> conn_streams r c = None"
    "connections r c \<noteq> None \<Longrightarrow> conn_streams r c = None \<Longrightarrow> ps (Conn c) \<noteq> Registering Reg_streams \<Longrightarrow> \<exists>t. c \<in> taken (ps t)"
    "connections r c \<noteq> None \<Longrightarrow> ps (Conn c) \<noteq> Unborn \<and> ps (Conn c) \<noteq> Registering (Reg_conn e) \<and> \<not> ended (ps (Conn c))"
    "ps (Conn c) = Registering Reg_streams \<Longrightarrow> connections r c \<noteq> None"
  using assms unfolding inv_maps_def by blast+

lemma taken_registered: "inv_targets ps \<Longrightarrow> c \<in> taken (ps t) \<Longrightarrow> registered (ps (Conn c))"
  using taken_targets unfolding inv_targets_def by blast

lemma untaken_kept:
  "task_step sent t r (ps t) = Some (r', p) \<Longrightarrow> connections r c \<noteq> None \<Longrightarrow> (\<And>t. c \<notin> taken (ps t)) \<Longrightarrow> connections r' c \<noteq> None"
  using connections_gone by blast

lemma step_streams_registered:
  assumes step: "task_step sent t r (ps t) = Some (r', p)" and inv: "inv_maps r ps"
    and targets: "inv_targets ps" and c: "conn_streams r' c \<noteq> None"
  shows "connections r' c \<noteq> None \<and> registered ((ps(t := p)) (Conn c))"
proof (cases "conn_streams r c = None")
  case True
  from conn_streams_new [OF step True c] have t: "t = Conn c" "ps t = Registering Reg_streams" "p = Registering Reg_count"
    by blast+
  with inv_mapsD(6) [OF inv] taken_registered [OF targets] have "connections r c \<noteq> None" "\<And>t. c \<notin> taken (ps t)" by fastforce+
  with untaken_kept [of sent t r ps, OF step] t show ?thesis by simp
next
  case False
  then have "\<And>t. c \<notin> taken (ps t)" using inv_mapsD(3) [OF inv] by metis
  with False show ?thesis using untaken_kept [of sent t r ps, OF step] inv_mapsD(1,2) [OF inv] registered_step [of sent t r ps r' p, OF step] by blast
qed

lemma step_taken_unlisted:
  assumes step: "task_step sent t r (ps t) = Some (r', p)" and inv: "inv_maps r ps"
    and targets: "inv_targets ps" and c: "c \<in> taken ((ps(t := p)) t')"
  shows "conn_streams r' c = None"
proof -
  have "conn_streams r c = None \<and> registered (ps (Conn c)) \<or> conn_streams r' c = None"
    using c taken_new [OF step, of c] inv_mapsD(3) [OF inv] taken_registered [OF targets] by (cases "t' = t") auto
  then show ?thesis using conn_streams_new [OF step, of c] by fastforce
qed

lemma step_connection_listed:
  assumes step: "task_step sent t r (ps t) = Some (r', p)" and inv: "inv_maps r ps"
    and c: "connections r' c \<noteq> None"
  shows "conn_streams r' c \<noteq> None \<or> (ps(t := p)) (Conn c) = Registering Reg_streams \<or> (\<exists>t'. c \<in> taken ((ps(t := p)) t'))"
proof -
  consider "connections r c = None" | "conn_streams r c \<noteq> None" | "ps (Conn c) = Registering Reg_streams"
    | t' where "c \<in> taken (ps t')"
    using inv_mapsD(4) [OF inv] by blast
  then show ?thesis
  proof cases
    case 1
    then show ?thesis using connections_new [OF step 1 c] by simp
  next
    case 2
    then show ?thesis using conn_streams_gone [OF step 2] by (metis fun_upd_same)
  next
    case 3
    then show ?thesis using step by (cases "t = Conn c") (auto simp: resume_def)
  next
    case 4
    then show ?thesis using taken_old [OF step, of c] c by (metis fun_upd_apply)
  qed
qed

lemma step_connection_live:
  assumes step: "task_step sent t r (ps t) = Some (r', p)" and inv: "inv_maps r ps"
    and typed: "inv_typed ps" and c: "connections r' c \<noteq> None"
  shows "(ps(t := p)) (Conn c) \<noteq> Unborn \<and> (ps(t := p)) (Conn c) \<noteq> Registering (Reg_conn e) \<and> \<not> ended ((ps(t := p)) (Conn c))"
proof (cases "t = Conn c")
  case True
  then have "typed (Conn c) (ps t)" using typed by (simp add: inv_typed_def)
  with ended_new [of sent c r "ps t" r' p] step True c inv_mapsD(5) [OF inv] have "\<not> ended p" by metis
  with register_points_step(1) [OF step] True show ?thesis by simp
next
  case False
  with connections_new [OF step _ c] inv_mapsD(5) [OF inv] show ?thesis by (metis fun_upd_apply)
qed

lemma step_registering_connected:
  assumes step: "task_step sent t r (ps t) = Some (r', p)" and inv: "inv_maps r ps"
    and targets: "inv_targets ps" and c: "(ps(t := p)) (Conn c) = Registering Reg_streams"
  shows "connections r' c \<noteq> None"
proof (cases "t = Conn c")
  case True
  with c register_points_step(2) [OF step] obtain e where "ps t = Registering (Reg_conn e)" by auto
  with step True show ?thesis by (auto simp: resume_def)
next
  case False
  with c have "ps (Conn c) = Registering Reg_streams" by simp
  with inv_mapsD(6) [OF inv] taken_registered [OF targets] untaken_kept [of sent t r ps, OF step] show ?thesis by fastforce
qed

lemma inv_maps_step:
  assumes step: "task_step sent t r (ps t) = Some (r', p)" and inv: "inv_maps r ps"
    and typed: "inv_typed ps" and targets: "inv_targets ps"
  shows "inv_maps r' (ps(t := p))"
  unfolding inv_maps_def
proof (intro conjI allI impI ballI)
  show "connections r' c \<noteq> None" "registered ((ps(t := p)) (Conn c))" if "conn_streams r' c \<noteq> None" for c
    using step_streams_registered [of sent t r ps r' p c] step inv targets that by simp_all
qed (use step_taken_unlisted [of sent t r ps r' p] step_connection_listed [of sent t r ps r' p] step_connection_live [of sent t r ps r' p]
  step_registering_connected [of sent t r ps r' p] step inv typed targets in blast)+

text \<open>Which step can change the two views of a subscription.\<close>

lemma subs_new:
  "task_step sent t r p = Some (r', p') \<Longrightarrow> c \<in> set (subs_of r' s) \<Longrightarrow>
     c \<in> set (subs_of r s) \<or> t = Conn c \<and> s \<in> noting p'"
  by (erule task_stepE) (auto split: if_splits)

lemma subs_lost:
  "task_step sent t r p = Some (r', p') \<Longrightarrow> c \<in> set (subs_of r s) \<Longrightarrow> c \<notin> set (subs_of r' s) \<Longrightarrow>
     (c, s) \<in> pending_removals p \<or> t = Conn c \<and> s \<in> forgetting p'"
  by (erule task_stepE) (auto split: if_splits)

lemma streams_new:
  "task_step sent t r p = Some (r', p') \<Longrightarrow> s \<in> set (streams_of r' c) \<Longrightarrow>
     s \<in> set (streams_of r c) \<or> t = Conn c \<and> s \<in> noting p"
  by (erule task_stepE) (auto simp: streams_of_def split: if_splits)

lemma streams_lost:
  "task_step sent t r p = Some (r', p') \<Longrightarrow> s \<in> set (streams_of r c) \<Longrightarrow> s \<notin> set (streams_of r' c) \<Longrightarrow>
     (c, s) \<in> pending_removals p' \<or> t = Conn c \<and> (s \<in> forgetting p \<or> p = Registering Reg_streams)"
  by (erule task_stepE) (auto simp: streams_of_def split: if_splits option.splits)

lemma noting_lost:
  "task_step sent (Conn c) r p = Some (r', p') \<Longrightarrow> s \<in> noting p \<Longrightarrow>
     s \<in> noting p' \<or> s \<in> set (streams_of r' c) \<or> conn_streams r c = None"
  by (erule task_stepE) (auto split: if_splits)

lemma noting_new:
  "task_step sent (Conn c) r p = Some (r', p') \<Longrightarrow> s \<in> noting p' \<Longrightarrow> c \<in> set (subs_of r' s)"
  by (erule task_stepE) (auto split: if_splits)

lemma pushing_new:
  "task_step sent (Conn c) r p = Some (r', p') \<Longrightarrow> s \<in> pushing p' \<Longrightarrow>
     conn_streams r' c = conn_streams r c \<and> (s \<in> pushing p \<or> conn_streams r c \<noteq> None \<and> s \<notin> set (streams_of r c))"
  by (erule task_stepE) (auto simp: streams_of_def split: if_splits)

lemma pending_lost:
  "task_step sent t r p = Some (r', p') \<Longrightarrow> (c, s) \<in> pending_removals p \<Longrightarrow>
     (c, s) \<in> pending_removals p' \<or> c \<notin> set (subs_of r' s)"
  by (erule task_stepE) (auto split: if_splits)

lemma forgetting_lost:
  "task_step sent (Conn c) r p = Some (r', p') \<Longrightarrow> s \<in> forgetting p \<Longrightarrow>
     s \<in> forgetting p' \<or> s \<notin> set (streams_of r' c)"
  by (erule task_stepE) (auto simp: streams_of_def split: if_splits)

lemma forgetting_new:
  "task_step sent (Conn c) r p = Some (r', p') \<Longrightarrow> s \<in> forgetting p' \<Longrightarrow>
     s \<in> forgetting p \<and> subs_of r' = subs_of r \<or> c \<notin> set (subs_of r' s)"
  by (erule task_stepE) (auto split: if_splits)

lemma conn_streams_other:
  "task_step sent t r p = Some (r', p') \<Longrightarrow> t \<noteq> Conn c \<Longrightarrow> needs_conn_streams t p \<noteq> Some c \<Longrightarrow>
     conn_streams r' c = conn_streams r c"
  by (erule task_stepE) (auto split: if_splits)

lemma distinct_subs_step:
  "task_step sent t r p = Some (r', p') \<Longrightarrow> distinct (subs_of r s) \<Longrightarrow>
     (\<And>c. t = Conn c \<Longrightarrow> s \<in> pushing p \<Longrightarrow> s \<notin> noting p \<Longrightarrow> c \<notin> set (subs_of r s)) \<Longrightarrow> distinct (subs_of r' s)"
  by (erule task_stepE) (auto split: if_splits)

lemma distinct_streams_step:
  "task_step sent t r p = Some (r', p') \<Longrightarrow> distinct (streams_of r c) \<Longrightarrow>
     (\<And>s. t = Conn c \<Longrightarrow> s \<in> noting p \<Longrightarrow> s \<notin> set (streams_of r c)) \<Longrightarrow> distinct (streams_of r' c)"
  by (erule task_stepE) (auto simp: streams_of_def split: if_splits)

lemma inv_subsD:
  assumes "inv_subs r ps"
  shows "c \<in> set (subs_of r s) \<Longrightarrow> s \<notin> set (streams_of r c) \<Longrightarrow> s \<notin> noting (ps (Conn c)) \<Longrightarrow>
      \<exists>t. (c, s) \<in> pending_removals (ps t)"
    "s \<in> set (streams_of r c) \<Longrightarrow> s \<notin> forgetting (ps (Conn c)) \<Longrightarrow> c \<in> set (subs_of r s)"
    "s \<in> noting (ps (Conn c)) \<Longrightarrow> c \<in> set (subs_of r s)"
    "s \<in> pushing (ps (Conn c)) \<Longrightarrow> conn_streams r c \<noteq> None"
    "s \<in> pushing (ps (Conn c)) \<Longrightarrow> s \<notin> set (streams_of r c)"
    "s \<in> forgetting (ps (Conn c)) \<Longrightarrow> c \<notin> set (subs_of r s)"
    "distinct (subs_of r s)" "distinct (streams_of r c)"
  using assms unfolding inv_subs_def by blast+

lemma removed_views:
  assumes "inv_subs r ps" and "inv_maps r ps" and "(c, s') \<in> pending_removals (ps t)"
  shows "streams_of r c = []" and "s \<notin> pushing (ps (Conn c))"
proof -
  have none: "conn_streams r c = None" by (rule inv_mapsD(3) [OF assms(2) pending_removals_taken [OF assms(3)]])
  then show "streams_of r c = []" by (simp add: streams_of_def)
  show "s \<notin> pushing (ps (Conn c))" using none inv_subsD(4) [OF assms(1)] by metis
qed

lemma step_subscriber_known:
  assumes step: "task_step sent t r (ps t) = Some (r', p)" and inv: "inv_subs r ps"
    and maps: "inv_maps r ps" and c: "c \<in> set (subs_of r' s)"
  shows "s \<in> set (streams_of r' c) \<or> s \<in> noting ((ps(t := p)) (Conn c)) \<or> (\<exists>t'. (c, s) \<in> pending_removals ((ps(t := p)) t'))"
proof -
  note D = inv_subsD [OF inv] and M = inv_mapsD [OF maps]
  consider "t = Conn c" "s \<in> noting p" | "s \<in> set (streams_of r c)" "c \<in> set (subs_of r s)"
    | "s \<in> noting (ps (Conn c))" | t' where "(c, s) \<in> pending_removals (ps t')"
    using subs_new [OF step c] D(1) by blast
  then show ?thesis
  proof cases
    case 1
    then show ?thesis by simp
  next
    case 2
    have "conn_streams r c \<noteq> None" using 2(1) by (cases "conn_streams r c") (simp_all add: streams_of_def)
    then have "registered (ps (Conn c))" by (rule M(2))
    then show ?thesis using streams_lost [OF step 2(1)] D(6) 2(2) by (metis fun_upd_same registered.simps(3))
  next
    case 3
    then have "conn_streams r c \<noteq> None" using D(4) noting_pushing by blast
    with 3 noting_lost [of sent c r "ps t" r' p s] step show ?thesis by (cases "t = Conn c") auto
  next
    case 4
    then show ?thesis using pending_lost [OF step, of c s] c by (metis fun_upd_apply)
  qed
qed

lemma step_stream_known:
  assumes step: "task_step sent t r (ps t) = Some (r', p)" and inv: "inv_subs r ps"
    and maps: "inv_maps r ps" and s: "s \<in> set (streams_of r' c)"
  shows "c \<in> set (subs_of r' s) \<or> s \<in> forgetting ((ps(t := p)) (Conn c))"
proof -
  note D = inv_subsD [OF inv]
  show ?thesis
  proof (cases "s \<in> forgetting (ps (Conn c))")
    case True
    then show ?thesis using forgetting_lost [of sent c r "ps t" r' p s] step s by (cases "t = Conn c") auto
  next
    case False
    then have "c \<in> set (subs_of r s)" using streams_new [OF step s] D(2,3) by blast
    moreover have "(c, s) \<notin> pending_removals (ps t)"
      using streams_new [OF step s] removed_views [OF inv maps] noting_pushing by fastforce
    ultimately show ?thesis using subs_lost [OF step, of c s] by auto
  qed
qed

lemma step_noting_subscribed:
  assumes step: "task_step sent t r (ps t) = Some (r', p)" and inv: "inv_subs r ps"
    and maps: "inv_maps r ps" and s: "s \<in> noting ((ps(t := p)) (Conn c))"
  shows "c \<in> set (subs_of r' s)"
proof -
  note D = inv_subsD [OF inv]
  show ?thesis
  proof (cases "t = Conn c")
    case True
    then show ?thesis using noting_new [of sent c r "ps t" r' p s] step s by simp
  next
    case False
    with s have n: "s \<in> noting (ps (Conn c))" by simp
    then have "(c, s) \<notin> pending_removals (ps t)" using removed_views(2) [OF inv maps] noting_pushing by blast
    with subs_lost [OF step, of c s] False D(3) [OF n] show ?thesis by blast
  qed
qed

lemma step_pushing_new:
  assumes step: "task_step sent t r (ps t) = Some (r', p)" and inv: "inv_subs r ps"
    and may: "may_run cshard sshard ps t" and s: "s \<in> pushing ((ps(t := p)) (Conn c))"
  shows "conn_streams r' c \<noteq> None \<and> s \<notin> set (streams_of r' c)"
proof -
  note D = inv_subsD [OF inv]
  have "conn_streams r' c = conn_streams r c \<and> conn_streams r c \<noteq> None \<and> s \<notin> set (streams_of r c)"
  proof (cases "t = Conn c")
    case True
    then show ?thesis using pushing_new [of sent c r "ps t" r' p s] step s D(4,5) by auto
  next
    case False
    with s have n: "s \<in> pushing (ps (Conn c))" by simp
    then have "holds_conn_streams (Conn c) (ps (Conn c)) = Some c"
      by (cases "ps (Conn c)" rule: pushing.cases) auto
    then have "needs_conn_streams t (ps t) \<noteq> Some c" using may unfolding may_run_def by metis
    with conn_streams_other [OF step False] D(4,5) n show ?thesis by metis
  qed
  then show ?thesis by (simp add: streams_of_def)
qed

lemma step_forgetting_gone:
  assumes step: "task_step sent t r (ps t) = Some (r', p)" and inv: "inv_subs r ps"
    and s: "s \<in> forgetting ((ps(t := p)) (Conn c))"
  shows "c \<notin> set (subs_of r' s)"
proof -
  note D = inv_subsD [OF inv]
  show ?thesis
  proof (cases "t = Conn c")
    case True
    then show ?thesis using forgetting_new [of sent c r "ps t" r' p s] step s D(6) by auto
  next
    case False
    then show ?thesis using s D(6) subs_new [OF step] by fastforce
  qed
qed

lemma step_subscribers_distinct:
  assumes step: "task_step sent t r (ps t) = Some (r', p)" and inv: "inv_subs r ps" and maps: "inv_maps r ps"
  shows "distinct (subs_of r' s)"
proof (rule distinct_subs_step [OF step inv_subsD(7) [OF inv]])
  fix c
  assume t: "t = Conn c" "s \<in> pushing (ps t)" "s \<notin> noting (ps t)"
  then have "s \<notin> set (streams_of r c)" "\<nexists>t. (c, s) \<in> pending_removals (ps t)"
    using inv_subsD(5) [OF inv] removed_views(2) [OF inv maps] by blast+
  with t inv_subsD(1) [OF inv] show "c \<notin> set (subs_of r s)" by blast
qed

lemma inv_subs_step:
  assumes step: "task_step sent t r (ps t) = Some (r', p)" and may: "may_run cshard sshard ps t"
    and inv: "inv_subs r ps" and maps: "inv_maps r ps"
  shows "inv_subs r' (ps(t := p))"
proof -
  have "distinct (streams_of r' c)" for c
    using inv_subsD(5) [OF inv] noting_pushing by (intro distinct_streams_step [OF step inv_subsD(8) [OF inv]]) blast
  then show ?thesis
    using step_subscriber_known [of sent t r ps r' p, OF step inv maps] step_stream_known [of sent t r ps r' p, OF step inv maps]
      step_noting_subscribed [of sent t r ps r' p, OF step inv maps] step_pushing_new [of sent t r ps r' p, OF step inv may]
      step_forgetting_gone [of sent t r ps r' p, OF step inv] step_subscribers_distinct [OF step inv maps]
    unfolding inv_subs_def by blast
qed

lemma filter_upd:
  "{x. P ((f(t := v)) x)} = (if P v then insert t {x. P (f x)} else {x. P (f x)} - {t})"
  by auto

lemma card_insert_word: "finite A \<Longrightarrow> x \<notin> A \<Longrightarrow> (of_nat (card (insert x A)) :: u64) = of_nat (card A) + 1"
  by simp

lemma card_delete_word: "finite A \<Longrightarrow> x \<in> A \<Longrightarrow> (of_nat (card A) :: u64) = of_nat (card (A - {x})) + 1"
  using card_insert_word [of "A - {x}" x] by (simp add: insert_absorb)

lemma count_stepE:
  assumes "task_step sent t r p = Some (r', p')"
  obtains
    (same) "active r' = active r" "dom (connections r') = dom (connections r)"
      "counting_up p' = counting_up p" "counting_down p' = counting_down p"
  | (enter) c e where "t = Conn c" "p = Registering (Reg_conn e)" "active r' = active r"
      "dom (connections r') = insert c (dom (connections r))"
      "counting_up p'" "\<not> counting_up p" "\<not> counting_down p" "\<not> counting_down p'"
  | (up) "active r' = active r + 1" "dom (connections r') = dom (connections r)"
      "counting_up p" "\<not> counting_up p'" "\<not> counting_down p" "\<not> counting_down p'"
  | (leave) c where "c \<in> dom (connections r)" "active r' = active r" "dom (connections r') = dom (connections r) - {c}"
      "\<not> counting_down p" "counting_down p'" "\<not> counting_up p" "\<not> counting_up p'"
  | (down) "active r' = active r - 1" "dom (connections r') = dom (connections r)"
      "counting_down p" "\<not> counting_down p'" "\<not> counting_up p" "\<not> counting_up p'"
  using assms
proof (rule task_stepE)
  fix c e
  assume "t = Conn c" "p = Registering (Reg_conn e)" "r' = r\<lparr>connections := (connections r)(c \<mapsto> e)\<rparr>"
    "p' = Registering Reg_streams"
  then show ?thesis by (intro enter) simp_all
next
  fix c
  assume "p = Registering Reg_count" "r' = r\<lparr>active := active r + 1\<rparr>" "p' = Ready"
  then show ?thesis by (intro up) simp_all
next
  fix c e todo
  assume "p = Deregistering Dereg_conn c todo" "connections r c = Some e"
    "r' = r\<lparr>connections := (connections r)(c := None)\<rparr>" "p' = Deregistering Dereg_count c todo"
  then show ?thesis by (intro leave [of c]) auto
next
  fix c todo
  assume "p = Deregistering Dereg_count c todo" "r' = r\<lparr>active := active r - 1\<rparr>" "p' = returned t todo"
  then show ?thesis by (intro down) simp_all
qed (rule same; simp split: if_splits)+

lemma inv_count_step:
  assumes step: "task_step sent t r (ps t) = Some (r', p)" and inv: "inv_count r ps" and maps: "inv_maps r ps"
  shows "inv_count r' (ps(t := p))"
proof -
  let ?up = "{t. counting_up (ps t)}" and ?down = "{t. counting_down (ps t)}" and ?dom = "dom (connections r)"
  from inv have fin: "finite ?dom" "finite ?up" "finite ?down"
    and eq: "active r + of_nat (card ?up) = of_nat (card ?dom) + of_nat (card ?down)"
    by (simp_all add: inv_count_def)
  note D = filter_upd card_insert_word inv_count_def insert_absorb
  show ?thesis
    using step
  proof (cases rule: count_stepE)
    case same
    then show ?thesis using fin eq by (simp add: D insert_absorb del: fun_upd_apply)
  next
    case (enter c e)
    then have "connections r c = None" using inv_mapsD(5) [OF maps] by metis
    with enter fin eq show ?thesis by (simp add: D domIff algebra_simps del: fun_upd_apply)
  next
    case up
    then show ?thesis using fin eq card_delete_word [of ?up t] by (simp add: D algebra_simps del: fun_upd_apply)
  next
    case (leave c)
    then show ?thesis using fin eq card_delete_word [of ?dom c] by (simp add: D algebra_simps del: fun_upd_apply)
  next
    case down
    have "active r' + of_nat (card ?up) + 1 = active r + of_nat (card ?up)" by (simp add: down(1))
    also have "\<dots> = of_nat (card ?dom) + of_nat (card ?down)" by (rule eq)
    also have "\<dots> = of_nat (card ?dom) + of_nat (card (?down - {t})) + 1"
      using card_delete_word [of ?down t] fin down(3) by (simp only: add.assoc mem_Collect_eq)
    finally have "active r' + of_nat (card ?up) = of_nat (card ?dom) + of_nat (card (?down - {t}))" by simp
    with down fin show ?thesis by (simp add: D del: fun_upd_apply card_Diff_insert)
  qed
qed

text \<open>A step of a call keeps the whole invariant; so does the start of a call, which changes no map.\<close>

lemma conc_inv_task_step:
  assumes "task_step sent t r (ps t) = Some (r', p)" "may_run cshard sshard ps t" "conc_inv r ps"
  shows "conc_inv r' (ps(t := p))"
  using assms unfolding conc_inv_def
  by (auto intro: inv_typed_step inv_targets_step inv_maps_step inv_subs_step inv_empty_step inv_fan_step inv_count_step)

text \<open>The views of a program point that the invariant reads.\<close>

definition same_views :: "pc \<Rightarrow> pc \<Rightarrow> bool" where
  "same_views p q \<longleftrightarrow> taken p = taken q \<and> pending_removals p = pending_removals q \<and> pending_drops p = pending_drops q \<and>
     pushing p = pushing q \<and> noting p = noting q \<and> forgetting p = forgetting q \<and> ended p = ended q \<and>
     counting_up p = counting_up q \<and> counting_down p = counting_down q \<and> (registered p \<longrightarrow> registered q) \<and>
     (q = Unborn \<longrightarrow> p = Unborn) \<and> (p = Registering Reg_streams) = (q = Registering Reg_streams)"

lemma conc_inv_start:
  assumes "conc_inv r ps" "same_views (ps t) p" "typed t p" "targets p \<subseteq> {c. t = Conn c \<and> registered (ps t)}"
    "\<And>s rest ev. p \<noteq> Fanning (Fan_each s rest ev)"
    "\<And>e. p = Registering (Reg_conn e) \<Longrightarrow> ps t = Unborn"
  shows "conc_inv r (ps(t := p))"
proof -
  let ?ps = "ps(t := p)"
  have v: "taken (?ps t') = taken (ps t')" "pending_removals (?ps t') = pending_removals (ps t')"
    "pending_drops (?ps t') = pending_drops (ps t')" "pushing (?ps t') = pushing (ps t')"
    "noting (?ps t') = noting (ps t')" "forgetting (?ps t') = forgetting (ps t')" "ended (?ps t') = ended (ps t')"
    "counting_up (?ps t') = counting_up (ps t')" "counting_down (?ps t') = counting_down (ps t')"
    "(?ps t' = Registering Reg_streams) = (ps t' = Registering Reg_streams)" for t'
    using assms(2) by (auto simp: same_views_def)
  have reg: "registered (?ps t')" if "registered (ps t')" for t'
    using that assms(2) by (auto simp: same_views_def)
  have inv: "inv_typed ps" "inv_targets ps" "inv_maps r ps" "inv_subs r ps" "inv_empty r ps" "inv_fan r ps" "inv_count r ps"
    using assms(1) by (simp_all add: conc_inv_def)
  have "inv_typed ?ps" using inv(1) assms(3) by (simp add: inv_typed_def)
  moreover have "inv_targets ?ps"
    unfolding inv_targets_def
  proof (intro allI ballI)
    fix t' c
    assume c: "c \<in> targets (?ps t')"
    show "registered (?ps (Conn c))"
    proof (cases "t' = t")
      case True
      with c assms(4) have "t = Conn c" "registered (ps t)" by auto
      then show ?thesis using reg [of t] by simp
    next
      case False
      with c have "c \<in> targets (ps t')" by simp
      with inv(2) reg show ?thesis unfolding inv_targets_def by blast
    qed
  qed
  moreover have "inv_maps r ?ps"
  proof -
    have fresh: "?ps (Conn c) \<noteq> Unborn \<and> (\<forall>e. ?ps (Conn c) \<noteq> Registering (Reg_conn e))" if "connections r c \<noteq> None" for c
      using inv_mapsD(5) [OF inv(3) that] assms(2,6) by (cases "t = Conn c") (auto simp: same_views_def)
    show ?thesis using inv(3) reg fresh unfolding inv_maps_def v by blast
  qed
  moreover have "inv_subs r ?ps" using inv(4) unfolding inv_subs_def v .
  moreover have "inv_empty r ?ps" using inv(5) unfolding inv_empty_def v .
  moreover have "inv_fan r ?ps" using inv(6) assms(5) unfolding inv_fan_def by (simp add: fun_upd_def)
  moreover have "inv_count r ?ps" using inv(7) unfolding inv_count_def v .
  ultimately show ?thesis by (simp add: conc_inv_def)
qed

lemma conc_inv_next_id: "conc_inv r ps \<Longrightarrow> conc_inv (r\<lparr>next_id := n\<rparr>) ps"
  by (simp add: conc_inv_def inv_maps_def inv_subs_def inv_empty_def inv_fan_def inv_count_def)

lemma conc_inv_step:
  assumes "conc_step cshard sshard (r, ps, h) (r', ps', h')" "conc_inv r ps"
  shows "conc_inv r' ps'"
  using assms(1)
proof cases
  case (spawn e)
  then show ?thesis
    using assms(2) by (auto simp: allocate_id_def same_views_def intro!: conc_inv_next_id conc_inv_start)
next
  case (start_subscribe c s)
  then show ?thesis using assms(2) by (auto simp: same_views_def intro!: conc_inv_start)
next
  case (start_unsubscribe c s)
  then show ?thesis using assms(2) by (auto simp: same_views_def intro!: conc_inv_start)
next
  case (start_deregister c)
  then show ?thesis using assms(2) by (auto simp: same_views_def intro!: conc_inv_start)
next
  case (start_fanout i s)
  then show ?thesis using assms(2) by (auto simp: same_views_def intro!: conc_inv_start)
next
  case call
  then show ?thesis using assms(2) by cases (auto intro: conc_inv_task_step)
qed

lemma conc_inv_init: "conc_inv registry_new initial_pc"
proof -
  have views: "taken (initial_pc t) = {}" "pending_removals (initial_pc t) = {}" "pushing (initial_pc t) = {}"
    "noting (initial_pc t) = {}" "forgetting (initial_pc t) = {}" "targets (initial_pc t) = {}"
    "\<not> counting_up (initial_pc t)" "\<not> counting_down (initial_pc t)" "typed t (initial_pc t)"
    "initial_pc t \<noteq> Fanning f" "initial_pc t \<noteq> Registering q" for t f q
    by (cases t; simp)+
  have r: "streams_of registry_new c = []" "subs_of registry_new s = []" for c s
    by (simp_all add: registry_new_def streams_of_def subs_of_def)
  show ?thesis
    by (simp add: conc_inv_def inv_typed_def inv_targets_def inv_maps_def inv_subs_def inv_empty_def inv_fan_def
        inv_count_def views r) (simp add: registry_new_def)
qed

lemma conc_reach_inv: "conc_reach cshard sshard \<sigma> \<Longrightarrow> conc_inv (fst \<sigma>) (fst (snd \<sigma>))"
proof (induction rule: rtranclp_induct)
  case base
  show ?case by (simp add: conc_init_def conc_inv_init)
next
  case (step \<sigma> \<sigma>')
  then show ?case using conc_inv_step by (metis prod.collapse)
qed

section \<open>Quiescence\<close>

fun idle :: "pc \<Rightarrow> bool" where
  "idle Unborn \<longleftrightarrow> True"
| "idle Ready \<longleftrightarrow> True"
| "idle Done \<longleftrightarrow> True"
| "idle _ \<longleftrightarrow> False"

definition quiescent :: "conc_state \<Rightarrow> bool" where
  "quiescent \<sigma> \<longleftrightarrow> (\<forall>t. idle (fst (snd \<sigma>) t))"

lemma idle_views:
  assumes "idle p"
  shows "taken p = {}" "pending_removals p = {}" "pending_drops p = {}" "noting p = {}" "forgetting p = {}"
    "\<not> counting_up p" "\<not> counting_down p" "p \<noteq> Registering q"
  using assms by (cases p; simp)+

lemma quiescent_reg_inv:
  assumes inv: "conc_inv r ps" and idle: "\<And>t. idle (ps t)"
  shows "reg_inv r"
proof -
  note v = idle_views [OF idle]
  have c: "inv_maps r ps" "inv_subs r ps" "inv_empty r ps" "inv_count r ps" using inv by (simp_all add: conc_inv_def)
  have "dom (connections r) = dom (conn_streams r)"
    using c(1) unfolding inv_maps_def v by (auto simp: v)
  moreover have "finite (dom (connections r))" "active r = of_nat (card (dom (connections r)))"
    using c(4) by (simp_all add: inv_count_def v)
  moreover have "streams r s \<noteq> Some []" for s using c(3) by (simp add: inv_empty_def v)
  moreover have "c \<in> set (subs_of r s) \<longleftrightarrow> s \<in> set (streams_of r c)" "distinct (subs_of r s)" "distinct (streams_of r c)" for c s
    using c(2) by (auto simp: inv_subs_def v)
  ultimately show ?thesis by (simp add: reg_inv_def)
qed

section \<open>Linearizability\<close>

definition lin_abs :: "registry \<Rightarrow> sub_spec" where
  "lin_abs r = (dom (conn_streams r), {(c, s). s \<in> set (streams_of r c)})"

definition spec_log :: "(u64 \<times> reg_op) list \<Rightarrow> sub_spec" where
  "spec_log h = fold (\<lambda>(c, op) S. spec_apply c S op) h ({}, {})"

lemma lin_abs_step:
  assumes "task_step sent t r (ps t) = Some (r', p)" "conc_inv r ps"
  shows "lin_abs r' = (case linearizes t r (ps t) of None \<Rightarrow> lin_abs r | Some (c, op) \<Rightarrow> spec_apply c (lin_abs r) op)"
proof -
  have maps: "inv_maps r ps" using assms(2) by (simp add: conc_inv_def)
  have member: "s \<in> set (streams_of r c) \<Longrightarrow> c \<in> dom (conn_streams r)" for c s
    by (cases "conn_streams r c") (auto simp: streams_of_def)
  show ?thesis
    using assms(1)
  proof (cases rule: task_stepE)
    case (reg_streams c)
    then obtain e where e: "connections r c = Some e" using inv_mapsD(6) [OF maps, of c] by auto
    have "conn_streams r c = None" using inv_mapsD(2) [OF maps, of c] reg_streams by fastforce
    then have "streams_of r c = []" by (simp add: streams_of_def)
    then show ?thesis using reg_streams e by (auto simp: lin_abs_def split: if_splits)
  qed (auto simp: lin_abs_def streams_of_def domIff split: if_splits option.splits dest: member)
qed

text \<open>A call takes effect exactly once: at the step after which it has taken effect or is over, and before which it had not.\<close>

fun linearized :: "pc \<Rightarrow> bool" where
  "linearized (Registering Reg_count) \<longleftrightarrow> True"
| "linearized (Deregistering Dereg_take _ _) \<longleftrightarrow> False"
| "linearized (Deregistering _ _ _) \<longleftrightarrow> True"
| "linearized _ \<longleftrightarrow> False"

lemma linearized_next [simp]: "linearized (Deregistering (dereg_next ss) c todo)"
  by (cases ss) auto

lemma linearizes_once:
  assumes "task_step sent t r (ps t) = Some (r', p)" "conc_inv r ps" "\<And>q. ps t \<noteq> Fanning q"
  shows "linearizes t r (ps t) \<noteq> None \<longleftrightarrow> \<not> linearized (ps t) \<and> (linearized p \<or> idle p)"
proof -
  have maps: "inv_maps r ps" using assms(2) by (simp add: conc_inv_def)
  show ?thesis
    using assms(1)
  proof (cases rule: task_stepE)
    case (reg_streams c)
    then obtain e where "connections r c = Some e" using inv_mapsD(6) [OF maps, of c] by auto
    with reg_streams show ?thesis by simp
  qed (use assms(3) in \<open>auto simp: streams_of_def split: option.splits if_splits\<close>)
qed

section \<open>Progress\<close>

lemma typed_can_step: "typed t p \<Longrightarrow> \<not> idle p \<Longrightarrow> \<exists>r' p'. task_step sent t r p = Some (r', p')"
  by (cases t; cases p) auto

text \<open>
  Guards are taken in one order: the stream list of a connection, then the subscriber list. So among tasks that are
  in the middle of a call there is always one that no guard keeps waiting.
\<close>

lemma some_task_may_run:
  assumes "inv_typed ps" "\<not> idle (ps t)"
  shows "\<exists>t'. \<not> idle (ps t') \<and> may_run cshard sshard ps t'"
proof (cases "\<exists>t' s. reads_stream (ps t') = Some s")
  case True
  then obtain t' s where t': "reads_stream (ps t') = Some s" by blast
  then have "\<not> idle (ps t')" "needs_stream (ps t') = None" "needs_conn_streams t' (ps t') = None"
    by (cases "ps t'" rule: reads_stream.cases; cases t'; auto)+
  then show ?thesis by (intro exI [of _ t']) (simp add: may_run_def)
next
  case nr: False
  show ?thesis
  proof (cases "\<exists>t' c. holds_conn_streams t' (ps t') = Some c")
    case True
    then obtain t' c where "holds_conn_streams t' (ps t') = Some c" by blast
    then have "\<not> idle (ps t')" "needs_conn_streams t' (ps t') = None"
      by (cases "(t', ps t')" rule: holds_conn_streams.cases; auto)+
    with nr show ?thesis by (intro exI [of _ t']) (simp add: may_run_def)
  next
    case False
    with nr assms(2) show ?thesis by (intro exI [of _ t]) (simp add: may_run_def)
  qed
qed

lemma busy_steps:
  assumes "conc_inv r ps" "\<not> idle (ps t)"
  shows "\<exists>\<sigma>'. call_step cshard sshard (r, ps, h) \<sigma>'"
proof -
  have typed: "inv_typed ps" using assms(1) by (simp add: conc_inv_def)
  from some_task_may_run [OF this assms(2)] obtain t' where t': "\<not> idle (ps t')" "may_run cshard sshard ps t'" by blast
  with typed typed_can_step [of t' "ps t'" True r] obtain r' p where "task_step True t' r (ps t') = Some (r', p)"
    by (auto simp: inv_typed_def)
  from call_stepI [OF this t'(2)] show ?thesis by blast
qed

section \<open>Termination\<close>

text \<open>How much of a call is left, compared lexicographically; the lists a call loads make it unbounded in advance.\<close>

fun dereg_rank :: "dereg_pc \<Rightarrow> nat \<times> nat" where
  "dereg_rank Dereg_take = (1, 0)"
| "dereg_rank (Dereg_retain _ ss) = (0, 2 * length ss + 4)"
| "dereg_rank (Dereg_drop _ ss) = (0, 2 * length ss + 3)"
| "dereg_rank Dereg_conn = (0, 2)"
| "dereg_rank Dereg_count = (0, 1)"

fun rank :: "pc \<Rightarrow> nat \<times> nat \<times> nat \<times> nat" where
  "rank (Fanning (Fan_guard _)) = (2, 0, 0, 0)"
| "rank (Fanning (Fan_each _ rest _)) = (1, length rest, 0, 0)"
| "rank (Deregistering q _ todo) = (0, Suc (length todo), dereg_rank q)"
| "rank (Registering (Reg_conn _)) = (0, 0, 0, 3)"
| "rank (Registering Reg_streams) = (0, 0, 0, 2)"
| "rank (Registering Reg_count) = (0, 0, 0, 1)"
| "rank (Subscribing (Sub_guard _)) = (0, 0, 0, 3)"
| "rank (Subscribing (Sub_push _)) = (0, 0, 0, 2)"
| "rank (Subscribing (Sub_note _)) = (0, 0, 0, 1)"
| "rank (Unsubscribing (Unsub_retain _)) = (0, 0, 0, 3)"
| "rank (Unsubscribing (Unsub_drop _)) = (0, 0, 0, 2)"
| "rank (Unsubscribing (Unsub_note _)) = (0, 0, 0, 1)"
| "rank _ = (0, 0, 0, 0)"

abbreviation rank_less :: "((nat \<times> nat \<times> nat \<times> nat) \<times> (nat \<times> nat \<times> nat \<times> nat)) set" where
  "rank_less \<equiv> less_than <*lex*> less_than <*lex*> less_than <*lex*> less_than"

lemma rank_returned: "rank (returned t todo) = (0, length todo, if todo = [] then 0 else 1, 0)"
  by (cases t; cases todo) auto

lemma dereg_rank_next: "dereg_rank (dereg_next ss) = (0, if ss = [] then 2 else 2 * length ss + 2)"
  by (cases ss) auto

lemma rank_step: "task_step sent t r p = Some (r', p') \<Longrightarrow> (rank p', rank p) \<in> rank_less"
  by (erule task_stepE) (auto simp: rank_returned dereg_rank_next)

definition work :: "pcs \<Rightarrow> (nat \<times> nat \<times> nat \<times> nat) multiset" where
  "work ps = image_mset (\<lambda>t. rank (ps t)) (mset_set {t. \<not> idle (ps t)})"

lemma task_step_busy: "task_step sent t r p = Some (r', p') \<Longrightarrow> \<not> idle p"
  by (erule task_stepE) auto

lemma image_mset_insert:
  "finite B \<Longrightarrow> t \<notin> B \<Longrightarrow> image_mset f (mset_set (insert t B)) = image_mset f (mset_set B) + {#f t#}"
  by simp

lemma work_step:
  assumes "task_step sent t r (ps t) = Some (r', p)" "finite {t. \<not> idle (ps t)}"
  shows "(work (ps(t := p)), work ps) \<in> mult rank_less"
proof -
  let ?B = "{t. \<not> idle (ps t)} - {t}"
  let ?N = "image_mset (\<lambda>t. rank (ps t)) (mset_set ?B)"
  have N: "image_mset (\<lambda>t'. rank ((ps(t := p)) t')) (mset_set ?B) = ?N"
    using assms(2) by (intro image_mset_cong) auto
  have t: "\<not> idle (ps t)" by (rule task_step_busy [OF assms(1)])
  have B: "finite ?B" "t \<notin> ?B" using assms(2) by simp_all
  have "work ps = image_mset (\<lambda>t. rank (ps t)) (mset_set (insert t ?B))"
    unfolding work_def by (rule arg_cong [where f = "\<lambda>A. image_mset (\<lambda>t. rank (ps t)) (mset_set A)"]) (use t in auto)
  then have old: "work ps = ?N + {#rank (ps t)#}" unfolding image_mset_insert [OF B] .
  have new: "work (ps(t := p)) = ?N + (if idle p then {#} else {#rank p#})"
  proof (cases "idle p")
    case True
    then have "{t'. \<not> idle ((ps(t := p)) t')} = ?B" by auto
    with True N show ?thesis by (simp add: work_def del: fun_upd_apply)
  next
    case False
    then have "{t'. \<not> idle ((ps(t := p)) t')} = insert t ?B" by auto
    then have "work (ps(t := p)) = image_mset (\<lambda>t'. rank ((ps(t := p)) t')) (mset_set (insert t ?B))"
      unfolding work_def by (rule arg_cong)
    then show ?thesis unfolding image_mset_insert [OF B] N using False by simp
  qed
  show ?thesis unfolding old new
    using rank_step [OF assms(1)] by (intro one_step_implies_mult) auto
qed

lemma wf_work: "wf (mult rank_less)"
  by (intro wf_mult wf_lex_prod wf_less_than)

lemma finite_busy_step:
  assumes "conc_step cshard sshard (r, ps, h) (r', ps', h')" "finite {t. \<not> idle (ps t)}"
  shows "finite {t. \<not> idle (ps' t)}"
proof -
  have "finite {t'. \<not> idle ((ps(t := p)) t')}" for t p
    using assms(2) by (rule rev_finite_subset [OF finite.insertI [of _ t]]) auto
  with assms(1) show ?thesis by cases (auto elim!: call_step.cases simp del: fun_upd_apply)
qed

lemma finite_busy: "conc_reach cshard sshard \<sigma> \<Longrightarrow> finite {t. \<not> idle (fst (snd \<sigma>) t)}"
proof (induction rule: rtranclp_induct)
  case base
  have "idle (initial_pc t)" for t by (cases t) simp_all
  then show ?case by (simp add: conc_init_def)
next
  case (step \<sigma> \<sigma>')
  then show ?case using finite_busy_step by (metis prod.collapse)
qed

lemma call_step_work:
  assumes "call_step cshard sshard \<sigma> \<sigma>'" "finite {t. \<not> idle (fst (snd \<sigma>) t)}"
  shows "(work (fst (snd \<sigma>')), work (fst (snd \<sigma>))) \<in> mult rank_less"
  using assms by cases (auto intro: work_step simp del: fun_upd_apply)

section \<open>One call without interference\<close>

text \<open>Run alone, the steps of a call perform the operation of the sequential model.\<close>

fun run_alone :: "(registry \<Rightarrow> 'p \<Rightarrow> registry \<times> 'p option) \<Rightarrow> nat \<Rightarrow> registry \<Rightarrow> 'p \<Rightarrow> registry option" where
  "run_alone step 0 r p = None"
| "run_alone step (Suc n) r p = (case step r p of (r', None) \<Rightarrow> Some r' | (r', Some p') \<Rightarrow> run_alone step n r' p')"

lemma register_alone:
  "run_alone (register_step c) 3 r (Reg_conn \<lparr>sender = tx, evict_tx = e, is_binary = b\<rparr>) = Some (register r c tx b e)"
  by (simp add: eval_nat_numeral register_def)

lemma subscribe_alone: "run_alone (subscribe_step c) 3 r (Sub_guard s) = Some (subscribe r c s)"
  by (auto simp: eval_nat_numeral subscribe_def split: option.splits)

lemma unsubscribe_alone: "run_alone (unsubscribe_step c) 3 r (Unsub_retain s) = Some (unsubscribe r c s)"
  by (auto simp: eval_nat_numeral unsubscribe_def remove_subscriber_from_stream_def split_beta Let_def split: option.splits)

lemma deregister_list_alone:
  "2 * length ss + 2 \<le> n \<Longrightarrow>
     run_alone (deregister_step c) n r (dereg_next ss) =
       run_alone (deregister_step c) 2 (fold (\<lambda>s r. remove_subscriber_from_stream r s c) ss r) Dereg_conn"
proof (induction ss arbitrary: n r)
  case Nil
  then have n: "n = Suc (Suc (n - 2))" by simp
  show ?case by (subst n) (auto simp: eval_nat_numeral split: option.splits)
next
  case (Cons s ss)
  define m where "m = n - 2"
  with Cons.prems have m: "n = Suc (Suc m)" "2 * length ss + 2 \<le> m" by auto
  have "run_alone (deregister_step c) n r (dereg_next (s # ss)) =
      (if fst (retain_subscriber r s c)
       then run_alone (deregister_step c) m (remove_if_empty (snd (retain_subscriber r s c)) s) (dereg_next ss)
       else run_alone (deregister_step c) (Suc m) (snd (retain_subscriber r s c)) (dereg_next ss))"
    by (simp add: m(1) split_beta Let_def)
  then show ?case
    using Cons.IH [of m] Cons.IH [of "Suc m"] m(2)
    by (simp add: remove_subscriber_from_stream_def split_beta Let_def)
qed

lemma deregister_alone:
  "2 * length (streams_of r c) + 3 \<le> n \<Longrightarrow>
     run_alone (deregister_step c) n r Dereg_take = Some (fst (deregister r c))"
proof -
  assume n: "2 * length (streams_of r c) + 3 \<le> n"
  then obtain m where m: "n = Suc m" "2 * length (streams_of r c) + 2 \<le> m" by (cases n) auto
  show ?thesis
  proof (cases "conn_streams r c")
    case None
    then show ?thesis using deregister_list_alone [of "[]" m c r] m
      by (auto simp: deregister_def eval_nat_numeral split: option.splits)
  next
    case (Some ss)
    then have "2 * length ss + 2 \<le> m" using m(2) by (simp add: streams_of_def)
    from deregister_list_alone [OF this] Some m(1) show ?thesis
      by (auto simp: deregister_def eval_nat_numeral Let_def split: option.splits)
  qed
qed

section \<open>Properties\<close>

lemma lin_abs_reach: "conc_reach cshard sshard \<sigma> \<Longrightarrow> lin_abs (fst \<sigma>) = spec_log (snd (snd \<sigma>))"
proof (induction rule: rtranclp_induct)
  case base
  show ?case by (simp add: conc_init_def lin_abs_def spec_log_def registry_new_def streams_of_def)
next
  case (step \<sigma> \<sigma>')
  obtain r ps h where \<sigma>: "\<sigma> = (r, ps, h)" by (cases \<sigma>)
  have inv: "conc_inv r ps" using conc_reach_inv [OF step.hyps(1)] by (simp add: \<sigma>)
  have IH: "lin_abs r = spec_log h" using step.IH by (simp add: \<sigma>)
  have start: "lin_abs (r\<lparr>next_id := n\<rparr>) = lin_abs r" for n by (simp add: lin_abs_def)
  from step.hyps(2) show ?case unfolding \<sigma>
  proof cases
    case call
    then show ?thesis
    proof cases
      case (call_stepI sent t r' p)
      then show ?thesis
        using lin_abs_step [OF call_stepI(2) inv] IH by (auto simp: spec_log_def split: option.splits prod.splits)
    qed
  qed (use IH start in \<open>simp_all add: allocate_id_def\<close>)
qed

text \<open>A task that runs while every other is idle is never kept waiting: its next \<open>n\<close> operations.\<close>

fun solo :: "nat \<Rightarrow> task \<Rightarrow> registry \<times> pc \<times> (u64 \<times> reg_op) list \<Rightarrow> (registry \<times> pc \<times> (u64 \<times> reg_op) list) option" where
  "solo 0 t x = Some x"
| "solo (Suc n) t (r, p, h) =
     (case task_step True t r p of
        None \<Rightarrow> None
      | Some (r', p') \<Rightarrow> solo n t (r', p', h @ (case linearizes t r p of None \<Rightarrow> [] | Some op \<Rightarrow> [op])))"

lemma own_guard:
  "needs_conn_streams t p \<noteq> None \<Longrightarrow> holds_conn_streams t p = None" "needs_stream p \<noteq> None \<Longrightarrow> reads_stream p = None"
  by (cases "(t, p)" rule: holds_conn_streams.cases; simp) (cases p rule: reads_stream.cases; simp)

lemma idle_guard: "idle p \<Longrightarrow> holds_conn_streams t p = None" "idle p \<Longrightarrow> reads_stream p = None"
  by (cases t; cases p; simp)+

lemma may_run_solo:
  assumes "\<And>t'. t' \<noteq> t \<Longrightarrow> idle (ps t')"
  shows "may_run cshard sshard ps t"
  unfolding may_run_def using own_guard idle_guard assms by (metis option.distinct(1))

lemma solo_reach:
  "conc_reach cshard sshard (r, ps(t := p), h) \<Longrightarrow> (\<And>t'. t' \<noteq> t \<Longrightarrow> idle (ps t')) \<Longrightarrow>
     solo n t (r, p, h) = Some (r', p', h') \<Longrightarrow> conc_reach cshard sshard (r', ps(t := p'), h')"
proof (induction n arbitrary: r p h)
  case 0
  then show ?case by auto
next
  case (Suc n)
  from Suc.prems(3) obtain r1 p1 where s: "task_step True t r p = Some (r1, p1)"
    "solo n t (r1, p1, h @ (case linearizes t r p of None \<Rightarrow> [] | Some op \<Rightarrow> [op])) = Some (r', p', h')"
    by (auto split: option.splits)
  have "may_run cshard sshard (ps(t := p)) t" using Suc.prems(2) by (intro may_run_solo) simp
  with call_stepI [of True t r "ps(t := p)" r1 p1 cshard sshard h] s(1)
  have "call_step cshard sshard (r, ps(t := p), h)
      (r1, ps(t := p1), h @ (case linearizes t r p of None \<Rightarrow> [] | Some op \<Rightarrow> [op]))" by simp
  then have "conc_reach cshard sshard (r1, ps(t := p1), h @ (case linearizes t r p of None \<Rightarrow> [] | Some op \<Rightarrow> [op]))"
    using Suc.prems(1) conc_step.call by (meson rtranclp.rtrancl_into_rtrancl)
  then show ?case using Suc.prems(2) s(2) by (rule Suc.IH)
qed

text \<open>A run for the witnesses: one connection is registered and subscribed.\<close>

definition demo_registry :: registry where
  "demo_registry = subscribe (register (snd (allocate_id registry_new)) 1 0 False 0) 1 ''news''"

definition demo_history :: "(u64 \<times> reg_op) list" where
  "demo_history = [(1, Op_register 0 False 0), (1, Op_subscribe 1 ''news'')]"

lemma demo_midway:
  "conc_reach cshard sshard (register (snd (allocate_id registry_new)) 1 0 False 0,
     initial_pc(Conn 1 := Subscribing (Sub_guard ''news'')), [(1, Op_register 0 False 0)])"
proof -
  let ?e = "\<lparr>sender = 0, evict_tx = 0, is_binary = False\<rparr>"
  let ?r0 = "snd (allocate_id registry_new)"
  let ?r3 = "register ?r0 1 0 False 0"
  have idle: "idle (initial_pc t)" for t by (cases t) simp_all
  have "conc_step cshard sshard conc_init (?r0, initial_pc(Conn 1 := Registering (Reg_conn ?e)), [])"
    using conc_step.spawn [of initial_pc registry_new cshard sshard "[]" ?e] by (simp add: conc_init_def registry_new_def)
  then have "conc_reach cshard sshard (?r0, initial_pc(Conn 1 := Registering (Reg_conn ?e)), [])" by blast
  then have "conc_reach cshard sshard (?r3, initial_pc(Conn 1 := Ready), [(1, Op_register 0 False 0)])"
    by (rule solo_reach [where n = 3, OF _ idle])
       (simp add: eval_nat_numeral resume_def register_def allocate_id_def)
  moreover have "conc_step cshard sshard (?r3, initial_pc(Conn 1 := Ready), [(1, Op_register 0 False 0)])
      (?r3, initial_pc(Conn 1 := Subscribing (Sub_guard ''news'')), [(1, Op_register 0 False 0)])"
    using conc_step.start_subscribe [of "initial_pc(Conn 1 := Ready)" 1] by simp
  ultimately show ?thesis by (meson rtranclp.rtrancl_into_rtrancl)
qed

lemma demo_reach: "conc_reach cshard sshard (demo_registry, initial_pc(Conn 1 := Ready), demo_history)"
proof -
  have idle: "idle (initial_pc t)" for t by (cases t) simp_all
  show ?thesis
    by (rule solo_reach [where n = 3, OF demo_midway idle])
       (simp add: eval_nat_numeral resume_def register_def allocate_id_def subscribe_def demo_registry_def
         demo_history_def registry_new_def)
qed

lemma demo_quiescent: "quiescent (demo_registry, initial_pc(Conn 1 := Ready), demo_history)"
proof -
  have "idle (initial_pc t)" for t by (cases t) simp_all
  then show ?thesis by (simp add: quiescent_def)
qed

text \<open>
  C5. The registry is linearizable. Whatever the interleaving of the single map operations of concurrent
  calls, and whatever the sharding of the maps, once no call is in progress the registry satisfies the invariant
  of the sequential model; its members and subscriptions are those the abstract specification reaches
  by applying the calls one at a time in the order in which they took effect; the active counter is the
  number of members; and every member's connection is open.
\<close>

theorem registry_linearizable:
  assumes "conc_reach cshard sshard (r, ps, h)" and "quiescent (r, ps, h)"
  shows "reg_inv r \<and> reg_abs r = spec_log h \<and> connection_count r = of_nat (card (fst (spec_log h))) \<and>
    (\<forall>c. c \<in> fst (spec_log h) \<longrightarrow> ps (Conn c) = Ready)"
proof -
  have inv: "conc_inv r ps" using conc_reach_inv [OF assms(1)] by simp
  have idle: "idle (ps t)" for t using assms(2) by (simp add: quiescent_def)
  have reg: "reg_inv r" by (rule quiescent_reg_inv [OF inv idle])
  then have abs: "reg_abs r = spec_log h"
    using lin_abs_reach [OF assms(1)] by (auto simp: reg_inv_def reg_abs_def lin_abs_def members_def subs_rel_def)
  then have dom: "fst (spec_log h) = dom (connections r)" by (metis fst_conv members_def reg_abs_def)
  have "ps (Conn c) = Ready" if "c \<in> dom (connections r)" for c
    using that inv_mapsD(5) [of r ps c] inv idle [of "Conn c"] by (cases "ps (Conn c)") (auto simp: conc_inv_def)
  with reg abs dom show ?thesis by (simp add: reg_inv_def connection_count_def)
qed

theorem registry_linearizable_witness:
  "reg_inv demo_registry \<and> reg_abs demo_registry = spec_log demo_history \<and>
     connection_count demo_registry = of_nat (card (fst (spec_log demo_history)))"
  using registry_linearizable [OF demo_reach [of "\<lambda>_. 0" "\<lambda>_. 0"] demo_quiescent] by simp

text \<open>
  C16. Calls of the registry neither block each other for good nor run forever. From every reachable state the
  calls in progress can be carried to their end, and whatever the scheduler does, only finitely many
  operations happen before a new call is started. The guards that calls hold on shards of the maps are included.
\<close>

theorem registry_calls_return:
  assumes "conc_reach cshard sshard \<sigma>"
  shows "(\<exists>\<sigma>'. (call_step cshard sshard)\<^sup>*\<^sup>* \<sigma> \<sigma>' \<and> quiescent \<sigma>') \<and>
    \<not> (\<exists>f. f 0 = \<sigma> \<and> (\<forall>n. call_step cshard sshard (f n) (f (Suc n))))"
proof
  have next_reach: "conc_reach cshard sshard \<sigma>'" if "conc_reach cshard sshard \<sigma>" "call_step cshard sshard \<sigma> \<sigma>'" for \<sigma> \<sigma>'
    using that conc_step.call by (meson rtranclp.rtrancl_into_rtrancl)
  have less: "(work (fst (snd \<sigma>')), work (fst (snd \<sigma>))) \<in> mult rank_less"
    if "conc_reach cshard sshard \<sigma>" "call_step cshard sshard \<sigma> \<sigma>'" for \<sigma> \<sigma>'
    by (rule call_step_work [OF that(2) finite_busy [OF that(1)]])
  show "\<exists>\<sigma>'. (call_step cshard sshard)\<^sup>*\<^sup>* \<sigma> \<sigma>' \<and> quiescent \<sigma>'"
    using assms
  proof (induction "work (fst (snd \<sigma>))" arbitrary: \<sigma> rule: wf_induct_rule [OF wf_work])
    case 1
    obtain r ps h where \<sigma>: "\<sigma> = (r, ps, h)" by (cases \<sigma>)
    show ?case
    proof (cases "quiescent \<sigma>")
      case False
      then obtain t where "\<not> idle (ps t)" by (auto simp: quiescent_def \<sigma>)
      moreover have "conc_inv r ps" using conc_reach_inv [OF "1.prems"] by (simp add: \<sigma>)
      ultimately obtain \<sigma>' where s: "call_step cshard sshard \<sigma> \<sigma>'" unfolding \<sigma> using busy_steps by blast
      from "1.hyps" [OF less [OF "1.prems" s] next_reach [OF "1.prems" s]] s show ?thesis
        by (meson converse_rtranclp_into_rtranclp)
    qed blast
  qed
  show "\<not> (\<exists>f. f 0 = \<sigma> \<and> (\<forall>n. call_step cshard sshard (f n) (f (Suc n))))"
  proof
    assume "\<exists>f. f 0 = \<sigma> \<and> (\<forall>n. call_step cshard sshard (f n) (f (Suc n)))"
    then obtain f where f: "f 0 = \<sigma>" "\<And>n. call_step cshard sshard (f n) (f (Suc n))" by blast
    have "conc_reach cshard sshard (f n)" for n
      by (induction n) (use assms f next_reach in auto)
    with less f(2) have "(work (fst (snd (f (Suc n)))), work (fst (snd (f n)))) \<in> mult rank_less" for n by blast
    then have "\<exists>g. \<forall>n. (g (Suc n), g n) \<in> mult rank_less" by (intro exI [of _ "\<lambda>n. work (fst (snd (f n)))"]) blast
    with wf_work show False unfolding wf_iff_no_infinite_down_chain by blast
  qed
qed

theorem registry_calls_return_witness:
  "(\<exists>\<sigma>'. (call_step (\<lambda>_. 0) (\<lambda>_. 0))\<^sup>*\<^sup>* (register (snd (allocate_id registry_new)) 1 0 False 0,
       initial_pc(Conn 1 := Subscribing (Sub_guard ''news'')), [(1, Op_register 0 False 0)]) \<sigma>' \<and> quiescent \<sigma>') \<and>
    \<not> (\<exists>f. f 0 = (register (snd (allocate_id registry_new)) 1 0 False 0,
         initial_pc(Conn 1 := Subscribing (Sub_guard ''news'')), [(1, Op_register 0 False 0)]) \<and>
        (\<forall>n. call_step (\<lambda>_. 0) (\<lambda>_. 0) (f n) (f (Suc n))))"
  by (rule registry_calls_return [OF demo_midway])

end
