(* ===== verification/Rust_Std.thy ===== *)
theory Rust_Std
  imports Prelude
begin

text \<open>
  The functions of Rust's standard library that the gateway calls on strings: \<open>split\<close>,
  \<open>split_once\<close>, \<open>trim\<close>, \<open>strip_prefix\<close>, \<open>strip_suffix\<close>, \<open>starts_with\<close>,
  \<open>find\<close>, \<open>replace\<close>, \<open>u64::from_str\<close>, the decimal rendering of integers and
  \<open>str::from_utf8\<close>. A string is its UTF-8 bytes, so \<open>trim\<close> removes the byte
  sequences of every character with Unicode's White_Space property.
\<close>

section \<open>Splitting\<close>

fun split_char :: "char \<Rightarrow> str \<Rightarrow> str list" where
  "split_char d [] = [[]]"
| "split_char d (c # cs) =
     (if c = d then [] # split_char d cs
      else (case split_char d cs of [] \<Rightarrow> [[c]] | x # xs \<Rightarrow> (c # x) # xs))"

fun split_once :: "char \<Rightarrow> str \<Rightarrow> (str \<times> str) option" where
  "split_once d [] = None"
| "split_once d (c # cs) =
     (if c = d then Some ([], cs)
      else (case split_once d cs of None \<Rightarrow> None | Some (a, b) \<Rightarrow> Some (c # a, b)))"

fun join_char :: "char \<Rightarrow> str list \<Rightarrow> str" where
  "join_char d [] = []"
| "join_char d [x] = x"
| "join_char d (x # xs) = x @ d # join_char d xs"

lemma split_char_no: "d \<notin> set x \<Longrightarrow> split_char d x = [x]"
  by (induction x) auto

lemma split_char_append: "d \<notin> set x \<Longrightarrow> split_char d (x @ d # s) = x # split_char d s"
  by (induction x) auto

lemma split_char_join:
  "xs \<noteq> [] \<Longrightarrow> \<forall>x\<in>set xs. d \<notin> set x \<Longrightarrow> split_char d (join_char d xs) = xs"
  by (induction d xs rule: join_char.induct) (auto simp: split_char_no split_char_append)

lemma split_char_parts: "x \<in> set (split_char d s) \<Longrightarrow> d \<notin> set x"
  by (induction s arbitrary: x) (auto split: if_splits list.splits)

lemma split_once_Some: "d \<notin> set a \<Longrightarrow> split_once d (a @ d # b) = Some (a, b)"
  by (induction a) auto

section \<open>Prefixes, suffixes, search\<close>

definition starts_with :: "str \<Rightarrow> str \<Rightarrow> bool" where
  "starts_with s p \<longleftrightarrow> take (length p) s = p"

definition strip_prefix :: "str \<Rightarrow> str \<Rightarrow> str option" where
  "strip_prefix p s = (if starts_with s p then Some (drop (length p) s) else None)"

definition strip_suffix_char :: "char \<Rightarrow> str \<Rightarrow> str option" where
  "strip_suffix_char c s = (if s \<noteq> [] \<and> last s = c then Some (butlast s) else None)"

fun str_find :: "str \<Rightarrow> str \<Rightarrow> nat option" where
  "str_find [] p = (if p = [] then Some 0 else None)"
| "str_find (c # cs) p =
     (if starts_with (c # cs) p then Some 0
      else (case str_find cs p of None \<Rightarrow> None | Some i \<Rightarrow> Some (Suc i)))"

text \<open>\<open>str::replace\<close>, for a non-empty pattern (the only use in the code).\<close>

function str_replace :: "str \<Rightarrow> str \<Rightarrow> str \<Rightarrow> str" where
  "str_replace p t [] = []"
| "str_replace p t (c # cs) =
     (if p \<noteq> [] \<and> starts_with (c # cs) p then t @ str_replace p t (drop (length p) (c # cs))
      else c # str_replace p t cs)"
  by pat_completeness auto
termination
  by (relation "measure (\<lambda>(p, t, s). length s)") (auto simp: neq_Nil_conv)

lemma starts_with_append [simp]: "starts_with (p @ s) p"
  by (simp add: starts_with_def)

lemma starts_with_iff: "starts_with s p \<longleftrightarrow> (\<exists>t. s = p @ t)"
  unfolding starts_with_def by (metis append_eq_conv_conj append_take_drop_id)

lemma strip_prefix_append [simp]: "strip_prefix p (p @ s) = Some s"
  by (simp add: strip_prefix_def)

lemma strip_prefix_Some: "strip_prefix p s = Some r \<longleftrightarrow> s = p @ r"
  unfolding strip_prefix_def starts_with_iff by auto

lemma strip_suffix_char_Some: "strip_suffix_char c s = Some r \<longleftrightarrow> s = r @ [c]"
  unfolding strip_suffix_char_def by (metis append_butlast_last_id last_snoc butlast_snoc option.inject option.distinct(1) snoc_eq_iff_butlast)

lemma str_find_slice: "str_find s p = Some i \<Longrightarrow> take (length p) (drop i s) = p \<and> i + length p \<le> length s"
proof (induction s p arbitrary: i rule: str_find.induct)
  case (2 c cs p)
  show ?case
  proof (cases "starts_with (c # cs) p")
    case True
    with 2 show ?thesis
      by (auto simp: starts_with_def) (metis length_take min.absorb_iff2 length_Cons nle_le take_all)
  next
    case False
    with 2 show ?thesis by (auto split: option.splits)
  qed
qed (auto split: if_splits)

lemma str_find_None: "str_find s p = None \<Longrightarrow> s \<noteq> a @ p @ b"
proof (induction s p arbitrary: a rule: str_find.induct)
  case (2 c cs p)
  show ?case
  proof (cases a)
    case Nil
    with 2 show ?thesis by (auto simp: starts_with_iff split: if_splits)
  next
    case (Cons x xs)
    with 2 show ?thesis by (auto split: if_splits option.splits)
  qed
qed (auto split: if_splits)

lemma str_find_first: "str_find s p = Some i \<Longrightarrow> j < i \<Longrightarrow> \<not> starts_with (drop j s) p"
proof (induction s p arbitrary: i j rule: str_find.induct)
  case (2 c cs p)
  then show ?case by (cases j) (auto split: if_splits option.splits)
qed (auto split: if_splits)

section \<open>Whitespace\<close>

definition ws_seqs :: "str list" where
  "ws_seqs =
     [[CHR 0x09], [CHR 0x0A], [CHR 0x0B], [CHR 0x0C], [CHR 0x0D], [CHR 0x20],
      [CHR 0xC2, CHR 0x85], [CHR 0xC2, CHR 0xA0], [CHR 0xE1, CHR 0x9A, CHR 0x80],
      [CHR 0xE2, CHR 0x80, CHR 0x80], [CHR 0xE2, CHR 0x80, CHR 0x81], [CHR 0xE2, CHR 0x80, CHR 0x82],
      [CHR 0xE2, CHR 0x80, CHR 0x83], [CHR 0xE2, CHR 0x80, CHR 0x84], [CHR 0xE2, CHR 0x80, CHR 0x85],
      [CHR 0xE2, CHR 0x80, CHR 0x86], [CHR 0xE2, CHR 0x80, CHR 0x87], [CHR 0xE2, CHR 0x80, CHR 0x88],
      [CHR 0xE2, CHR 0x80, CHR 0x89], [CHR 0xE2, CHR 0x80, CHR 0x8A], [CHR 0xE2, CHR 0x80, CHR 0xA8],
      [CHR 0xE2, CHR 0x80, CHR 0xA9], [CHR 0xE2, CHR 0x80, CHR 0xAF], [CHR 0xE2, CHR 0x81, CHR 0x9F],
      [CHR 0xE3, CHR 0x80, CHR 0x80]]"

fun strip_any :: "str list \<Rightarrow> str \<Rightarrow> str option" where
  "strip_any [] s = None"
| "strip_any (w # ws) s = (case strip_prefix w s of Some r \<Rightarrow> Some r | None \<Rightarrow> strip_any ws s)"

function trim_by :: "str list \<Rightarrow> str \<Rightarrow> str" where
  "trim_by ws s =
     (case strip_any ws s of
        None \<Rightarrow> s
      | Some r \<Rightarrow> if length r < length s then trim_by ws r else s)"
  by pat_completeness auto
termination
  by (relation "measure (\<lambda>(ws, s). length s)") auto

declare trim_by.simps [simp del]

definition trim_start :: "str \<Rightarrow> str" where
  "trim_start s = trim_by ws_seqs s"

definition trim_end :: "str \<Rightarrow> str" where
  "trim_end s = rev (trim_by (map rev ws_seqs) (rev s))"

definition trim :: "str \<Rightarrow> str" where
  "trim s = trim_end (trim_start s)"

lemma trim_by_none: "strip_any ws s = None \<Longrightarrow> trim_by ws s = s"
  by (simp add: trim_by.simps)

lemma trim_id: "strip_any ws_seqs s = None \<Longrightarrow> strip_any (map rev ws_seqs) (rev s) = None \<Longrightarrow> trim s = s"
  by (simp add: trim_def trim_start_def trim_end_def trim_by_none)

section \<open>Decimal numbers\<close>

definition digit_val :: "char \<Rightarrow> nat option" where
  "digit_val c = (let n = of_char c :: nat in if 48 \<le> n \<and> n \<le> 57 then Some (n - 48) else None)"

fun parse_digits :: "nat \<Rightarrow> str \<Rightarrow> nat option" where
  "parse_digits acc [] = Some acc"
| "parse_digits acc (c # cs) =
     (case digit_val c of
        None \<Rightarrow> None
      | Some d \<Rightarrow> let acc' = 10 * acc + d in if acc' < 2 ^ 64 then parse_digits acc' cs else None)"

definition parse_u64 :: "str \<Rightarrow> u64 option" where
  "parse_u64 s =
     (case s of
        [] \<Rightarrow> None
      | [c] \<Rightarrow> map_option of_nat (parse_digits 0 s)
      | c # cs \<Rightarrow> map_option of_nat (parse_digits 0 (if c = CHR ''+'' then cs else s)))"

definition digit_char :: "nat \<Rightarrow> char" where
  "digit_char d = char_of (48 + d)"

fun show_nat :: "nat \<Rightarrow> str" where
  "show_nat n = (if n < 10 then [digit_char n] else show_nat (n div 10) @ [digit_char (n mod 10)])"

declare show_nat.simps [simp del]

lemma digit_val_digit_char [simp]: "d < 10 \<Longrightarrow> digit_val (digit_char d) = Some d"
  by (simp add: digit_val_def digit_char_def Let_def)

lemma parse_digits_append:
  "parse_digits acc (xs @ ys) = (case parse_digits acc xs of None \<Rightarrow> None | Some a \<Rightarrow> parse_digits a ys)"
  by (induction acc xs rule: parse_digits.induct) (auto simp: Let_def split: option.splits)

lemma parse_digits_show_nat: "n < 2 ^ 64 \<Longrightarrow> parse_digits 0 (show_nat n) = Some n"
proof (induction n rule: show_nat.induct)
  case (1 n)
  show ?case
  proof (cases "n < 10")
    case True
    then show ?thesis by (simp add: show_nat.simps [of n])
  next
    case False
    with 1 have "parse_digits 0 (show_nat (n div 10)) = Some (n div 10)" by simp
    moreover have "10 * (n div 10) + n mod 10 = n" by simp
    ultimately show ?thesis using False 1(2)
      by (simp add: show_nat.simps [of n] parse_digits_append Let_def)
  qed
qed

lemma show_nat_digits: "c \<in> set (show_nat n) \<Longrightarrow> \<exists>d < 10. c = digit_char d"
proof (induction n rule: show_nat.induct)
  case (1 n)
  have "n mod 10 < 10" by simp
  with 1 show ?case
    by (cases "n < 10") (auto simp: show_nat.simps [of n] simp del: mod_less_divisor pos_mod_bound)
qed

lemma show_nat_nonempty [simp]: "show_nat n \<noteq> []"
  by (subst show_nat.simps) simp

lemma digit_char_simps [rust_simps]:
  "digit_char 0 = CHR ''0''" "digit_char (Suc 0) = CHR ''1''" "digit_char 1 = CHR ''1''" "digit_char 2 = CHR ''2''"
  "digit_char 3 = CHR ''3''" "digit_char 4 = CHR ''4''" "digit_char 5 = CHR ''5''" "digit_char 6 = CHR ''6''"
  "digit_char 7 = CHR ''7''" "digit_char 8 = CHR ''8''" "digit_char 9 = CHR ''9''"
  by code_simp+

definition decimal_digits :: "char list" where
  "decimal_digits = ''0123456789''"

lemma digit_char_range: "d < 10 \<Longrightarrow> digit_char d \<in> set decimal_digits"
proof -
  have "list_all (\<lambda>d. digit_char d \<in> set decimal_digits) [0..<10]" by code_simp
  then show "d < 10 \<Longrightarrow> ?thesis" by (simp add: list_all_iff del: upt_Suc list.set)
qed

lemma show_nat_chars: "set (show_nat n) \<subseteq> set decimal_digits"
  using show_nat_digits digit_char_range by blast

lemma parse_u64_show_nat: "n < 2 ^ 64 \<Longrightarrow> parse_u64 (show_nat n) = Some (of_nat n)"
proof -
  assume n: "n < 2 ^ 64"
  have "CHR ''+'' \<notin> set decimal_digits" by (simp add: decimal_digits_def)
  then have "CHR ''+'' \<notin> set (show_nat n)" using show_nat_chars [of n] by blast
  with parse_digits_show_nat [OF n] show ?thesis
    by (auto simp: parse_u64_def split: list.splits)
qed

lemma parse_digits_overflow: "2 ^ 64 \<le> n \<Longrightarrow> parse_digits 0 (show_nat n) = None"
proof (induction n rule: show_nat.induct)
  case (1 n)
  have "\<not> n < 10" "10 * (n div 10) + n mod 10 = n" using 1(2) by simp_all
  then show ?case using 1 parse_digits_show_nat [of "n div 10"]
    by (cases "n div 10 < 2 ^ 64") (simp_all add: show_nat.simps [of n] parse_digits_append Let_def)
qed

lemma parse_u64_overflow: "2 ^ 64 \<le> n \<Longrightarrow> parse_u64 (show_nat n) = None"
proof -
  assume n: "2 ^ 64 \<le> n"
  have "CHR ''+'' \<notin> set decimal_digits" by (simp add: decimal_digits_def)
  then have "CHR ''+'' \<notin> set (show_nat n)" using show_nat_chars [of n] by blast
  with parse_digits_overflow [OF n] show ?thesis by (auto simp: parse_u64_def split: list.splits)
qed

text \<open>\<open>i64::from_str\<close>: an optional sign, then digits, within the range of the type.\<close>

definition parse_i64 :: "str \<Rightarrow> i64 option" where
  "parse_i64 s =
     (case s of
        [] \<Rightarrow> None
      | [c] \<Rightarrow> map_option int (parse_digits 0 s)
      | c # cs \<Rightarrow>
          if c = CHR ''-'' then (case parse_digits 0 cs of None \<Rightarrow> None | Some n \<Rightarrow> if n \<le> 2 ^ 63 then Some (- int n) else None)
          else (case parse_digits 0 (if c = CHR ''+'' then cs else s) of
                  None \<Rightarrow> None | Some n \<Rightarrow> if n < 2 ^ 63 then Some (int n) else None))"

definition show_i64 :: "i64 \<Rightarrow> str" where
  "show_i64 i = (if i < 0 then CHR ''-'' # show_nat (nat (- i)) else show_nat (nat i))"

lemma show_nat_no_sign: "CHR ''+'' \<notin> set (show_nat n)" "CHR ''-'' \<notin> set (show_nat n)"
  using show_nat_chars [of n] by (auto simp: decimal_digits_def)

lemma parse_i64_show: "- (2 ^ 63) \<le> i \<Longrightarrow> i < 2 ^ 63 \<Longrightarrow> parse_i64 (show_i64 i) = Some i"
proof (cases "i < 0")
  case True
  assume "- (2 ^ 63) \<le> i"
  with True have n: "nat (- i) \<le> 2 ^ 63" "nat (- i) < 2 ^ 64" by simp_all
  obtain c cs where s: "show_nat (nat (- i)) = c # cs" by (cases "show_nat (nat (- i))") simp_all
  show ?thesis using True n parse_digits_show_nat [OF n(2)] by (simp add: parse_i64_def show_i64_def s)
next
  case False
  assume "i < 2 ^ 63"
  with False have n: "nat i < 2 ^ 63" "nat i < 2 ^ 64" by simp_all
  have "CHR ''+'' \<notin> set (show_nat (nat i))" "CHR ''-'' \<notin> set (show_nat (nat i))" by (rule show_nat_no_sign)+
  then show ?thesis using False n parse_digits_show_nat [OF n(2)]
    by (auto simp: parse_i64_def show_i64_def split: list.splits)
qed

section \<open>UTF-8\<close>

definition byte_val :: "char \<Rightarrow> nat" where
  "byte_val c = of_char c"

definition byte_in :: "nat \<Rightarrow> nat \<Rightarrow> char \<Rightarrow> bool" where
  "byte_in lo hi c \<longleftrightarrow> lo \<le> byte_val c \<and> byte_val c \<le> hi"

definition utf8_cont :: "char \<Rightarrow> bool" where
  "utf8_cont c = byte_in 0x80 0xBF c"

text \<open>The length of the well-formed UTF-8 sequence at the head of a byte list, if there is one.\<close>

fun utf8_head :: "bytes \<Rightarrow> nat option" where
  "utf8_head (b0 # b1 # b2 # b3 # rest) =
     (if byte_in 0 0x7F b0 then Some 1
      else if byte_in 0xC2 0xDF b0 \<and> utf8_cont b1 then Some 2
      else if (byte_in 0xE0 0xE0 b0 \<and> byte_in 0xA0 0xBF b1 \<or>
               (byte_in 0xE1 0xEC b0 \<or> byte_in 0xEE 0xEF b0) \<and> utf8_cont b1 \<or>
               byte_in 0xED 0xED b0 \<and> byte_in 0x80 0x9F b1) \<and> utf8_cont b2 then Some 3
      else if (byte_in 0xF0 0xF0 b0 \<and> byte_in 0x90 0xBF b1 \<or>
               byte_in 0xF1 0xF3 b0 \<and> utf8_cont b1 \<or>
               byte_in 0xF4 0xF4 b0 \<and> byte_in 0x80 0x8F b1) \<and> utf8_cont b2 \<and> utf8_cont b3 then Some 4
      else None)"
| "utf8_head [b0, b1, b2] =
     (if byte_in 0 0x7F b0 then Some 1
      else if byte_in 0xC2 0xDF b0 \<and> utf8_cont b1 then Some 2
      else if (byte_in 0xE0 0xE0 b0 \<and> byte_in 0xA0 0xBF b1 \<or>
               (byte_in 0xE1 0xEC b0 \<or> byte_in 0xEE 0xEF b0) \<and> utf8_cont b1 \<or>
               byte_in 0xED 0xED b0 \<and> byte_in 0x80 0x9F b1) \<and> utf8_cont b2 then Some 3
      else None)"
| "utf8_head [b0, b1] =
     (if byte_in 0 0x7F b0 then Some 1
      else if byte_in 0xC2 0xDF b0 \<and> utf8_cont b1 then Some 2 else None)"
| "utf8_head [b0] = (if byte_in 0 0x7F b0 then Some 1 else None)"
| "utf8_head [] = None"

function utf8_valid :: "bytes \<Rightarrow> bool" where
  "utf8_valid s =
     (if s = [] then True
      else case utf8_head s of
          None \<Rightarrow> False
        | Some n \<Rightarrow> if n = 0 then False else utf8_valid (drop n s))"
  by pat_completeness auto
termination
  by (relation "measure length") (auto simp: neq_Nil_conv)

declare utf8_valid.simps [simp del]

lemma utf8_valid_Nil [simp]: "utf8_valid []"
  by (simp add: utf8_valid.simps)

lemma utf8_head_ascii: "byte_val c < 128 \<Longrightarrow> utf8_head (c # s) = Some 1"
  by (cases "c # s" rule: utf8_head.cases) (auto simp: byte_in_def)

lemma utf8_valid_Cons: "byte_val c < 128 \<Longrightarrow> utf8_valid (c # s) = utf8_valid s"
  by (subst utf8_valid.simps) (simp add: utf8_head_ascii)

lemma utf8_valid_ascii: "\<forall>c\<in>set s. byte_val c < 128 \<Longrightarrow> utf8_valid s"
  by (induction s) (auto simp: utf8_valid_Cons)

end
