(* ===== verification/Protocol.thy ===== *)
theory Protocol
  imports Rust_Std
begin

text \<open>
  The error hierarchy (\<open>src/src/errors.rs\<close>), the protocol messages
  (\<open>src/src/protocol/types.rs\<close>) and the two codecs (\<open>src/src/protocol/mod.rs\<close>,
  \<open>json.rs\<close>, \<open>msgpack.rs\<close>). The serialisation crates are parameters of the codecs
  (the record \<open>serde_libs\<close>, one function per call the code makes); what the attributes
  of \<open>types.rs\<close> fix of the wire format of a server frame (tag, snake-case names, omitted
  optional fields) is \<open>server_message_value\<close>.
\<close>

section \<open>Errors\<close>

type_synonym duration = nat \<comment> \<open>nanoseconds\<close>

datatype replay_error =
    WindowExceeded str u64 u64
  | Truncated str nat nat
  | ReplayJetStream str

record replay_delivery =
  delivered :: nat
  peer_gone :: bool
  first_delivery_elapsed :: "duration option"

datatype gateway_error =
    Auth str
  | NatsError str
  | JetStreamError str
  | ProtocolError str
  | SerializationError str

fun gateway_error_to_string :: "gateway_error \<Rightarrow> str" where
  "gateway_error_to_string (Auth e) = ''auth failed: '' @ e"
| "gateway_error_to_string (NatsError e) = ''NATS error: '' @ e"
| "gateway_error_to_string (JetStreamError e) = ''JetStream error: '' @ e"
| "gateway_error_to_string (ProtocolError e) = ''protocol error: '' @ e"
| "gateway_error_to_string (SerializationError e) = ''serialization error: '' @ e"

section \<open>Messages\<close>

datatype json_value =
    JNull
  | JBool bool
  | JNumber str
  | JString str
  | JArray "json_value list"
  | JObject "(str \<times> json_value) list"

datatype hello_tag = Hello_tag

record hello_command =
  hello_type :: hello_tag
  last_seq :: "u64 option"
  capabilities :: "str list"

definition is_replay_capable :: "hello_command \<Rightarrow> bool" where
  "is_replay_capable h = list_ex (\<lambda>c. c = ''replay_v1'') (capabilities h)"

datatype client_command =
    Subscribe str
  | Unsubscribe str
  | Message str str

datatype client_frame = Hello hello_command | Command client_command

datatype server_message =
    Welcome
  | Ping u64
  | ConfirmSubscription str
  | RejectSubscription str
  | Disconnect str "bool option"
  | ServerMessage str json_value "bool option" "u64 option"

definition u64_value :: "u64 \<Rightarrow> json_value" where
  "u64_value n = JNumber (show_nat (unat n))"

definition opt_field :: "str \<Rightarrow> ('a \<Rightarrow> json_value) \<Rightarrow> 'a option \<Rightarrow> (str \<times> json_value) list" where
  "opt_field name to_value x = (case x of None \<Rightarrow> [] | Some v \<Rightarrow> [(name, to_value v)])"

fun server_message_value :: "server_message \<Rightarrow> json_value" where
  "server_message_value Welcome = JObject [(''type'', JString ''welcome'')]"
| "server_message_value (Ping message) =
     JObject [(''type'', JString ''ping''), (''message'', u64_value message)]"
| "server_message_value (ConfirmSubscription identifier) =
     JObject [(''type'', JString ''confirm_subscription''), (''identifier'', JString identifier)]"
| "server_message_value (RejectSubscription identifier) =
     JObject [(''type'', JString ''reject_subscription''), (''identifier'', JString identifier)]"
| "server_message_value (Disconnect reason reconnect) =
     JObject ([(''type'', JString ''disconnect''), (''reason'', JString reason)] @
              opt_field ''reconnect'' JBool reconnect)"
| "server_message_value (ServerMessage identifier message replayed seq) =
     JObject ([(''type'', JString ''message''), (''identifier'', JString identifier), (''message'', message)] @
              opt_field ''replayed'' JBool replayed @ opt_field ''seq'' u64_value seq)"

section \<open>Codecs\<close>

record serde_libs =
  json_from_slice :: "bytes \<Rightarrow> str + client_frame"
  json_to_vec :: "server_message \<Rightarrow> str + bytes"
  rmp_from_slice :: "bytes \<Rightarrow> str + client_frame"
  rmp_to_vec_named :: "server_message \<Rightarrow> str + bytes"

record codec =
  decode :: "bytes \<Rightarrow> gateway_error + client_frame"
  encode :: "server_message \<Rightarrow> gateway_error + bytes"

definition SUB_PROTOCOL_JSON :: str where
  "SUB_PROTOCOL_JSON = ''actioncable-v1-json''"

definition SUB_PROTOCOL_MSGPACK :: str where
  "SUB_PROTOCOL_MSGPACK = ''turbocable-v1-msgpack''"

definition map_err :: "('e \<Rightarrow> 'f) \<Rightarrow> 'e + 'a \<Rightarrow> 'f + 'a" where
  "map_err f r = (case r of Inl e \<Rightarrow> Inl (f e) | Inr x \<Rightarrow> Inr x)"

definition json_codec :: "serde_libs \<Rightarrow> codec" where
  "json_codec libs =
     \<lparr>decode = (\<lambda>data. map_err (\<lambda>e. ProtocolError (''invalid JSON frame: '' @ e)) (json_from_slice libs data)),
      encode = (\<lambda>msg. map_err (\<lambda>e. SerializationError (''JSON encode failed: '' @ e)) (json_to_vec libs msg))\<rparr>"

definition msgpack_codec :: "serde_libs \<Rightarrow> codec" where
  "msgpack_codec libs =
     \<lparr>decode = (\<lambda>data. map_err (\<lambda>e. ProtocolError (''invalid msgpack frame: '' @ e)) (rmp_from_slice libs data)),
      encode = (\<lambda>msg. map_err (\<lambda>e. SerializationError (''msgpack encode failed: '' @ e)) (rmp_to_vec_named libs msg))\<rparr>"

definition codec_for_protocol :: "serde_libs \<Rightarrow> str \<Rightarrow> codec option" where
  "codec_for_protocol libs protocol =
     (if protocol = SUB_PROTOCOL_JSON then Some (json_codec libs)
      else if protocol = SUB_PROTOCOL_MSGPACK then Some (msgpack_codec libs)
      else None)"

lemma map_err_simps [simp]: "map_err f (Inl e) = Inl (f e)" "map_err f (Inr x) = Inr x"
  by (simp_all add: map_err_def)

lemma u64_value_inj [simp]: "u64_value a = u64_value b \<longleftrightarrow> a = b"
proof
  assume "u64_value a = u64_value b"
  then have "show_nat (unat a) = show_nat (unat b)" by (simp add: u64_value_def)
  moreover have "unat a < 2 ^ 64" "unat b < 2 ^ 64" using unat_u64_bound [of a] unat_u64_bound [of b] by simp_all
  ultimately have "unat a = unat b" by (metis option.inject parse_digits_show_nat)
  then show "a = b" by (simp add: word_unat_eq_iff)
qed simp

section \<open>Properties\<close>

text \<open>
  The wire object of a server frame determines the frame: no two different frames share
  one, optional fields and the sequence number included, so a client can read back exactly
  what the gateway encoded.
\<close>

theorem server_message_value_inj: "server_message_value m = server_message_value m' \<longleftrightarrow> m = m'"
  by (cases m; cases m') (auto simp: opt_field_def split: option.splits)

end
