(* ===== verification/Wire.thy ===== *)
theory Wire
  imports Protocol "HOL-Library.Multiset" "HOL-Library.Monad_Syntax"
begin

text \<open>
  The wire objects of client frames, as the attributes of \<open>protocol/types.rs\<close> fix them: \<open>ClientFrame\<close> is untagged, so its variants are tried in
  order; \<open>HelloCommand\<close> renames its tag and has defaults; \<open>ClientCommand\<close> carries its variant in the field \<open>command\<close>. No type has
  \<open>deny_unknown_fields\<close>, so other fields are skipped; a field of the type that comes twice is an error. The objects keep the order
  and the duplicates of their fields. What the deserialiser makes of a tag that is no string is a parameter, and
  so is everything about frames that are no objects.
\<close>

section \<open>Serialisation\<close>

fun hello_fields :: "hello_command \<Rightarrow> (str \<times> json_value) list" where
  "hello_fields h =
     [(''type'', JString ''hello''),
      (''last_seq'', case last_seq h of None \<Rightarrow> JNull | Some n \<Rightarrow> u64_value n),
      (''capabilities'', JArray (map JString (capabilities h)))]"

fun command_fields :: "client_command \<Rightarrow> (str \<times> json_value) list" where
  "command_fields (Subscribe i) = [(''command'', JString ''subscribe''), (''identifier'', JString i)]"
| "command_fields (Unsubscribe i) = [(''command'', JString ''unsubscribe''), (''identifier'', JString i)]"
| "command_fields (Message i d) =
     [(''command'', JString ''message''), (''identifier'', JString i), (''data'', JString d)]"

fun client_frame_fields :: "client_frame \<Rightarrow> (str \<times> json_value) list" where
  "client_frame_fields (Hello h) = hello_fields h"
| "client_frame_fields (Command c) = command_fields c"

section \<open>Deserialisation\<close>

datatype command_tag = Subscribe_tag | Unsubscribe_tag | Message_tag

record tag_libs =
  odd_hello_tag :: "json_value \<Rightarrow> hello_tag option"
  odd_command_tag :: "json_value \<Rightarrow> command_tag option"

text \<open>A field that is absent is \<open>Some None\<close>; one that comes twice is an error.\<close>

definition known_field :: "str \<Rightarrow> (str \<times> json_value) list \<Rightarrow> json_value option option" where
  "known_field name fs =
     (case filter (\<lambda>f. fst f = name) fs of [] \<Rightarrow> Some None | [f] \<Rightarrow> Some (Some (snd f)) | _ \<Rightarrow> None)"

definition required :: "str \<Rightarrow> (str \<times> json_value) list \<Rightarrow> (json_value \<Rightarrow> 'a option) \<Rightarrow> 'a option" where
  "required name fs of_value = do { v \<leftarrow> known_field name fs; v \<bind> of_value }"

definition with_default :: "str \<Rightarrow> (str \<times> json_value) list \<Rightarrow> (json_value \<Rightarrow> 'a option) \<Rightarrow> 'a \<Rightarrow> 'a option" where
  "with_default name fs of_value d =
     do { v \<leftarrow> known_field name fs; (case v of None \<Rightarrow> Some d | Some v \<Rightarrow> of_value v) }"

fun string_of_value :: "json_value \<Rightarrow> str option" where
  "string_of_value (JString s) = Some s"
| "string_of_value _ = None"

fun opt_u64_of_value :: "json_value \<Rightarrow> u64 option option" where
  "opt_u64_of_value JNull = Some None"
| "opt_u64_of_value (JNumber t) = map_option Some (parse_u64 t)"
| "opt_u64_of_value _ = None"

fun strings_of_value :: "json_value \<Rightarrow> str list option" where
  "strings_of_value (JArray vs) = those (map string_of_value vs)"
| "strings_of_value _ = None"

definition hello_tag_of_value :: "tag_libs \<Rightarrow> json_value \<Rightarrow> hello_tag option" where
  "hello_tag_of_value libs v =
     (case v of JString s \<Rightarrow> if s = ''hello'' then Some Hello_tag else None | _ \<Rightarrow> odd_hello_tag libs v)"

definition command_tag_of_value :: "tag_libs \<Rightarrow> json_value \<Rightarrow> command_tag option" where
  "command_tag_of_value libs v =
     (case v of
        JString s \<Rightarrow>
          if s = ''subscribe'' then Some Subscribe_tag
          else if s = ''unsubscribe'' then Some Unsubscribe_tag
          else if s = ''message'' then Some Message_tag
          else None
      | _ \<Rightarrow> odd_command_tag libs v)"

definition hello_of_object :: "tag_libs \<Rightarrow> (str \<times> json_value) list \<Rightarrow> hello_command option" where
  "hello_of_object libs fs = do {
     tag \<leftarrow> required ''type'' fs (hello_tag_of_value libs);
     n \<leftarrow> with_default ''last_seq'' fs opt_u64_of_value None;
     caps \<leftarrow> with_default ''capabilities'' fs strings_of_value [];
     Some \<lparr>hello_type = tag, last_seq = n, capabilities = caps\<rparr>
   }"

definition command_of_object :: "tag_libs \<Rightarrow> (str \<times> json_value) list \<Rightarrow> client_command option" where
  "command_of_object libs fs = do {
     tag \<leftarrow> required ''command'' fs (command_tag_of_value libs);
     i \<leftarrow> required ''identifier'' fs string_of_value;
     (case tag of
        Subscribe_tag \<Rightarrow> Some (Subscribe i)
      | Unsubscribe_tag \<Rightarrow> Some (Unsubscribe i)
      | Message_tag \<Rightarrow> do { d \<leftarrow> required ''data'' fs string_of_value; Some (Message i d) })
   }"

definition client_frame_of_object :: "tag_libs \<Rightarrow> (str \<times> json_value) list \<Rightarrow> client_frame option" where
  "client_frame_of_object libs fs =
     (case hello_of_object libs fs of
        Some h \<Rightarrow> Some (Hello h)
      | None \<Rightarrow> map_option Command (command_of_object libs fs))"

section \<open>Only the known fields matter\<close>

definition frame_field_names :: "str set" where
  "frame_field_names = {''type'', ''last_seq'', ''capabilities'', ''command'', ''identifier'', ''data''}"

definition frame_fields :: "(str \<times> json_value) list \<Rightarrow> (str \<times> json_value) multiset" where
  "frame_fields fs = mset (filter (\<lambda>f. fst f \<in> frame_field_names) fs)"

text \<open>The field of a name, from the multiset of the fields with that name.\<close>

lemma known_field_cong:
  assumes "filter_mset (\<lambda>f. fst f = name) (mset fs) = filter_mset (\<lambda>f. fst f = name) (mset fs')"
  shows "known_field name fs = known_field name fs'"
proof -
  have m: "mset (filter (\<lambda>f. fst f = name) fs) = mset (filter (\<lambda>f. fst f = name) fs')" using assms by simp
  show ?thesis
  proof (cases "filter (\<lambda>f. fst f = name) fs" rule: remdups_adj.cases)
    case 1
    with m have "filter (\<lambda>f. fst f = name) fs' = []" by (metis mset_zero_iff_right)
    with 1 show ?thesis by (simp add: known_field_def)
  next
    case (2 f)
    with m have "{#f#} = mset (filter (\<lambda>f. fst f = name) fs')" by (metis mset_single_iff)
    then have "filter (\<lambda>f. fst f = name) fs' = [f]" by (simp only: mset_single_iff_right)
    with 2 show ?thesis by (simp add: known_field_def)
  next
    case (3 f g r)
    with mset_eq_length [OF m] obtain f' g' r' where "filter (\<lambda>f. fst f = name) fs' = f' # g' # r'"
      by (cases "filter (\<lambda>f. fst f = name) fs'" rule: remdups_adj.cases) auto
    with 3 show ?thesis by (simp add: known_field_def)
  qed
qed

lemma known_field_frame_fields:
  assumes "frame_fields fs = frame_fields fs'" and "name \<in> frame_field_names"
  shows "known_field name fs = known_field name fs'"
proof (rule known_field_cong)
  have "filter_mset (\<lambda>f. fst f = name) (mset gs) = filter_mset (\<lambda>f. fst f = name) (frame_fields gs)" for gs
    using assms(2) by (auto simp: frame_fields_def filter_filter_mset intro!: filter_mset_cong)
  with assms(1) show "filter_mset (\<lambda>f. fst f = name) (mset fs) = filter_mset (\<lambda>f. fst f = name) (mset fs')" by simp
qed

lemma client_frame_of_object_cong:
  assumes "frame_fields fs = frame_fields fs'"
  shows "client_frame_of_object libs fs = client_frame_of_object libs fs'"
proof -
  have "known_field name fs = known_field name fs'" if "name \<in> frame_field_names" for name
    using known_field_frame_fields [OF assms that] .
  then have k: "known_field ''type'' fs = known_field ''type'' fs'" "known_field ''last_seq'' fs = known_field ''last_seq'' fs'"
    "known_field ''capabilities'' fs = known_field ''capabilities'' fs'" "known_field ''command'' fs = known_field ''command'' fs'"
    "known_field ''identifier'' fs = known_field ''identifier'' fs'" "known_field ''data'' fs = known_field ''data'' fs'"
    by (simp_all add: frame_field_names_def)
  show ?thesis
    unfolding client_frame_of_object_def hello_of_object_def command_of_object_def required_def with_default_def k ..
qed

section \<open>Round trip\<close>

lemma those_strings [simp]: "those (map (string_of_value \<circ> JString) ss) = Some ss"
  by (induction ss) simp_all

lemma opt_u64_of_u64_value [simp]: "opt_u64_of_value (u64_value n) = Some (Some n)"
  using parse_u64_show_nat [of "unat n"] unat_u64_bound [of n] by (simp add: u64_value_def)

lemmas decode_defs = client_frame_of_object_def hello_of_object_def command_of_object_def required_def with_default_def
  known_field_def hello_tag_of_value_def command_tag_of_value_def

lemma client_frame_roundtrip: "client_frame_of_object libs (client_frame_fields f) = Some f"
proof (cases f)
  case (Hello h)
  then show ?thesis by (cases "hello_type h"; cases "last_seq h") (simp_all add: decode_defs)
next
  case (Command c)
  then show ?thesis by (cases c) (simp_all add: decode_defs)
qed

text \<open>A sequence number that no \<open>u64\<close> can hold is refused, not reduced or rounded.\<close>

lemma last_seq_exact:
  "client_frame_of_object libs [(''type'', JString ''hello''), (''last_seq'', JNumber (show_nat n))] =
     (if n < 2 ^ 64 then Some (Hello \<lparr>hello_type = Hello_tag, last_seq = Some (of_nat n), capabilities = []\<rparr>) else None)"
  by (simp add: decode_defs parse_u64_show_nat parse_u64_overflow)

text \<open>
  A frame that carries both a valid hello and a command is a hello: the first variant that fits is taken. When the hello
  is malformed, the same frame is a command.
\<close>

lemma hello_before_command:
  "client_frame_of_object libs [(''command'', JString ''subscribe''), (''identifier'', JString i), (''type'', JString ''hello'')] =
     Some (Hello \<lparr>hello_type = Hello_tag, last_seq = None, capabilities = []\<rparr>)"
  "client_frame_of_object libs [(''command'', JString ''subscribe''), (''identifier'', JString i), (''type'', JString ''hello''),
     (''last_seq'', JString s)] = Some (Command (Subscribe i))"
  by (simp_all add: decode_defs)

section \<open>Properties\<close>

text \<open>
  C32. A client frame survives the wire. Every object whose known fields are those of the serialised frame, in any order and
  among any other fields, is read as exactly that frame, hello or command, sequence number and capabilities included.
\<close>

theorem client_frame_decodes:
  assumes "frame_fields fs = frame_fields (client_frame_fields f)"
  shows "client_frame_of_object libs fs = Some f"
  using client_frame_of_object_cong [OF assms] client_frame_roundtrip by simp

theorem client_frame_decodes_witness:
  "\<forall>libs. client_frame_of_object libs
     [(''data'', JString ''hi''), (''id'', JNull), (''identifier'', JString ''room''), (''command'', JString ''message'')] =
   Some (Command (Message ''room'' ''hi''))"
proof (rule allI, rule client_frame_decodes)
  show "frame_fields [(''data'', JString ''hi''), (''id'', JNull), (''identifier'', JString ''room''), (''command'', JString ''message'')] =
    frame_fields (client_frame_fields (Command (Message ''room'' ''hi'')))"
    by (simp add: frame_fields_def frame_field_names_def)
qed

end
