(* ===== verification/Outbound.thy ===== *)
theory Outbound
  imports Channels Rust_Std "HOL-Library.Sublist"
begin

text \<open>
  The task that writes to one WebSocket (\<open>outbound_loop\<close> and \<open>bytes_to_ws_msg\<close> of
  \<open>src/src/connection/handler.rs\<close>), as a step function with one step per message sent, so that the
  other tasks may act on the channels between any two sends. Which sends on the socket succeed is an
  argument: a function of the number of sends tried so far. A step is \<open>None\<close> when the task waits
  in \<open>select!\<close>. Each frame on the wire carries the channel it came from.
\<close>

section \<open>Frames and state\<close>

datatype ws_message =
  Text str | Binary bytes | Ping_frame bytes | Pong_frame bytes | Close_frame "(nat \<times> str) option"

definition WS_CLOSE_AUTH_FAILED :: nat where
  "WS_CLOSE_AUTH_FAILED = 3000"

definition WS_CLOSE_GOING_AWAY :: nat where
  "WS_CLOSE_GOING_AWAY = 1001"

definition OUTBOUND_REPLAY_BURST :: nat where
  "OUTBOUND_REPLAY_BURST = 512"

definition bytes_to_ws_msg :: "bytes \<Rightarrow> bool \<Rightarrow> ws_message option" where
  "bytes_to_ws_msg payload is_bin =
     (if is_bin then Some (Binary payload)
      else if utf8_valid payload then Some (Text payload) else None)"

datatype frame_src = From_live | From_replay | Control

datatype out_pc = Select | Burst nat | Drain_replay | Drain_live | Going_away | Returned

record out_state =
  live_rx :: "bytes chan"
  replay_rx :: "bytes chan"
  urgent_rx :: "bytes chan"
  evict_rx :: "unit chan"
  shutdown_changed :: bool
  out_binary :: bool
  disconnect_frame :: bytes
  urgent_open :: bool
  evict_open :: bool
  pc :: out_pc
  attempts :: nat
  wire :: "(frame_src \<times> ws_message) list"
  sink_closed :: bool

section \<open>Steps\<close>

definition ws_send :: "(nat \<Rightarrow> bool) \<Rightarrow> frame_src \<Rightarrow> ws_message \<Rightarrow> out_state \<Rightarrow> bool \<times> out_state" where
  "ws_send orc src m s =
     (orc (attempts s),
      s\<lparr>attempts := Suc (attempts s),
        wire := (if orc (attempts s) then wire s @ [(src, m)] else wire s)\<rparr>)"

definition forward :: "(nat \<Rightarrow> bool) \<Rightarrow> frame_src \<Rightarrow> bytes \<Rightarrow> out_state \<Rightarrow> bool \<times> out_state" where
  "forward orc src payload s =
     (case bytes_to_ws_msg payload (out_binary s) of None \<Rightarrow> (True, s) | Some m \<Rightarrow> ws_send orc src m s)"

text \<open>Returning drops the four receivers.\<close>

definition out_return :: "out_state \<Rightarrow> out_state" where
  "out_return s = s\<lparr>pc := Returned, live_rx := chan_drop_rx (live_rx s), replay_rx := chan_drop_rx (replay_rx s),
     urgent_rx := chan_drop_rx (urgent_rx s), evict_rx := chan_drop_rx (evict_rx s)\<rparr>"

definition close_and_return :: "out_state \<Rightarrow> out_state" where
  "close_and_return s = out_return (s\<lparr>sink_closed := True\<rparr>)"

definition live_branch :: "(nat \<Rightarrow> bool) \<Rightarrow> out_state \<Rightarrow> out_state option" where
  "live_branch orc s =
     (case chan_recv (live_rx s) of
        (Got payload, c) \<Rightarrow>
          (let (ok, s1) = forward orc From_live payload (s\<lparr>live_rx := c\<rparr>)
           in Some (if ok then s1 else close_and_return s1))
      | (Closed, _) \<Rightarrow> Some (close_and_return s)
      | (Pending, _) \<Rightarrow> None)"

definition replay_branch :: "(nat \<Rightarrow> bool) \<Rightarrow> out_state \<Rightarrow> out_state option" where
  "replay_branch orc s =
     (case chan_recv (replay_rx s) of
        (Got payload, c) \<Rightarrow>
          (let (ok, s1) = forward orc From_replay payload (s\<lparr>replay_rx := c\<rparr>)
           in Some (if ok then s1\<lparr>pc := Burst (OUTBOUND_REPLAY_BURST - 1)\<rparr> else close_and_return s1))
      | (Closed, _) \<Rightarrow> Some s
      | (Pending, _) \<Rightarrow> live_branch orc s)"

definition urgent_branch :: "(nat \<Rightarrow> bool) \<Rightarrow> out_state \<Rightarrow> out_state option" where
  "urgent_branch orc s =
     (case (if urgent_open s then chan_recv (urgent_rx s) else (Pending, urgent_rx s)) of
        (Got payload, c) \<Rightarrow> Some (close_and_return (snd (forward orc Control payload (s\<lparr>urgent_rx := c\<rparr>))))
      | (Closed, _) \<Rightarrow> Some (s\<lparr>urgent_open := False\<rparr>)
      | (Pending, _) \<Rightarrow> if shutdown_changed s then Some (s\<lparr>pc := Drain_replay\<rparr>) else replay_branch orc s)"

definition select_step :: "(nat \<Rightarrow> bool) \<Rightarrow> out_state \<Rightarrow> out_state option" where
  "select_step orc s =
     (case (if evict_open s then chan_recv (evict_rx s) else (Pending, evict_rx s)) of
        (Got _, c) \<Rightarrow> Some (close_and_return (snd (forward orc Control (disconnect_frame s) (s\<lparr>evict_rx := c\<rparr>))))
      | (Closed, _) \<Rightarrow> Some (s\<lparr>evict_open := False\<rparr>)
      | (Pending, _) \<Rightarrow> urgent_branch orc s)"

definition burst_step :: "(nat \<Rightarrow> bool) \<Rightarrow> nat \<Rightarrow> out_state \<Rightarrow> out_state" where
  "burst_step orc k s =
     (if k = 0 then s\<lparr>pc := Select\<rparr>
      else case chan_try_recv (replay_rx s) of
             (None, _) \<Rightarrow> s\<lparr>pc := Select\<rparr>
           | (Some payload, c) \<Rightarrow>
               let (ok, s1) = forward orc From_replay payload (s\<lparr>replay_rx := c\<rparr>)
               in if ok then s1\<lparr>pc := Burst (k - 1)\<rparr> else close_and_return s1)"

definition drain_replay_step :: "(nat \<Rightarrow> bool) \<Rightarrow> out_state \<Rightarrow> out_state" where
  "drain_replay_step orc s =
     (case chan_try_recv (replay_rx s) of
        (None, _) \<Rightarrow> s\<lparr>pc := Drain_live\<rparr>
      | (Some payload, c) \<Rightarrow>
          let (ok, s1) = forward orc From_replay payload (s\<lparr>replay_rx := c\<rparr>)
          in if ok then s1 else s1\<lparr>pc := Drain_live\<rparr>)"

definition drain_live_step :: "(nat \<Rightarrow> bool) \<Rightarrow> out_state \<Rightarrow> out_state" where
  "drain_live_step orc s =
     (case chan_try_recv (live_rx s) of
        (None, _) \<Rightarrow> s\<lparr>pc := Going_away\<rparr>
      | (Some payload, c) \<Rightarrow>
          let (ok, s1) = forward orc From_live payload (s\<lparr>live_rx := c\<rparr>)
          in if ok then s1 else s1\<lparr>pc := Going_away\<rparr>)"

definition going_away_step :: "(nat \<Rightarrow> bool) \<Rightarrow> out_state \<Rightarrow> out_state" where
  "going_away_step orc s =
     out_return (snd (ws_send orc Control (Close_frame (Some (WS_CLOSE_GOING_AWAY, ''server shutting down''))) s))"

definition outbound_step :: "(nat \<Rightarrow> bool) \<Rightarrow> out_state \<Rightarrow> out_state option" where
  "outbound_step orc s =
     (case pc s of
        Select \<Rightarrow> select_step orc s
      | Burst k \<Rightarrow> Some (burst_step orc k s)
      | Drain_replay \<Rightarrow> Some (drain_replay_step orc s)
      | Drain_live \<Rightarrow> Some (drain_live_step orc s)
      | Going_away \<Rightarrow> Some (going_away_step orc s)
      | Returned \<Rightarrow> None)"

definition outbound_init :: "bytes chan \<Rightarrow> bytes chan \<Rightarrow> bytes chan \<Rightarrow> unit chan \<Rightarrow> bool \<Rightarrow> bool \<Rightarrow> bytes \<Rightarrow> out_state" where
  "outbound_init live replay urgent evict shut is_bin frame =
     \<lparr>live_rx = live, replay_rx = replay, urgent_rx = urgent, evict_rx = evict, shutdown_changed = shut,
      out_binary = is_bin, disconnect_frame = frame, urgent_open = True, evict_open = True,
      pc = Select, attempts = 0, wire = [], sink_closed = False\<rparr>"

section \<open>The loop among the other tasks\<close>

text \<open>What the other tasks do to the channels of one connection, between two steps of the loop.\<close>

datatype out_act =
  Own | Push_live bytes | Push_replay bytes | Push_urgent bytes | Signal_evict | Signal_shutdown
| Clone_replay | Clone_urgent | Drop_live | Drop_replay | Drop_urgent | Drop_evict

fun out_apply :: "(nat \<Rightarrow> bool) \<Rightarrow> out_state \<Rightarrow> out_act \<Rightarrow> out_state" where
  "out_apply orc s Own = (case outbound_step orc s of None \<Rightarrow> s | Some t \<Rightarrow> t)"
| "out_apply orc s (Push_live p) = s\<lparr>live_rx := snd (chan_try_send (live_rx s) p)\<rparr>"
| "out_apply orc s (Push_replay p) = s\<lparr>replay_rx := snd (chan_try_send (replay_rx s) p)\<rparr>"
| "out_apply orc s (Push_urgent p) = s\<lparr>urgent_rx := snd (chan_try_send (urgent_rx s) p)\<rparr>"
| "out_apply orc s Signal_evict = s\<lparr>evict_rx := snd (chan_try_send (evict_rx s) ())\<rparr>"
| "out_apply orc s Signal_shutdown = s\<lparr>shutdown_changed := True\<rparr>"
| "out_apply orc s Clone_replay = s\<lparr>replay_rx := chan_clone_sender (replay_rx s)\<rparr>"
| "out_apply orc s Clone_urgent = s\<lparr>urgent_rx := chan_clone_sender (urgent_rx s)\<rparr>"
| "out_apply orc s Drop_live = s\<lparr>live_rx := chan_drop_sender (live_rx s)\<rparr>"
| "out_apply orc s Drop_replay = s\<lparr>replay_rx := chan_drop_sender (replay_rx s)\<rparr>"
| "out_apply orc s Drop_urgent = s\<lparr>urgent_rx := chan_drop_sender (urgent_rx s)\<rparr>"
| "out_apply orc s Drop_evict = s\<lparr>evict_rx := chan_drop_sender (evict_rx s)\<rparr>"

fun out_exec :: "(nat \<Rightarrow> bool) \<Rightarrow> out_state \<Rightarrow> out_act list \<Rightarrow> out_state" where
  "out_exec orc s [] = s"
| "out_exec orc s (a # as) = out_exec orc (out_apply orc s a) as"

text \<open>The payloads the live or the replay channel accepts during a run, in order.\<close>

fun accepted :: "frame_src \<Rightarrow> out_state \<Rightarrow> out_act \<Rightarrow> bytes list" where
  "accepted From_live s (Push_live p) = (if chan_room (live_rx s) then [p] else [])"
| "accepted From_replay s (Push_replay p) = (if chan_room (replay_rx s) then [p] else [])"
| "accepted _ s _ = []"

fun accepted_all :: "(nat \<Rightarrow> bool) \<Rightarrow> frame_src \<Rightarrow> out_state \<Rightarrow> out_act list \<Rightarrow> bytes list" where
  "accepted_all orc src s [] = []"
| "accepted_all orc src s (a # as) = accepted src s a @ accepted_all orc src (out_apply orc s a) as"

section \<open>Order and completeness of what is written\<close>

definition rendered :: "bool \<Rightarrow> bytes list \<Rightarrow> ws_message list" where
  "rendered b ps = List.map_filter (\<lambda>p. bytes_to_ws_msg p b) ps"

definition sent :: "frame_src \<Rightarrow> out_state \<Rightarrow> ws_message list" where
  "sent src s = map snd (filter (\<lambda>f. fst f = src) (wire s))"

definition rx_queue :: "frame_src \<Rightarrow> out_state \<Rightarrow> bytes list" where
  "rx_queue src s =
     (case src of From_live \<Rightarrow> queue (live_rx s) | From_replay \<Rightarrow> queue (replay_rx s) | Control \<Rightarrow> [])"

text \<open>The places of the loop at which no frame of the channel has failed to be written.\<close>

definition reading :: "frame_src \<Rightarrow> out_pc \<Rightarrow> bool" where
  "reading src p \<longleftrightarrow>
     (case p of Select \<Rightarrow> True | Burst _ \<Rightarrow> True | Drain_replay \<Rightarrow> True | Drain_live \<Rightarrow> src = From_live
      | Going_away \<Rightarrow> False | Returned \<Rightarrow> False)"

definition flow :: "frame_src \<Rightarrow> bytes list \<Rightarrow> out_state \<Rightarrow> bool" where
  "flow src acc s \<longleftrightarrow>
     prefix (sent src s) (rendered (out_binary s) acc) \<and>
     (reading src (pc s) \<longrightarrow>
        rendered (out_binary s) acc = sent src s @ rendered (out_binary s) (rx_queue src s))"

lemma rendered_simps [simp]:
  "rendered b [] = []" "rendered b (xs @ ys) = rendered b xs @ rendered b ys"
  by (simp_all add: rendered_def map_filter_def)

lemma rendered_Cons: "rendered b (x # xs) = rendered b [x] @ rendered b xs"
  using rendered_simps(2) [of b "[x]" xs] by simp

lemma reading_simps [simp]:
  "reading src Select" "reading src (Burst k)" "reading src Drain_replay"
  "reading src Drain_live \<longleftrightarrow> src = From_live" "\<not> reading src Going_away" "\<not> reading src Returned"
  by (simp_all add: reading_def)

lemma forward_frame [simp]:
  "live_rx (snd (forward orc src p s)) = live_rx s" "replay_rx (snd (forward orc src p s)) = replay_rx s"
  "urgent_rx (snd (forward orc src p s)) = urgent_rx s" "evict_rx (snd (forward orc src p s)) = evict_rx s"
  "out_binary (snd (forward orc src p s)) = out_binary s" "pc (snd (forward orc src p s)) = pc s"
  "shutdown_changed (snd (forward orc src p s)) = shutdown_changed s"
  "disconnect_frame (snd (forward orc src p s)) = disconnect_frame s"
  "evict_open (snd (forward orc src p s)) = evict_open s" "urgent_open (snd (forward orc src p s)) = urgent_open s"
  "sink_closed (snd (forward orc src p s)) = sink_closed s"
  by (simp_all add: forward_def ws_send_def split: option.splits)

lemma forward_sent [simp]:
  "sent src' (snd (forward orc src p s)) =
     sent src' s @ (if src' = src \<and> fst (forward orc src p s) then rendered (out_binary s) [p] else [])"
  by (simp add: forward_def ws_send_def sent_def rendered_def map_filter_def split: option.splits)

lemma sent_upd [simp]:
  "sent src (s\<lparr>live_rx := c\<rparr>) = sent src s" "sent src (s\<lparr>replay_rx := c\<rparr>) = sent src s"
  "sent src (s\<lparr>urgent_rx := c\<rparr>) = sent src s" "sent src (s\<lparr>evict_rx := e\<rparr>) = sent src s"
  "sent src (s\<lparr>pc := p\<rparr>) = sent src s" "sent src (s\<lparr>sink_closed := x\<rparr>) = sent src s"
  "sent src (s\<lparr>evict_open := x\<rparr>) = sent src s" "sent src (s\<lparr>urgent_open := x\<rparr>) = sent src s"
  "sent src (s\<lparr>shutdown_changed := x\<rparr>) = sent src s"
  by (simp_all add: sent_def)

lemma return_frame [simp]:
  "sent src (close_and_return s) = sent src s" "pc (close_and_return s) = Returned"
  "out_binary (close_and_return s) = out_binary s" "sink_closed (close_and_return s)"
  "wire (close_and_return s) = wire s"
  "sent src (out_return s) = sent src s" "pc (out_return s) = Returned" "out_binary (out_return s) = out_binary s"
  by (simp_all add: close_and_return_def out_return_def)

lemma flow_Returned [simp]:
  "flow src acc (close_and_return s) \<longleftrightarrow> prefix (sent src s) (rendered (out_binary s) acc)"
  by (simp add: flow_def)

lemma flow_prefix: "flow src acc s \<Longrightarrow> prefix (sent src s) (rendered (out_binary s) acc)"
  by (simp add: flow_def)

lemma rx_queue_upd:
  "rx_queue From_live (s\<lparr>live_rx := c\<rparr>) = queue c" "rx_queue From_replay (s\<lparr>replay_rx := c\<rparr>) = queue c"
  "src \<noteq> From_live \<Longrightarrow> rx_queue src (s\<lparr>live_rx := c\<rparr>) = rx_queue src s"
  "src \<noteq> From_replay \<Longrightarrow> rx_queue src (s\<lparr>replay_rx := c\<rparr>) = rx_queue src s"
  by (cases src; simp add: rx_queue_def)+

text \<open>One payload taken from its channel and forwarded.\<close>

lemma flow_forward_live:
  assumes "flow src acc s" and "reading From_live (pc s)" and "queue (live_rx s) = p # queue c"
    and "fst (forward orc From_live p (s\<lparr>live_rx := c\<rparr>))"
  shows "flow src acc (snd (forward orc From_live p (s\<lparr>live_rx := c\<rparr>)))"
  using assms rendered_Cons [of "out_binary s" p "queue c"]
  by (cases src) (auto simp: flow_def rx_queue_def)

lemma flow_forward_replay:
  assumes "flow src acc s" and "reading From_replay (pc s)" and "queue (replay_rx s) = p # queue c"
    and "fst (forward orc From_replay p (s\<lparr>replay_rx := c\<rparr>))"
  shows "flow src acc (snd (forward orc From_replay p (s\<lparr>replay_rx := c\<rparr>)))"
  using assms rendered_Cons [of "out_binary s" p "queue c"]
  by (cases src) (auto simp: flow_def rx_queue_def)

lemma flow_pc:
  "flow src acc s \<Longrightarrow> (reading src p \<Longrightarrow> reading src (pc s)) \<Longrightarrow> flow src acc (s\<lparr>pc := p\<rparr>)"
  by (cases src) (auto simp: flow_def rx_queue_def)

lemma flow_fail_replay:
  "flow src acc s \<Longrightarrow> reading From_live (pc s) \<Longrightarrow> \<not> fst (forward orc From_replay p (s\<lparr>replay_rx := c\<rparr>)) \<Longrightarrow>
     flow src acc ((snd (forward orc From_replay p (s\<lparr>replay_rx := c\<rparr>)))\<lparr>pc := Drain_live\<rparr>)"
  by (cases src) (auto simp: flow_def rx_queue_def)

lemma flow_fail_live:
  "flow src acc s \<Longrightarrow> \<not> fst (forward orc From_live p (s\<lparr>live_rx := c\<rparr>)) \<Longrightarrow>
     flow src acc ((snd (forward orc From_live p (s\<lparr>live_rx := c\<rparr>)))\<lparr>pc := Going_away\<rparr>)"
  by (simp add: flow_def)

lemma chan_recv_Got: "fst (chan_recv c) = Got x \<Longrightarrow> queue c = x # queue (snd (chan_recv c))"
  by (auto simp: chan_recv_def split: list.splits if_splits)

lemma chan_try_recv_Some: "fst (chan_try_recv c) = Some x \<Longrightarrow> queue c = x # queue (snd (chan_try_recv c))"
  by (auto simp: chan_try_recv_def split: list.splits)

lemma flow_live_branch:
  "flow src acc s \<Longrightarrow> pc s = Select \<Longrightarrow> live_branch orc s = Some t \<Longrightarrow> flow src acc t"
  by (auto simp: live_branch_def split_beta Let_def flow_prefix
        split: prod.splits recv_result.splits if_splits
        dest: chan_recv_Got intro: flow_forward_live)

lemma flow_replay_branch:
  "flow src acc s \<Longrightarrow> pc s = Select \<Longrightarrow> replay_branch orc s = Some t \<Longrightarrow> flow src acc t"
  by (auto simp: replay_branch_def split_beta Let_def flow_prefix
        split: prod.splits recv_result.splits if_splits
        dest: chan_recv_Got intro!: flow_pc intro: flow_forward_replay flow_live_branch)

lemma flow_flags:
  "flow src acc (s\<lparr>evict_open := b\<rparr>) = flow src acc s" "flow src acc (s\<lparr>urgent_open := b\<rparr>) = flow src acc s"
  by (cases src; simp add: flow_def rx_queue_def)+

lemma flow_select_step:
  "flow src acc s \<Longrightarrow> src \<noteq> Control \<Longrightarrow> pc s = Select \<Longrightarrow> select_step orc s = Some t \<Longrightarrow> flow src acc t"
  by (auto simp: select_step_def urgent_branch_def split_beta Let_def flow_prefix flow_flags
        split: prod.splits recv_result.splits if_splits intro: flow_replay_branch flow_pc)

lemma flow_burst_step: "flow src acc s \<Longrightarrow> pc s = Burst k \<Longrightarrow> flow src acc (burst_step orc k s)"
  by (auto simp: burst_step_def split_beta Let_def flow_prefix split: prod.splits option.splits if_splits
        dest: chan_try_recv_Some intro!: flow_pc intro: flow_forward_replay)

lemma flow_drain_replay_step: "flow src acc s \<Longrightarrow> pc s = Drain_replay \<Longrightarrow> flow src acc (drain_replay_step orc s)"
  by (auto simp: drain_replay_step_def split_beta Let_def split: prod.splits option.splits if_splits
        dest: chan_try_recv_Some intro: flow_forward_replay flow_fail_replay flow_pc)

lemma flow_drain_live_step: "flow src acc s \<Longrightarrow> pc s = Drain_live \<Longrightarrow> flow src acc (drain_live_step orc s)"
  by (auto simp: drain_live_step_def split_beta Let_def split: prod.splits option.splits if_splits
        dest: chan_try_recv_Some intro: flow_forward_live flow_fail_live flow_pc)

lemma flow_going_away_step: "flow src acc s \<Longrightarrow> src \<noteq> Control \<Longrightarrow> flow src acc (going_away_step orc s)"
  by (auto simp: going_away_step_def flow_def ws_send_def) (auto simp: sent_def)

lemma flow_outbound_step:
  "flow src acc s \<Longrightarrow> src \<noteq> Control \<Longrightarrow> outbound_step orc s = Some t \<Longrightarrow> flow src acc t"
  by (auto simp: outbound_step_def flow_select_step flow_burst_step flow_drain_replay_step
        flow_drain_live_step flow_going_away_step split: out_pc.splits)

lemma queue_try_send: "queue (snd (chan_try_send c p)) = queue c @ (if chan_room c then [p] else [])"
  by (simp add: chan_try_send_def)

lemma flow_apply:
  assumes "flow src acc s" and "src \<noteq> Control"
  shows "flow src (acc @ accepted src s a) (out_apply orc s a)"
proof (cases a)
  case Own
  then show ?thesis
    using assms flow_outbound_step [OF assms] by (cases src) (auto split: option.splits)
qed (use assms in \<open>cases src; auto simp: flow_def rx_queue_def queue_try_send chan_clone_sender_def
       chan_drop_sender_def intro: prefix_order.trans\<close>)+

lemma out_binary_step: "outbound_step orc s = Some t \<Longrightarrow> out_binary t = out_binary s"
  by (auto simp: outbound_step_def select_step_def urgent_branch_def replay_branch_def live_branch_def
        burst_step_def drain_replay_step_def drain_live_step_def going_away_step_def ws_send_def split_beta Let_def
        split: out_pc.splits prod.splits recv_result.splits option.splits if_splits)

lemma out_binary_apply [simp]: "out_binary (out_apply orc s a) = out_binary s"
  by (cases a) (auto simp: out_binary_step split: option.splits)

lemma flow_exec:
  "flow src acc s \<Longrightarrow> src \<noteq> Control \<Longrightarrow> flow src (acc @ accepted_all orc src s as) (out_exec orc s as)"
proof (induction as arbitrary: s acc)
  case Nil
  then show ?case by simp
next
  case (Cons a as)
  from Cons.IH [OF flow_apply [OF Cons.prems, of a orc] Cons.prems(2)] show ?case by simp
qed

lemma out_binary_exec [simp]: "out_binary (out_exec orc s as) = out_binary s"
  by (induction as arbitrary: s) simp_all

section \<open>Eviction\<close>

text \<open>The steps the loop still takes before an eviction signal in its channel is served.\<close>

definition evict_rank :: "out_state \<Rightarrow> nat" where
  "evict_rank s = (case pc s of Burst k \<Rightarrow> k + 2 | Returned \<Rightarrow> 0 | _ \<Rightarrow> 1)"

definition evict_due :: "out_state \<Rightarrow> bool" where
  "evict_due s \<longleftrightarrow>
     (case pc s of Select \<Rightarrow> evict_open s \<and> queue (evict_rx s) \<noteq> []
      | Burst _ \<Rightarrow> evict_open s \<and> queue (evict_rx s) \<noteq> [] | Returned \<Rightarrow> sink_closed s | _ \<Rightarrow> False)"

lemma evict_due_own:
  assumes "evict_due s"
  shows "evict_due (out_apply orc s Own) \<and> evict_rank (out_apply orc s Own) \<le> evict_rank s - 1"
proof (cases "pc s")
  case Select
  with assms show ?thesis
    by (auto simp: evict_due_def evict_rank_def outbound_step_def select_step_def chan_recv_def split_beta
          split: list.splits)
next
  case (Burst k)
  with assms show ?thesis
    by (auto simp: evict_due_def evict_rank_def outbound_step_def burst_step_def split_beta Let_def
          split: option.splits prod.splits)
qed (use assms in \<open>auto simp: evict_due_def evict_rank_def outbound_step_def\<close>)

lemma evict_due_env:
  assumes "evict_due s" and "a \<noteq> Own"
  shows "evict_due (out_apply orc s a) \<and> evict_rank (out_apply orc s a) = evict_rank s"
  using assms
  by (cases a; cases "pc s")
     (auto simp: evict_due_def evict_rank_def queue_try_send chan_drop_sender_def)

lemma evict_due_exec:
  "evict_due s \<Longrightarrow> evict_due (out_exec orc s as) \<and> evict_rank (out_exec orc s as) \<le> evict_rank s - count_list as Own"
proof (induction as arbitrary: s)
  case Nil
  then show ?case by simp
next
  case (Cons a as)
  show ?case
  proof (cases "a = Own")
    case True
    with Cons.IH [of "out_apply orc s Own"] evict_due_own [OF Cons.prems, of orc] show ?thesis by auto
  next
    case False
    with Cons.IH [of "out_apply orc s a"] evict_due_env [OF Cons.prems False, of orc] show ?thesis by auto
  qed
qed

lemma evict_rank_0: "evict_rank s = 0 \<Longrightarrow> pc s = Returned"
  by (simp add: evict_rank_def split: out_pc.splits)

section \<open>Shutdown\<close>

lemma exec_append: "out_exec orc s (as @ bs) = out_exec orc (out_exec orc s as) bs"
  by (induction as arbitrary: s) simp_all

definition healthy :: "(nat \<Rightarrow> bool) \<Rightarrow> bool" where
  "healthy orc \<longleftrightarrow> (\<forall>i. orc i)"

lemma forward_healthy:
  "healthy orc \<Longrightarrow> fst (forward orc src p s)"
  "healthy orc \<Longrightarrow> wire (snd (forward orc src p s)) = wire s @ map (Pair src) (rendered (out_binary s) [p])"
  by (auto simp: healthy_def forward_def ws_send_def rendered_def map_filter_def split: option.splits)

lemma chan_try_recv_eqs:
  "queue c = [] \<Longrightarrow> chan_try_recv c = (None, c)"
  "queue c = p # ps \<Longrightarrow> chan_try_recv c = (Some p, c\<lparr>queue := ps\<rparr>)"
  by (simp_all add: chan_try_recv_def)

lemma drain_live_run:
  "healthy orc \<Longrightarrow> pc s = Drain_live \<Longrightarrow> queue (live_rx s) = ps \<Longrightarrow>
     \<exists>t. out_exec orc s (replicate (length ps + 1) Own) = t \<and> pc t = Going_away \<and> out_binary t = out_binary s \<and>
       wire t = wire s @ map (Pair From_live) (rendered (out_binary s) ps)"
proof (induction ps arbitrary: s)
  case Nil
  then show ?case by (simp add: outbound_step_def drain_live_step_def chan_try_recv_eqs)
next
  case (Cons p ps)
  let ?t = "snd (forward orc From_live p (s\<lparr>live_rx := (live_rx s)\<lparr>queue := ps\<rparr>\<rparr>))"
  have "out_apply orc s Own = ?t"
    using Cons.prems by (simp add: outbound_step_def drain_live_step_def chan_try_recv_eqs split_beta forward_healthy)
  with Cons.IH [of ?t] Cons.prems show ?case
    by (simp add: forward_healthy rendered_Cons [of _ p ps])
qed

lemma drain_replay_run:
  "healthy orc \<Longrightarrow> pc s = Drain_replay \<Longrightarrow> queue (replay_rx s) = ps \<Longrightarrow>
     \<exists>t. out_exec orc s (replicate (length ps + 1) Own) = t \<and> pc t = Drain_live \<and> out_binary t = out_binary s \<and>
       live_rx t = live_rx s \<and> wire t = wire s @ map (Pair From_replay) (rendered (out_binary s) ps)"
proof (induction ps arbitrary: s)
  case Nil
  then show ?case by (simp add: outbound_step_def drain_replay_step_def chan_try_recv_eqs)
next
  case (Cons p ps)
  let ?t = "snd (forward orc From_replay p (s\<lparr>replay_rx := (replay_rx s)\<lparr>queue := ps\<rparr>\<rparr>))"
  have "out_apply orc s Own = ?t"
    using Cons.prems by (simp add: outbound_step_def drain_replay_step_def chan_try_recv_eqs split_beta forward_healthy)
  with Cons.IH [of ?t] Cons.prems show ?case
    by (simp add: forward_healthy rendered_Cons [of _ p ps])
qed

definition nothing_urgent :: "out_state \<Rightarrow> bool" where
  "nothing_urgent s \<longleftrightarrow>
     (evict_open s \<longrightarrow> queue (evict_rx s) = [] \<and> senders (evict_rx s) \<noteq> 0) \<and>
     (urgent_open s \<longrightarrow> queue (urgent_rx s) = [] \<and> senders (urgent_rx s) \<noteq> 0)"

lemma shutdown_taken:
  "pc s = Select \<Longrightarrow> nothing_urgent s \<Longrightarrow> shutdown_changed s \<Longrightarrow> out_apply orc s Own = s\<lparr>pc := Drain_replay\<rparr>"
  by (simp add: outbound_step_def select_step_def urgent_branch_def nothing_urgent_def chan_recv_def)

text \<open>The loop is serving live frames: caught up, with nothing more urgent to do.\<close>

definition serving :: "out_state \<Rightarrow> bool" where
  "serving s \<longleftrightarrow> pc s = Select \<and> nothing_urgent s \<and> \<not> shutdown_changed s \<and>
     queue (replay_rx s) = [] \<and> senders (replay_rx s) \<noteq> 0"

lemma serving_select: "serving s \<Longrightarrow> outbound_step orc s = live_branch orc s"
  by (cases "evict_open s"; cases "urgent_open s")
     (simp_all add: serving_def nothing_urgent_def outbound_step_def select_step_def urgent_branch_def replay_branch_def chan_recv_def)

lemma live_run:
  "healthy orc \<Longrightarrow> serving s \<Longrightarrow> queue (live_rx s) = ps \<Longrightarrow>
     serving (out_exec orc s (replicate (length ps) Own)) \<and> queue (live_rx (out_exec orc s (replicate (length ps) Own))) = [] \<and>
     wire (out_exec orc s (replicate (length ps) Own)) = wire s @ map (Pair From_live) (rendered (out_binary s) ps)"
proof (induction ps arbitrary: s)
  case (Cons p ps)
  let ?t = "snd (forward orc From_live p (s\<lparr>live_rx := (live_rx s)\<lparr>queue := ps\<rparr>\<rparr>))"
  have "out_apply orc s Own = ?t"
    using Cons.prems(1,3) by (simp add: serving_select [OF Cons.prems(2)] live_branch_def chan_recv_def split_beta forward_healthy)
  moreover have "serving ?t" using Cons.prems(2) by (simp add: serving_def nothing_urgent_def)
  ultimately show ?case using Cons.IH [of ?t] Cons.prems by (simp add: forward_healthy rendered_Cons [of _ p ps])
qed simp

section \<open>A closed replay channel\<close>

text \<open>The state once the connection's handler has dropped its senders and no replay task is left.\<close>

definition abandoned :: "out_state \<Rightarrow> bool" where
  "abandoned s \<longleftrightarrow> pc s = Select \<and> \<not> shutdown_changed s \<and>
     queue (evict_rx s) = [] \<and> senders (evict_rx s) = 0 \<and>
     queue (urgent_rx s) = [] \<and> senders (urgent_rx s) = 0 \<and>
     queue (replay_rx s) = [] \<and> senders (replay_rx s) = 0 \<and> senders (live_rx s) = 0"

lemma abandoned_own:
  "abandoned s \<Longrightarrow> abandoned (out_apply orc s Own) \<and> wire (out_apply orc s Own) = wire s \<and>
     live_rx (out_apply orc s Own) = live_rx s"
  by (auto simp: abandoned_def outbound_step_def select_step_def urgent_branch_def replay_branch_def chan_recv_def)

lemma abandoned_exec:
  "abandoned s \<Longrightarrow> abandoned (out_exec orc s (replicate n Own)) \<and> wire (out_exec orc s (replicate n Own)) = wire s \<and>
     live_rx (out_exec orc s (replicate n Own)) = live_rx s"
proof (induction n arbitrary: s)
  case 0
  then show ?case by simp
next
  case (Suc n)
  from Suc.IH [of "out_apply orc s Own"] abandoned_own [OF Suc.prems, of orc] show ?case by simp
qed

lemma flow_init:
  "flow src (case src of From_live \<Rightarrow> queue live | From_replay \<Rightarrow> queue replay | Control \<Rightarrow> [])
     (outbound_init live replay urgent evict shut b frame)"
  by (cases src) (simp_all add: flow_def outbound_init_def sent_def rx_queue_def)

definition demo_chan :: "'a list \<Rightarrow> nat \<Rightarrow> 'a chan" where
  "demo_chan q n = \<lparr>queue = q, capacity = 4, senders = n, rx_alive = True\<rparr>"

lemma demo_chan_simps [simp]:
  "queue (demo_chan q n) = q" "senders (demo_chan q n) = n"
  by (simp_all add: demo_chan_def)

section \<open>Properties\<close>

text \<open>
  C8. Frames keep their order and none is lost or repeated. For every schedule of the loop and
  the tasks that feed it, and every pattern of failing sends, what the socket received from the
  live channel is a prefix of what that channel accepted, rendered for the protocol; as long
  as the loop is serving, what is missing is exactly what is still queued. The same holds of
  the replay channel.
\<close>

theorem outbound_in_order:
  assumes "s0 = outbound_init live replay urgent evict shut b frame" and "t = out_exec orc s0 as"
    and "all_live = queue live @ accepted_all orc From_live s0 as"
    and "all_replay = queue replay @ accepted_all orc From_replay s0 as"
  shows "prefix (sent From_live t) (rendered b all_live) \<and> prefix (sent From_replay t) (rendered b all_replay) \<and>
    (pc t = Select \<or> (\<exists>k. pc t = Burst k) \<longrightarrow>
       rendered b all_live = sent From_live t @ rendered b (queue (live_rx t)) \<and>
       rendered b all_replay = sent From_replay t @ rendered b (queue (replay_rx t)))"
proof -
  have b: "out_binary t = b" by (simp add: assms(1,2)) (simp add: outbound_init_def)
  have "flow From_live all_live t" "flow From_replay all_replay t"
    using flow_exec [OF flow_init [of From_live live replay urgent evict shut b frame], of orc as]
      flow_exec [OF flow_init [of From_replay live replay urgent evict shut b frame], of orc as]
    by (simp_all add: assms)
  then show ?thesis by (auto simp: flow_def b rx_queue_def)
qed

theorem outbound_in_order_witness:
  "let s0 = outbound_init (demo_chan [''w''] 1) (demo_chan [] 1) (demo_chan [] 1) (demo_chan [] 1) False True [];
       as = [Own, Push_live ''x'', Push_replay ''r'', Own]; t = out_exec (\<lambda>_. True) s0 as
   in pc t = Burst 511 \<and> sent From_live t = [Binary ''w''] \<and> sent From_replay t = [Binary ''r''] \<and>
      rendered True ([''w''] @ accepted_all (\<lambda>_. True) From_live s0 as) = sent From_live t @ rendered True (queue (live_rx t))"
proof -
  define s0 where "s0 = outbound_init (demo_chan [''w''] 1) (demo_chan [] 1) (demo_chan [] 1) (demo_chan [] 1) False True []"
  define as where "as = [Own, Push_live ''x'', Push_replay ''r'', Own]"
  define t where "t = out_exec (\<lambda>_. True) s0 as"
  have v: "pc t = Burst 511" "sent From_live t = [Binary ''w'']" "sent From_replay t = [Binary ''r'']"
    by (simp_all add: t_def as_def s0_def outbound_init_def outbound_step_def select_step_def urgent_branch_def
        replay_branch_def live_branch_def demo_chan_def chan_recv_def chan_try_send_def chan_room_def forward_def
        ws_send_def bytes_to_ws_msg_def sent_def OUTBOUND_REPLAY_BURST_def)
  have "rendered True ([''w''] @ accepted_all (\<lambda>_. True) From_live s0 as) = sent From_live t @ rendered True (queue (live_rx t))"
    using outbound_in_order [OF s0_def t_def refl refl] v(1) by auto
  with v show ?thesis by (simp only: Let_def s0_def [symmetric] as_def [symmetric] t_def [symmetric] simp_thms)
qed



text \<open>
  C23. Eviction is served promptly. Once the eviction signal is in its channel while the loop
  is serving, the loop returns with the socket closed within 513 of its own steps (one burst
  of replay frames and one select), whatever the other tasks do meanwhile and however many
  frames are queued.
\<close>

theorem eviction_bounded:
  assumes "evict_open s" and "queue (evict_rx s) \<noteq> []"
    and "pc s = Select \<or> (\<exists>k < OUTBOUND_REPLAY_BURST. pc s = Burst k)"
    and "count_list as Own \<ge> OUTBOUND_REPLAY_BURST + 1"
  shows "pc (out_exec orc s as) = Returned \<and> sink_closed (out_exec orc s as)"
proof -
  have due: "evict_due s" using assms(1-3) by (auto simp: evict_due_def)
  have "evict_rank s \<le> OUTBOUND_REPLAY_BURST + 1"
    using assms(3) by (auto simp: evict_rank_def OUTBOUND_REPLAY_BURST_def)
  with evict_due_exec [OF due, of orc as] assms(4) have "evict_rank (out_exec orc s as) = 0" by simp
  then have "pc (out_exec orc s as) = Returned" by (rule evict_rank_0)
  with evict_due_exec [OF due, of orc as] show ?thesis by (simp add: evict_due_def)
qed

theorem eviction_bounded_witness:
  "let s = outbound_init (demo_chan [''a'', ''b''] 1) (demo_chan [''r''] 1) (demo_chan [] 1) (demo_chan [()] 0) False True [];
       t = out_exec (\<lambda>_. True) s (replicate 513 Own) in pc t = Returned \<and> sink_closed t"
  unfolding Let_def
  by (rule eviction_bounded) (simp_all add: outbound_init_def OUTBOUND_REPLAY_BURST_def count_list_eq_length_filter)



text \<open>
  C25. The loop does not end with its connection. Once the handler has dropped its senders and no
  replay task is left, the closed replay channel is always ready and is polled before the live
  channel, so without a shutdown the loop steps for ever: it never returns, never notices that the
  live channel is closed, and never writes the frames still queued there.
\<close>

theorem abandoned_loop_never_returns:
  assumes "abandoned s"
  shows "outbound_step orc (out_exec orc s (replicate n Own)) \<noteq> None \<and>
    pc (out_exec orc s (replicate n Own)) = Select \<and> wire (out_exec orc s (replicate n Own)) = wire s \<and>
    queue (live_rx (out_exec orc s (replicate n Own))) = queue (live_rx s)"
  using abandoned_exec [OF assms, of orc n]
  by (auto simp: abandoned_def outbound_step_def select_step_def urgent_branch_def replay_branch_def chan_recv_def)

theorem abandoned_loop_never_returns_witness:
  "let s = outbound_init (demo_chan [''a''] 0) (demo_chan [] 0) (demo_chan [] 0) (demo_chan [] 0) False True [];
       t = out_exec (\<lambda>_. True) s (replicate 1000 Own)
   in outbound_step (\<lambda>_. True) t \<noteq> None \<and> pc t = Select \<and> wire t = wire s \<and> queue (live_rx t) = queue (live_rx s)"
  unfolding Let_def
  by (rule abandoned_loop_never_returns) (simp add: abandoned_def outbound_init_def)

end
