(* ===== verification/Auth.thy ===== *)
theory Auth
  imports Protocol
begin

text \<open>
  Token verification, stream authorisation and key rotation (\<open>src/src/auth/jwt.rs\<close>,
  \<open>src/src/auth/key_watcher.rs\<close>). The \<open>jsonwebtoken\<close> crate is a parameter: a record with
  its PEM parser and its token decoder over an abstract type of keys. The calls to the NATS
  client are parameters too: the result of each call is an argument. A lock carries its value and its
  poison flag, which no code here sets, since nothing panics under a guard.
\<close>

section \<open>Claims and verifier\<close>

record claims =
  sub_claim :: str
  allowed_streams :: "str list"
  exp_claim :: "64 word"
  iat_claim :: "64 word"

datatype algorithm = RS256 | Other_algorithm str

record validation =
  val_algorithm :: algorithm
  required_spec_claims :: "str list"

datatype jwt_error_kind = ExpiredSignature | InvalidSignature | InvalidAlgorithm | Other_error_kind str

record 'key jwt_libs =
  decoding_key_from_rsa_pem :: "bytes \<Rightarrow> str + 'key"
  jwt_decode :: "str \<Rightarrow> 'key \<Rightarrow> validation \<Rightarrow> jwt_error_kind + claims"

record 'a rw_lock =
  guarded :: 'a
  poisoned :: bool

definition rw_lock_new :: "'a \<Rightarrow> 'a rw_lock" where
  "rw_lock_new x = \<lparr>guarded = x, poisoned = False\<rparr>"

record 'key jwt_verifier =
  vkey :: "'key rw_lock"
  vpem :: "bytes rw_lock"
  vvalidation :: validation

definition from_rsa_pem :: "'key jwt_libs \<Rightarrow> bytes \<Rightarrow> gateway_error + 'key jwt_verifier" where
  "from_rsa_pem libs pem =
     (case decoding_key_from_rsa_pem libs pem of
        Inl e \<Rightarrow> Inl (Auth (''invalid RSA PEM: '' @ e))
      | Inr key \<Rightarrow> Inr \<lparr>vkey = rw_lock_new key, vpem = rw_lock_new pem,
           vvalidation = \<lparr>val_algorithm = RS256, required_spec_claims = [''exp'', ''sub'', ''iat'']\<rparr>\<rparr>)"

definition current_pem :: "'key jwt_verifier \<Rightarrow> bytes" where
  "current_pem v = (if poisoned (vpem v) then [] else guarded (vpem v))"

fun auth_failure_reason :: "jwt_error_kind \<Rightarrow> str" where
  "auth_failure_reason ExpiredSignature = ''token expired''"
| "auth_failure_reason InvalidSignature = ''invalid signature''"
| "auth_failure_reason InvalidAlgorithm = ''invalid algorithm''"
| "auth_failure_reason (Other_error_kind _) = ''auth failed''"

definition verify :: "'key jwt_libs \<Rightarrow> 'key jwt_verifier \<Rightarrow> str \<Rightarrow> gateway_error + claims" where
  "verify libs v token =
     (if poisoned (vkey v) then Inl (Auth ''lock poisoned'')
      else case jwt_decode libs token (guarded (vkey v)) (vvalidation v) of
             Inl e \<Rightarrow> Inl (Auth (auth_failure_reason e))
           | Inr c \<Rightarrow> Inr c)"

text \<open>
  \<open>update_key\<close> holds the write guard of the key to its end, so it is two atomic parts: the key
  is replaced, and then, with the guard still held, the PEM.
\<close>

definition set_key :: "'key jwt_verifier \<Rightarrow> 'key \<Rightarrow> 'key jwt_verifier" where
  "set_key v k = v\<lparr>vkey := (vkey v)\<lparr>guarded := k\<rparr>\<rparr>"

definition set_pem :: "'key jwt_verifier \<Rightarrow> bytes \<Rightarrow> 'key jwt_verifier" where
  "set_pem v pem = (if poisoned (vpem v) then v else v\<lparr>vpem := (vpem v)\<lparr>guarded := pem\<rparr>\<rparr>)"

definition update_key :: "'key jwt_libs \<Rightarrow> 'key jwt_verifier \<Rightarrow> bytes \<Rightarrow> (gateway_error + unit) \<times> 'key jwt_verifier" where
  "update_key libs v pem =
     (case decoding_key_from_rsa_pem libs pem of
        Inl e \<Rightarrow> (Inl (Auth (''invalid RSA PEM: '' @ e)), v)
      | Inr new_key \<Rightarrow>
          if poisoned (vkey v) then (Inl (Auth ''lock poisoned''), v)
          else (Inr (), set_pem (set_key v new_key) pem))"

section \<open>Stream authorisation\<close>

definition pattern_matches :: "str \<Rightarrow> str \<Rightarrow> bool" where
  "pattern_matches pat stream =
     (if pat = ''*'' then True
      else case strip_suffix_char CHR ''*'' pat of
             Some prefix \<Rightarrow> starts_with stream prefix
           | None \<Rightarrow> pat = stream)"

definition is_allowed :: "str list \<Rightarrow> str \<Rightarrow> bool" where
  "is_allowed allowed stream \<longleftrightarrow> list_ex (\<lambda>pat. pattern_matches pat stream) allowed"

section \<open>Key watcher\<close>

text \<open>The items of the watch stream are errors or entries; the loop ends with the stream.\<close>

fun watch_loop :: "'key jwt_libs \<Rightarrow> 'key jwt_verifier \<Rightarrow> (str + bytes) list \<Rightarrow> 'key jwt_verifier" where
  "watch_loop libs v [] = v"
| "watch_loop libs v (Inr entry # evs) = watch_loop libs (snd (update_key libs v entry)) evs"
| "watch_loop libs v (Inl e # evs) = watch_loop libs v evs"

record kv_outcomes =
  kv_connect :: "str + unit"
  kv_open :: "str + unit"
  kv_get :: "str + bytes option"
  kv_watch :: "str + (str + bytes) list"

definition load_and_watch_from_nats ::
  "'key jwt_libs \<Rightarrow> kv_outcomes \<Rightarrow> gateway_error + ('key jwt_verifier \<times> (str + bytes) list)" where
  "load_and_watch_from_nats libs nats =
     (case kv_connect nats of
        Inl e \<Rightarrow> Inl (Auth (''NATS connect for key watcher failed: '' @ e))
      | Inr _ \<Rightarrow> (case kv_open nats of
          Inl e \<Rightarrow> Inl (Auth (''failed to open TC_PUBKEYS bucket: '' @ e))
        | Inr _ \<Rightarrow> (case kv_get nats of
            Inl e \<Rightarrow> Inl (Auth (''failed to fetch rails_public_key from NATS KV: '' @ e))
          | Inr None \<Rightarrow> Inl (Auth ''TC_PUBKEYS.rails_public_key not found in NATS KV'')
          | Inr (Some pem) \<Rightarrow> (case from_rsa_pem libs pem of
              Inl e \<Rightarrow> Inl e
            | Inr v \<Rightarrow> (case kv_watch nats of
                Inl e \<Rightarrow> Inl (Auth (''failed to watch TC_PUBKEYS: '' @ e))
              | Inr watcher \<Rightarrow> Inr (v, watcher))))))"

definition start_nats_key_watcher :: "kv_outcomes \<Rightarrow> gateway_error + (str + bytes) list" where
  "start_nats_key_watcher nats =
     (case kv_connect nats of
        Inl e \<Rightarrow> Inl (Auth (''NATS connect for key watcher failed: '' @ e))
      | Inr _ \<Rightarrow> (case kv_open nats of
          Inl e \<Rightarrow> Inl (Auth (''failed to open TC_PUBKEYS bucket: '' @ e))
        | Inr _ \<Rightarrow> (case kv_watch nats of
            Inl e \<Rightarrow> Inl (Auth (''failed to watch TC_PUBKEYS: '' @ e))
          | Inr watcher \<Rightarrow> Inr watcher)))"

section \<open>Rotation under concurrency\<close>

text \<open>
  The verifier as the threads see it: the guard of the key is free, or an updater holds it
  between its two writes. A reader of the key needs the guard free; a reader of the PEM does not.
\<close>

record 'key key_sys =
  kverifier :: "'key jwt_verifier"
  key_guard :: "bytes option"

inductive key_step :: "'key jwt_libs \<Rightarrow> 'key key_sys \<Rightarrow> 'key key_sys \<Rightarrow> bool" for libs where
  update_begin: "key_guard s = None \<Longrightarrow> decoding_key_from_rsa_pem libs pem = Inr k \<Longrightarrow>
     \<not> poisoned (vkey (kverifier s)) \<Longrightarrow>
     key_step libs s \<lparr>kverifier = set_key (kverifier s) k, key_guard = Some pem\<rparr>"
| update_end: "key_guard s = Some pem \<Longrightarrow>
     key_step libs s \<lparr>kverifier = set_pem (kverifier s) pem, key_guard = None\<rparr>"

inductive key_reach :: "'key jwt_libs \<Rightarrow> bytes \<Rightarrow> 'key key_sys \<Rightarrow> bool" for libs pem0 where
  key_start: "from_rsa_pem libs pem0 = Inr v \<Longrightarrow> key_reach libs pem0 \<lparr>kverifier = v, key_guard = None\<rparr>"
| key_next: "key_reach libs pem0 s \<Longrightarrow> key_step libs s t \<Longrightarrow> key_reach libs pem0 t"

text \<open>The verifier is what \<open>from_rsa_pem\<close> builds from its own PEM, or from the PEM about to be written.\<close>

definition fresh_for :: "'key jwt_libs \<Rightarrow> 'key jwt_verifier \<Rightarrow> bytes \<Rightarrow> bool" where
  "fresh_for libs v pem \<longleftrightarrow> \<not> poisoned (vpem v) \<and> from_rsa_pem libs pem = Inr (set_pem v pem)"

definition key_inv :: "'key jwt_libs \<Rightarrow> 'key key_sys \<Rightarrow> bool" where
  "key_inv libs s \<longleftrightarrow>
     fresh_for libs (kverifier s) (case key_guard s of None \<Rightarrow> guarded (vpem (kverifier s)) | Some pem \<Rightarrow> pem)"

lemma set_pem_set_pem [simp]: "set_pem (set_pem v p) q = set_pem v q"
  by (simp add: set_pem_def)

lemma set_pem_same [simp]: "set_pem v (guarded (vpem v)) = v"
  by (simp add: set_pem_def)

lemma set_pem_frame [simp]:
  "poisoned (vpem (set_pem v p)) = poisoned (vpem v)" "vkey (set_pem v p) = vkey v"
  "poisoned (vpem (set_key v k)) = poisoned (vpem v)" "poisoned (vkey (set_key v k)) = poisoned (vkey v)"
  by (simp_all add: set_pem_def set_key_def)

lemma from_rsa_pem_Inr:
  "from_rsa_pem libs pem = Inr v \<longleftrightarrow>
     (\<exists>k. decoding_key_from_rsa_pem libs pem = Inr k \<and>
        v = \<lparr>vkey = rw_lock_new k, vpem = rw_lock_new pem,
             vvalidation = \<lparr>val_algorithm = RS256, required_spec_claims = [''exp'', ''sub'', ''iat'']\<rparr>\<rparr>)"
  by (auto simp: from_rsa_pem_def split: sum.splits)

lemma fresh_for_start: "from_rsa_pem libs pem = Inr v \<Longrightarrow> fresh_for libs v pem \<and> guarded (vpem v) = pem"
  by (auto simp: fresh_for_def from_rsa_pem_Inr set_pem_def rw_lock_new_def)

lemma fresh_for_update:
  "fresh_for libs v p \<Longrightarrow> decoding_key_from_rsa_pem libs pem = Inr k \<Longrightarrow> fresh_for libs (set_key v k) pem"
  by (cases v; cases "vkey v"; cases "vpem v")
     (auto simp: fresh_for_def from_rsa_pem_Inr set_pem_def set_key_def rw_lock_new_def)

lemma key_inv_reach [inv_intros]: "key_reach libs pem0 s \<Longrightarrow> key_inv libs s"
proof (induction rule: key_reach.induct)
  case (key_start v)
  then show ?case using fresh_for_start [of libs pem0 v] by (simp add: key_inv_def)
next
  case (key_next s t)
  from key_next.hyps(2) key_next.IH show ?case
  proof (cases rule: key_step.cases)
    case (update_begin pem k)
    then show ?thesis
      using key_next.IH fresh_for_update [of libs "kverifier s" _ pem k] by (auto simp: key_inv_def)
  next
    case (update_end pem)
    then show ?thesis using key_next.IH by (auto simp: key_inv_def fresh_for_def set_pem_def)
  qed
qed

lemma fresh_for_self: "fresh_for libs v (guarded (vpem v)) \<Longrightarrow> from_rsa_pem libs (current_pem v) = Inr v"
  by (simp add: fresh_for_def current_pem_def)

lemma update_key_Inl: "decoding_key_from_rsa_pem libs pem = Inl e \<Longrightarrow> snd (update_key libs v pem) = v"
  by (simp add: update_key_def)

lemma update_key_Inr:
  "from_rsa_pem libs p = Inr v \<Longrightarrow> decoding_key_from_rsa_pem libs pem = Inr k \<Longrightarrow>
     fst (update_key libs v pem) = Inr () \<and> from_rsa_pem libs pem = Inr (snd (update_key libs v pem))"
  by (auto simp: update_key_def from_rsa_pem_Inr set_pem_def set_key_def rw_lock_new_def)

definition is_pem :: "'key jwt_libs \<Rightarrow> bytes \<Rightarrow> bool" where
  "is_pem libs pem \<longleftrightarrow> (case decoding_key_from_rsa_pem libs pem of Inr _ \<Rightarrow> True | Inl _ \<Rightarrow> False)"

fun valid_pems :: "'key jwt_libs \<Rightarrow> (str + bytes) list \<Rightarrow> bytes list" where
  "valid_pems libs [] = []"
| "valid_pems libs (Inr pem # evs) = (if is_pem libs pem then pem # valid_pems libs evs else valid_pems libs evs)"
| "valid_pems libs (Inl e # evs) = valid_pems libs evs"

section \<open>Authorisation patterns\<close>

text \<open>The streams a pattern stands for: all extensions of what precedes a final star, or itself.\<close>

definition pattern_streams :: "str \<Rightarrow> str set" where
  "pattern_streams pat =
     (if pat \<noteq> [] \<and> last pat = CHR ''*'' then {butlast pat @ w |w. True} else {pat})"

lemma pattern_matches_iff: "pattern_matches pat s \<longleftrightarrow> s \<in> pattern_streams pat"
  by (auto simp: pattern_matches_def pattern_streams_def strip_suffix_char_def starts_with_iff)

section \<open>Properties\<close>

text \<open>
  C31. Stream authorisation is membership in the language of the patterns: a stream is
  allowed exactly when some pattern of the token either ends in a star and the stream extends
  the part before that star, or is the stream itself.
\<close>

theorem is_allowed_iff: "is_allowed allowed s \<longleftrightarrow> s \<in> (\<Union>pat \<in> set allowed. pattern_streams pat)"
  by (simp add: is_allowed_def list_ex_iff pattern_matches_iff)

text \<open>
  C29. Key and PEM never disagree. Whatever updates run and interleave, when no update holds
  the key's guard (so whenever a verification can read the key) the verifier is the one that
  \<open>from_rsa_pem\<close> builds from the PEM the server publishes.
\<close>

theorem key_matches_published_pem:
  assumes "key_reach libs pem0 s" and "key_guard s = None"
  shows "from_rsa_pem libs (current_pem (kverifier s)) = Inr (kverifier s)"
  using key_inv_reach [OF assms(1)] assms(2) by (simp add: key_inv_def fresh_for_self)

definition demo_jwt :: "nat jwt_libs" where
  "demo_jwt = \<lparr>decoding_key_from_rsa_pem = (\<lambda>pem. if pem = [] then Inl ''empty'' else Inr (length pem)),
     jwt_decode = (\<lambda>t k v. Inl InvalidSignature)\<rparr>"

lemma demo_key_reach:
  "\<exists>v. key_reach demo_jwt ''A'' \<lparr>kverifier = set_pem v ''BB'', key_guard = None\<rparr> \<and>
     current_pem (set_pem v ''BB'') = ''BB''"
proof -
  obtain v where v: "from_rsa_pem demo_jwt ''A'' = Inr v" and p: "\<not> poisoned (vkey v)" "\<not> poisoned (vpem v)"
    by (simp add: from_rsa_pem_def demo_jwt_def rw_lock_new_def)
  have "key_step demo_jwt \<lparr>kverifier = v, key_guard = None\<rparr> \<lparr>kverifier = set_key v 2, key_guard = Some ''BB''\<rparr>"
    using p update_begin [of "\<lparr>kverifier = v, key_guard = None\<rparr>" demo_jwt "''BB''" 2] by (simp add: demo_jwt_def)
  moreover have "key_step demo_jwt \<lparr>kverifier = set_key v 2, key_guard = Some ''BB''\<rparr>
      \<lparr>kverifier = set_pem (set_key v 2) ''BB'', key_guard = None\<rparr>"
    using update_end [of "\<lparr>kverifier = set_key v 2, key_guard = Some ''BB''\<rparr>" "''BB''" demo_jwt] by simp
  ultimately have "key_reach demo_jwt ''A'' \<lparr>kverifier = set_pem (set_key v 2) ''BB'', key_guard = None\<rparr>"
    using key_start [OF v] by (blast intro: key_next)
  moreover have "current_pem (set_pem (set_key v 2) ''BB'') = ''BB''"
    using p by (simp add: current_pem_def set_pem_def set_key_def)
  ultimately show ?thesis by blast
qed

theorem key_matches_published_pem_witness:
  "\<exists>v. current_pem v = ''BB'' \<and> from_rsa_pem demo_jwt (current_pem v) = Inr v"
  using demo_key_reach key_matches_published_pem by fastforce

text \<open>
  Hot reload keeps the last good key. After any sequence of watch items the verifier is
  the one built from the last entry that is a valid PEM, or the initial one if there is
  none: errors, deletions and malformed entries never lose or corrupt the key.
\<close>

theorem watch_loop_last_valid:
  assumes "from_rsa_pem libs pem0 = Inr v"
  shows "from_rsa_pem libs (last (pem0 # valid_pems libs evs)) = Inr (watch_loop libs v evs)"
  using assms
proof (induction evs arbitrary: v pem0)
  case Nil
  then show ?case by simp
next
  case (Cons e evs)
  show ?case
  proof (cases e)
    case (Inl m)
    then show ?thesis using Cons by simp
  next
    case (Inr pem)
    then show ?thesis
      using Cons.IH [of pem0 v] Cons.IH [of pem] Cons.prems update_key_Inr [OF Cons.prems, of pem]
      by (cases "decoding_key_from_rsa_pem libs pem") (simp_all add: is_pem_def update_key_Inl)
  qed
qed

theorem watch_loop_last_valid_witness:
  "\<exists>v. from_rsa_pem demo_jwt ''A'' = Inr v \<and>
     from_rsa_pem demo_jwt ''CCC'' = Inr (watch_loop demo_jwt v [Inr ''BB'', Inl ''lost'', Inr ''CCC'', Inr []])"
proof -
  obtain v where v: "from_rsa_pem demo_jwt ''A'' = Inr v"
    by (simp add: from_rsa_pem_def demo_jwt_def)
  from watch_loop_last_valid [OF v, of "[Inr ''BB'', Inl ''lost'', Inr ''CCC'', Inr []]"]
  show ?thesis using v by (auto simp: is_pem_def demo_jwt_def)
qed

end
