(* ===== verification/Presence.thy ===== *)
theory Presence
  imports Protocol
begin

text \<open>
  Presence entries and their heartbeats (\<open>src/src/presence/mod.rs\<close>). The key-value store is a
  service: the model is the sequence of commands sent to it, each a put or a delete of
  a key, whose results the code only logs. A heartbeat task is running from \<open>start_heartbeat\<close> until its
  handle is dropped, and writes its key whenever its timer fires.
\<close>

definition PRESENCE_BUCKET :: str where
  "PRESENCE_BUCKET = ''TC_PRESENCE''"

definition PRESENCE_TTL_SECS :: nat where
  "PRESENCE_TTL_SECS = 30"

definition HEARTBEAT_INTERVAL_SECS :: nat where
  "HEARTBEAT_INTERVAL_SECS = 25"

datatype kv_command = Kv_put str bytes | Kv_delete str

record presence_manager =
  kv_log :: "kv_command list"
  hb_tasks :: "nat \<rightharpoonup> str \<times> str"
  hb_next :: nat

definition presence_key :: "str \<Rightarrow> str \<Rightarrow> str" where
  "presence_key stream user_id = stream @ ''.'' @ user_id"

text \<open>\<open>connect\<close> opens the bucket, or creates it with the time to live; the results of the calls are arguments.\<close>

record kv_config =
  bucket :: str
  history :: nat
  max_age_secs :: nat

datatype kv_open_result = Opened | Created kv_config

definition presence_connect :: "str + unit \<Rightarrow> str + unit \<Rightarrow> str + unit \<Rightarrow> gateway_error + kv_open_result" where
  "presence_connect connected get_kv create_kv =
     (case connected of
        Inl e \<Rightarrow> Inl (JetStreamError (''NATS connect for presence failed: '' @ e))
      | Inr _ \<Rightarrow> (case get_kv of
          Inr _ \<Rightarrow> Inr Opened
        | Inl _ \<Rightarrow> (case create_kv of
            Inl e \<Rightarrow> Inl (JetStreamError (''failed to create TC_PRESENCE bucket: '' @ e))
          | Inr _ \<Rightarrow> Inr (Created \<lparr>bucket = PRESENCE_BUCKET, history = 1, max_age_secs = PRESENCE_TTL_SECS\<rparr>))))"

definition presence_new :: presence_manager where
  "presence_new = \<lparr>kv_log = [], hb_tasks = Map.empty, hb_next = 0\<rparr>"

definition presence_put :: "presence_manager \<Rightarrow> str \<Rightarrow> str \<Rightarrow> presence_manager" where
  "presence_put pm stream user_id = pm\<lparr>kv_log := kv_log pm @ [Kv_put (presence_key stream user_id) ''1'']\<rparr>"

definition presence_delete :: "presence_manager \<Rightarrow> str \<Rightarrow> str \<Rightarrow> presence_manager" where
  "presence_delete pm stream user_id = pm\<lparr>kv_log := kv_log pm @ [Kv_delete (presence_key stream user_id)]\<rparr>"

definition start_heartbeat :: "presence_manager \<Rightarrow> str \<Rightarrow> str \<Rightarrow> nat \<times> presence_manager" where
  "start_heartbeat pm stream user_id =
     (hb_next pm, pm\<lparr>hb_tasks := (hb_tasks pm)(hb_next pm \<mapsto> (stream, user_id)), hb_next := Suc (hb_next pm)\<rparr>)"

definition heartbeat_tick :: "presence_manager \<Rightarrow> nat \<Rightarrow> presence_manager" where
  "heartbeat_tick pm h =
     (case hb_tasks pm h of None \<Rightarrow> pm | Some (stream, user_id) \<Rightarrow> presence_put pm stream user_id)"

definition drop_heartbeat :: "presence_manager \<Rightarrow> nat \<Rightarrow> presence_manager" where
  "drop_heartbeat pm h = pm\<lparr>hb_tasks := (hb_tasks pm)(h := None)\<rparr>"

text \<open>The seconds at which a key first written at second \<open>t0\<close> has been written, up to \<open>n\<close> refreshes.\<close>

definition refresh_times :: "nat \<Rightarrow> nat \<Rightarrow> nat list" where
  "refresh_times t0 n = map (\<lambda>k. t0 + k * HEARTBEAT_INTERVAL_SECS) [0..<Suc n]"

lemma presence_frame [simp]:
  "hb_tasks (presence_put pm s u) = hb_tasks pm" "hb_tasks (presence_delete pm s u) = hb_tasks pm"
  "hb_next (presence_put pm s u) = hb_next pm" "hb_next (presence_delete pm s u) = hb_next pm"
  "kv_log (drop_heartbeat pm h) = kv_log pm" "hb_next (drop_heartbeat pm h) = hb_next pm"
  "hb_tasks (drop_heartbeat pm h) = (hb_tasks pm)(h := None)"
  "kv_log (presence_put pm s u) = kv_log pm @ [Kv_put (presence_key s u) ''1'']"
  "kv_log (presence_delete pm s u) = kv_log pm @ [Kv_delete (presence_key s u)]"
  by (simp_all add: presence_put_def presence_delete_def drop_heartbeat_def)

lemma start_heartbeat_frame [simp]:
  "fst (start_heartbeat pm s u) = hb_next pm" "kv_log (snd (start_heartbeat pm s u)) = kv_log pm"
  "hb_tasks (snd (start_heartbeat pm s u)) = (hb_tasks pm)(hb_next pm \<mapsto> (s, u))"
  "hb_next (snd (start_heartbeat pm s u)) = Suc (hb_next pm)"
  by (simp_all add: start_heartbeat_def)

definition hb_fresh :: "presence_manager \<Rightarrow> bool" where
  "hb_fresh pm \<longleftrightarrow> (\<forall>h. hb_tasks pm h \<noteq> None \<longrightarrow> h < hb_next pm)"

lemma hb_fresh_next: "hb_fresh pm \<Longrightarrow> hb_tasks pm (hb_next pm) = None"
  by (metis hb_fresh_def less_irrefl)

lemma split_first_eq:
  "c \<notin> set u \<Longrightarrow> c \<notin> set v \<Longrightarrow> u @ c # x = v @ c # y \<Longrightarrow> u = v \<and> x = y"
proof (induction u arbitrary: v)
  case Nil
  then show ?case by (cases v) auto
next
  case (Cons a u)
  then show ?case by (cases v) auto
qed

lemma split_last_dot:
  assumes "xs @ CHR ''.'' # u = ys @ CHR ''.'' # v" and "CHR ''.'' \<notin> set u" and "CHR ''.'' \<notin> set v"
  shows "xs = ys \<and> u = v"
proof -
  have "rev u @ CHR ''.'' # rev xs = rev v @ CHR ''.'' # rev ys"
    using arg_cong [OF assms(1), of rev] by simp
  then have "rev u = rev v \<and> rev xs = rev ys" using assms(2,3) by (intro split_first_eq) simp_all
  then show ?thesis by simp
qed

section \<open>Properties\<close>

text \<open>
  Presence keys identify their subscription as long as user ids have no dot: then two
  entries share a key only if they are for the same stream and the same user.
\<close>

theorem presence_key_inj:
  assumes "CHR ''.'' \<notin> set u" and "CHR ''.'' \<notin> set v"
  shows "presence_key s u = presence_key t v \<longleftrightarrow> s = t \<and> u = v"
  using split_last_dot [OF _ assms, of s t] by (auto simp: presence_key_def)

theorem presence_key_inj_witness:
  "presence_key ''chat.room'' ''user_1'' = presence_key ''chat'' ''user_2'' \<longleftrightarrow> ''chat.room'' = ''chat'' \<and> ''user_1'' = ''user_2''"
  by (rule presence_key_inj) simp_all

text \<open>With dots in user ids different subscriptions collide.\<close>

lemma presence_key_collides: "presence_key ''a'' ''b.c'' = presence_key ''a.b'' ''c''"
  by (simp add: presence_key_def)

text \<open>
  A key deleted while its heartbeat still runs can be written once more: deletion is final only after the handle is dropped.
\<close>

lemma heartbeat_revives_deleted_key:
  assumes "hb_tasks pm h = Some (stream, user_id)"
  shows "kv_log (heartbeat_tick (presence_delete pm stream user_id) h) =
      kv_log pm @ [Kv_delete (presence_key stream user_id), Kv_put (presence_key stream user_id) ''1'']"
    and "kv_log (presence_delete (heartbeat_tick (drop_heartbeat pm h) h) stream user_id) =
      kv_log pm @ [Kv_delete (presence_key stream user_id)]"
  using assms by (simp_all add: heartbeat_tick_def)

text \<open>
  The heartbeat outpaces the expiry: every second from the first write to the moment the last of
  \<open>n\<close> refreshes expires is covered by a write at most the time to live before it, and no second
  after that is.
\<close>

theorem heartbeat_covers:
  "(\<exists>p \<in> set (refresh_times t0 n). p \<le> t \<and> t < p + PRESENCE_TTL_SECS) \<longleftrightarrow>
     t0 \<le> t \<and> t < t0 + n * HEARTBEAT_INTERVAL_SECS + PRESENCE_TTL_SECS"
proof
  assume "\<exists>p \<in> set (refresh_times t0 n). p \<le> t \<and> t < p + PRESENCE_TTL_SECS"
  then obtain k where "k \<le> n" "t0 + k * 25 \<le> t" "t < t0 + k * 25 + 30"
    by (auto simp: refresh_times_def HEARTBEAT_INTERVAL_SECS_def PRESENCE_TTL_SECS_def)
  then show "t0 \<le> t \<and> t < t0 + n * HEARTBEAT_INTERVAL_SECS + PRESENCE_TTL_SECS"
    by (simp add: HEARTBEAT_INTERVAL_SECS_def PRESENCE_TTL_SECS_def)
next
  assume t: "t0 \<le> t \<and> t < t0 + n * HEARTBEAT_INTERVAL_SECS + PRESENCE_TTL_SECS"
  define k where "k = min n ((t - t0) div 25)"
  have "(t - t0) div 25 * 25 \<le> t - t0" "t - t0 < (t - t0) div 25 * 25 + 25" by simp_all
  with t have "k \<le> n" "t0 + k * 25 \<le> t" "t < t0 + k * 25 + 30"
    by (auto simp: k_def min_def HEARTBEAT_INTERVAL_SECS_def PRESENCE_TTL_SECS_def)
  moreover have "t0 + k * 25 \<in> set (refresh_times t0 n)" using \<open>k \<le> n\<close>
    by (auto simp: refresh_times_def HEARTBEAT_INTERVAL_SECS_def simp del: upt_Suc)
  ultimately show "\<exists>p \<in> set (refresh_times t0 n). p \<le> t \<and> t < p + PRESENCE_TTL_SECS"
    by (auto simp: PRESENCE_TTL_SECS_def)
qed

theorem heartbeat_covers_witness:
  "(\<exists>p \<in> set (refresh_times 100 2). p \<le> 170 \<and> 170 < p + PRESENCE_TTL_SECS) \<and>
   \<not> (\<exists>p \<in> set (refresh_times 100 2). p \<le> 180 \<and> 180 < p + PRESENCE_TTL_SECS)"
  unfolding heartbeat_covers by (simp add: PRESENCE_TTL_SECS_def HEARTBEAT_INTERVAL_SECS_def)

end
