(* ===== verification/Limiter.thy ===== *)
theory Limiter
  imports Prelude "HOL-Library.Multiset"
begin

text \<open>
  The per-IP connection limiter of \<open>src/src/connection/limiter.rs\<close>.
  \<open>counts\<close> is the \<open>DashMap\<close>; each operation that the code performs under one
  entry guard is one definition, so \<open>release\<close> is the composition of its guarded
  decrement and its later conditional removal, and the two can be interleaved with the
  operations of other connections (\<open>lim_step\<close>).
\<close>

section \<open>State and operations\<close>

datatype ip_addr = V4 "32 word" | V6 "128 word"

record connection_limiter =
  counts :: "ip_addr \<rightharpoonup> u64"
  max_per_ip :: u64

definition limiter_new :: "u64 \<Rightarrow> connection_limiter" where
  "limiter_new m = \<lparr>counts = Map.empty, max_per_ip = m\<rparr>"

definition try_acquire :: "connection_limiter \<Rightarrow> ip_addr \<Rightarrow> bool \<times> connection_limiter" where
  "try_acquire l ip =
     (let entry = (case counts l ip of None \<Rightarrow> 0 | Some n \<Rightarrow> n);
          l1 = l\<lparr>counts := (counts l)(ip \<mapsto> entry)\<rparr>
      in if entry \<ge> max_per_ip l then (False, l1)
         else (True, l1\<lparr>counts := (counts l1)(ip \<mapsto> entry + 1)\<rparr>))"

definition release_dec :: "connection_limiter \<Rightarrow> ip_addr \<Rightarrow> bool \<times> connection_limiter" where
  "release_dec l ip =
     (case counts l ip of
        None \<Rightarrow> (False, l)
      | Some n \<Rightarrow>
          let n' = u64_saturating_sub n 1
          in (n' = 0, l\<lparr>counts := (counts l)(ip \<mapsto> n')\<rparr>))"

definition release_cleanup :: "connection_limiter \<Rightarrow> ip_addr \<Rightarrow> connection_limiter" where
  "release_cleanup l ip =
     (case counts l ip of
        None \<Rightarrow> l
      | Some n \<Rightarrow> if n = 0 then l\<lparr>counts := (counts l)(ip := None)\<rparr> else l)"

definition release :: "connection_limiter \<Rightarrow> ip_addr \<Rightarrow> connection_limiter" where
  "release l ip =
     (let (should_remove, l1) = release_dec l ip
      in if should_remove then release_cleanup l1 ip else l1)"

definition count_for :: "connection_limiter \<Rightarrow> ip_addr \<Rightarrow> u64" where
  "count_for l ip = (case counts l ip of None \<Rightarrow> 0 | Some n \<Rightarrow> n)"

section \<open>Slot pools: the contract a client of the limiter relies on\<close>

datatype 'k slot_op = Acquire 'k | Give_back 'k

fun run_slots :: "('s \<Rightarrow> 'k \<Rightarrow> bool \<times> 's) \<Rightarrow> ('s \<Rightarrow> 'k \<Rightarrow> 's) \<Rightarrow> 's \<Rightarrow> 'k slot_op list \<Rightarrow> 's" where
  "run_slots acq rel s [] = s"
| "run_slots acq rel s (Acquire k # ops) = run_slots acq rel (snd (acq s k)) ops"
| "run_slots acq rel s (Give_back k # ops) = run_slots acq rel (rel s k) ops"

fun acquire_many :: "('s \<Rightarrow> 'k \<Rightarrow> bool \<times> 's) \<Rightarrow> 's \<Rightarrow> 'k \<Rightarrow> nat \<Rightarrow> nat \<times> 's" where
  "acquire_many acq s k 0 = (0, s)"
| "acquire_many acq s k (Suc n) =
     (let (ok, s1) = acq s k; (granted, s2) = acquire_many acq s1 k n
      in ((if ok then Suc granted else granted), s2))"

locale slot_pool =
  fixes acquire :: "'s \<Rightarrow> 'k \<Rightarrow> bool \<times> 's"
    and give_back :: "'s \<Rightarrow> 'k \<Rightarrow> 's"
    and used :: "'s \<Rightarrow> 'k \<Rightarrow> nat"
    and slots :: "'s \<Rightarrow> nat"
  assumes granted: "acquire s k = (True, s') \<Longrightarrow> used s k < slots s \<and> used s' = (used s)(k := Suc (used s k))"
    and refused: "acquire s k = (False, s') \<Longrightarrow> slots s \<le> used s k \<and> used s' = used s"
    and acquire_slots: "slots (snd (acquire s k)) = slots s"
    and give_back_used: "used (give_back s k) = (used s)(k := used s k - 1)"
    and give_back_slots: "slots (give_back s k) = slots s"
begin

lemma acquire_iff: "fst (acquire s k) \<longleftrightarrow> used s k < slots s"
proof (cases "acquire s k")
  case (Pair ok s')
  then show ?thesis by (cases ok) (auto dest: granted refused)
qed

lemma acquire_used:
  "used (snd (acquire s k)) = (if used s k < slots s then (used s)(k := Suc (used s k)) else used s)"
proof (cases "acquire s k")
  case (Pair ok s')
  then show ?thesis by (cases ok) (auto dest: granted refused)
qed

lemma acquire_give_back: "fst (acquire s k) \<Longrightarrow> used (give_back (snd (acquire s k)) k) = used s"
  by (simp add: give_back_used acquire_used acquire_iff)

lemma run_slots_keeps: "slots (run_slots acquire give_back s ops) = slots s"
proof (induction ops arbitrary: s)
  case (Cons op ops)
  then show ?case by (cases op) (simp_all add: acquire_slots give_back_slots)
qed simp

lemma run_slots_within:
  "\<forall>k. used s k \<le> slots s \<Longrightarrow> used (run_slots acquire give_back s ops) k \<le> slots s"
proof (induction ops arbitrary: s)
  case Nil
  then show ?case by simp
next
  case (Cons op ops)
  show ?case
  proof (cases op)
    case (Acquire k')
    with Cons.prems have "\<forall>k. used (snd (acquire s k')) k \<le> slots (snd (acquire s k'))"
      by (auto simp: acquire_used acquire_slots)
    with Cons.IH Acquire show ?thesis by (fastforce simp: acquire_slots)
  next
    case (Give_back k')
    with Cons.prems have "\<forall>k. used (give_back s k') k \<le> slots (give_back s k')"
      by (auto simp: give_back_used give_back_slots intro: diff_le_self [THEN order_trans])
    with Cons.IH Give_back show ?thesis by (fastforce simp: give_back_slots)
  qed
qed

lemma acquire_many_granted:
  "fst (acquire_many acquire s k n) = min n (slots s - used s k)"
proof (induction n arbitrary: s)
  case 0
  then show ?case by simp
next
  case (Suc n)
  then show ?case
    by (auto simp: split_beta acquire_iff acquire_used acquire_slots)
qed

end

lemma release_count: "count_for (release l ip) = (count_for l)(ip := u64_saturating_sub (count_for l ip) 1)"
  by (auto simp: release_def release_dec_def release_cleanup_def count_for_def fun_eq_iff
      u64_saturating_sub_def Let_def split: option.splits)

interpretation lim: slot_pool try_acquire release "\<lambda>l ip. unat (count_for l ip)" "\<lambda>l. unat (max_per_ip l)"
proof unfold_locales
  fix s k s'
  show "try_acquire s k = (True, s') \<Longrightarrow>
      unat (count_for s k) < unat (max_per_ip s) \<and>
      (\<lambda>ip. unat (count_for s' ip)) = (\<lambda>ip. unat (count_for s ip))(k := Suc (unat (count_for s k)))"
    by (auto simp: try_acquire_def Let_def count_for_def fun_eq_iff word_less_nat_alt not_le
        unat_u64_inc_less split: if_splits option.splits)
  show "try_acquire s k = (False, s') \<Longrightarrow>
      unat (max_per_ip s) \<le> unat (count_for s k) \<and>
      (\<lambda>ip. unat (count_for s' ip)) = (\<lambda>ip. unat (count_for s ip))"
    by (auto simp: try_acquire_def Let_def count_for_def fun_eq_iff word_le_nat_alt
        split: if_splits option.splits)
  show "unat (max_per_ip (snd (try_acquire s k))) = unat (max_per_ip s)"
    by (simp add: try_acquire_def Let_def)
  show "(\<lambda>ip. unat (count_for (release s k) ip)) =
      (\<lambda>ip. unat (count_for s ip))(k := unat (count_for s k) - 1)"
    by (auto simp: release_count unat_saturating_sub fun_eq_iff)
  show "unat (max_per_ip (release s k)) = unat (max_per_ip s)"
    by (simp add: release_def release_dec_def release_cleanup_def Let_def split: option.splits)
qed

section \<open>Interleaved connections\<close>

text \<open>
  \<open>held\<close> counts the slots handed out and not yet given back; \<open>pending\<close> holds the
  addresses for which some task has run the decrement of \<open>release\<close> and found zero, but
  has not yet run the conditional removal. A task calls \<open>release\<close> once per granted
  slot, so the decrement is enabled only while a slot is held.
\<close>

record lim_sys =
  lim :: connection_limiter
  held :: "ip_addr \<Rightarrow> nat"
  pending :: "ip_addr multiset"

definition lim_init :: "u64 \<Rightarrow> lim_sys" where
  "lim_init m = \<lparr>lim = limiter_new m, held = (\<lambda>_. 0), pending = {#}\<rparr>"

inductive lim_step :: "lim_sys \<Rightarrow> lim_sys \<Rightarrow> bool" where
  step_granted: "try_acquire (lim s) ip = (True, l') \<Longrightarrow>
    lim_step s (s\<lparr>lim := l', held := (held s)(ip := Suc (held s ip))\<rparr>)"
| step_refused: "try_acquire (lim s) ip = (False, l') \<Longrightarrow> lim_step s (s\<lparr>lim := l'\<rparr>)"
| step_release: "0 < held s ip \<Longrightarrow> release_dec (lim s) ip = (zero, l') \<Longrightarrow>
    lim_step s (s\<lparr>lim := l', held := (held s)(ip := held s ip - 1),
                  pending := (if zero then add_mset ip (pending s) else pending s)\<rparr>)"
| step_cleanup: "ip \<in># pending s \<Longrightarrow>
    lim_step s (s\<lparr>lim := release_cleanup (lim s) ip, pending := pending s - {#ip#}\<rparr>)"

inductive lim_reach :: "u64 \<Rightarrow> lim_sys \<Rightarrow> bool" for m where
  lim_start: "lim_reach m (lim_init m)"
| lim_next: "lim_reach m s \<Longrightarrow> lim_step s t \<Longrightarrow> lim_reach m t"

definition lim_inv :: "u64 \<Rightarrow> lim_sys \<Rightarrow> bool" where
  "lim_inv m s \<longleftrightarrow> max_per_ip (lim s) = m \<and>
     (\<forall>ip. unat (count_for (lim s) ip) = held s ip \<and> held s ip \<le> unat m) \<and>
     (0 < m \<longrightarrow> (\<forall>ip. counts (lim s) ip = Some 0 \<longrightarrow> ip \<in># pending s))"

lemma lim_inv_init: "lim_inv m (lim_init m)"
  by (simp add: lim_inv_def lim_init_def limiter_new_def count_for_def)

lemma try_acquire_entry:
  "try_acquire l ip = (ok, l') \<Longrightarrow> 0 < max_per_ip l \<Longrightarrow> counts l' ip' = Some 0 \<Longrightarrow> counts l ip' = Some 0"
  by (auto simp: try_acquire_def Let_def not_le dest: u64_inc_neq_0 split: if_splits option.splits)

lemma release_dec_count:
  "release_dec l ip = (z, l') \<Longrightarrow>
     max_per_ip l' = max_per_ip l \<and>
     count_for l' = (count_for l)(ip := u64_saturating_sub (count_for l ip) 1)"
  by (auto simp: release_dec_def Let_def count_for_def fun_eq_iff u64_saturating_sub_def
      split: option.splits)

lemma release_dec_entry:
  "release_dec l ip = (z, l') \<Longrightarrow> counts l' ip' = Some 0 \<Longrightarrow> counts l ip' = Some 0 \<or> (z \<and> ip' = ip)"
  by (auto simp: release_dec_def Let_def split: option.splits if_splits)

lemma release_cleanup_count: "count_for (release_cleanup l ip) = count_for l"
  "max_per_ip (release_cleanup l ip) = max_per_ip l"
  by (auto simp: release_cleanup_def count_for_def fun_eq_iff split: option.splits)

lemma release_cleanup_entry:
  "counts (release_cleanup l ip) ip' = Some 0 \<Longrightarrow> counts l ip' = Some 0 \<and> ip' \<noteq> ip"
  by (auto simp: release_cleanup_def split: option.splits if_splits)

lemma lim_inv_step_granted:
  "try_acquire (lim s) ip = (True, l') \<Longrightarrow> lim_inv m s \<Longrightarrow>
     lim_inv m (s\<lparr>lim := l', held := (held s)(ip := Suc (held s ip))\<rparr>)"
proof -
  assume acq: "try_acquire (lim s) ip = (True, l')" and inv: "lim_inv m s"
  from acq have mx: "max_per_ip l' = max_per_ip (lim s)"
    by (auto simp: try_acquire_def Let_def split: if_splits)
  from lim.granted [OF acq] have lt: "unat (count_for (lim s) ip) < unat (max_per_ip (lim s))"
    and upd: "\<And>x. unat (count_for l' x) = (if x = ip then Suc (unat (count_for (lim s) ip)) else unat (count_for (lim s) x))"
    by (auto simp: fun_eq_iff)
  from inv lt mx upd try_acquire_entry [OF acq] show ?thesis
    by (auto simp: lim_inv_def)
qed

lemma lim_inv_step_refused:
  "try_acquire (lim s) ip = (False, l') \<Longrightarrow> lim_inv m s \<Longrightarrow> lim_inv m (s\<lparr>lim := l'\<rparr>)"
proof -
  assume acq: "try_acquire (lim s) ip = (False, l')" and inv: "lim_inv m s"
  from acq have mx: "max_per_ip l' = max_per_ip (lim s)"
    by (auto simp: try_acquire_def Let_def split: if_splits)
  from lim.refused [OF acq] have "\<And>x. unat (count_for l' x) = unat (count_for (lim s) x)"
    by (auto simp: fun_eq_iff)
  with inv mx try_acquire_entry [OF acq] show ?thesis
    by (auto simp: lim_inv_def)
qed

lemma lim_inv_step_release:
  "release_dec (lim s) ip = (zero, l') \<Longrightarrow> lim_inv m s \<Longrightarrow>
     lim_inv m (s\<lparr>lim := l', held := (held s)(ip := held s ip - 1),
                  pending := (if zero then add_mset ip (pending s) else pending s)\<rparr>)"
proof -
  assume rel: "release_dec (lim s) ip = (zero, l')" and inv: "lim_inv m s"
  from release_dec_count [OF rel] have mx: "max_per_ip l' = max_per_ip (lim s)"
    and cnt: "\<And>x. unat (count_for l' x) = (if x = ip then unat (count_for (lim s) ip) - 1 else unat (count_for (lim s) x))"
    by (auto simp: unat_saturating_sub)
  from inv have "held s x - 1 \<le> unat m" for x
    by (meson lim_inv_def diff_le_self order_trans)
  with inv mx cnt show ?thesis
    by (auto simp: lim_inv_def dest: release_dec_entry [OF rel])
qed

lemma lim_inv_step_cleanup:
  "lim_inv m s \<Longrightarrow> lim_inv m (s\<lparr>lim := release_cleanup (lim s) ip, pending := pending s - {#ip#}\<rparr>)"
  by (auto simp: lim_inv_def release_cleanup_count in_diff_count count_greater_zero_iff
      dest!: release_cleanup_entry)

lemma lim_step_inv: "lim_step s t \<Longrightarrow> lim_inv m s \<Longrightarrow> lim_inv m t"
  by (induction rule: lim_step.induct)
    (blast intro: lim_inv_step_granted lim_inv_step_refused lim_inv_step_release lim_inv_step_cleanup)+

lemma lim_reach_inv: "lim_reach m s \<Longrightarrow> lim_inv m s"
  by (induction rule: lim_reach.induct) (auto intro: lim_inv_init lim_step_inv)

section \<open>Properties\<close>


lemma lim_reach_one: "lim_reach 2 \<lparr>lim = \<lparr>counts = [V4 7 \<mapsto> 1], max_per_ip = 2\<rparr>, held = (\<lambda>_. 0)(V4 7 := 1), pending = {#}\<rparr>"
proof -
  have "lim_step (lim_init 2) ((lim_init 2)\<lparr>lim := \<lparr>counts = [V4 7 \<mapsto> 1], max_per_ip = 2\<rparr>,
      held := (held (lim_init 2))(V4 7 := Suc (held (lim_init 2) (V4 7)))\<rparr>)"
    by (rule step_granted) (simp add: lim_init_def limiter_new_def try_acquire_def Let_def)
  from lim_next [OF lim_start this] show ?thesis by (simp add: lim_init_def)
qed


text \<open>
  A burst of \<open>n\<close> attempts from one address is granted exactly as many times as there
  are free slots, whatever the state of the other addresses.
\<close>

theorem limiter_burst_granted:
  "fst (acquire_many try_acquire l ip n) = min n (unat (max_per_ip l) - unat (count_for l ip))"
  by (rule lim.acquire_many_granted)

text \<open>
  Giving back a granted slot restores every count, and the address's entry is removed
  from the map when it was absent before.
\<close>

theorem limiter_acquire_release_roundtrip:
  assumes "fst (try_acquire l ip)"
  shows "count_for (release (snd (try_acquire l ip)) ip) = count_for l \<and>
         (counts l ip = None \<longrightarrow> release (snd (try_acquire l ip)) ip = l)"
proof -
  have "unat (count_for (release (snd (try_acquire l ip)) ip) x) = unat (count_for l x)" for x
    using lim.acquire_give_back [OF assms] by (simp add: fun_eq_iff)
  moreover have "counts l ip = None \<longrightarrow> release (snd (try_acquire l ip)) ip = l"
    using assms by (auto simp: try_acquire_def release_def release_dec_def release_cleanup_def
        Let_def u64_saturating_sub_def fun_upd_idem split: if_splits)
  ultimately show ?thesis by (auto simp: fun_eq_iff word_unat_eq_iff)
qed

theorem limiter_acquire_release_roundtrip_witness:
  "fst (try_acquire (limiter_new 1) (V4 9)) \<and>
   release (snd (try_acquire (limiter_new 1) (V4 9))) (V4 9) = limiter_new 1"
proof -
  have h: "fst (try_acquire (limiter_new 1) (V4 9))"
    by (simp add: try_acquire_def limiter_new_def)
  show ?thesis using h limiter_acquire_release_roundtrip [OF h] by (simp add: limiter_new_def)
qed

text \<open>
  With a maximum of zero every attempt is refused, yet each refused address keeps a zero
  entry in the map: nothing ever removes it, since a refused connection does not call
  \<open>release\<close>.
\<close>

theorem limiter_zero_max_keeps_entries:
  "max_per_ip l = 0 \<Longrightarrow> fst (try_acquire l ip) = False \<and>
     dom (counts (snd (try_acquire l ip))) = insert ip (dom (counts l))"
  by (simp add: try_acquire_def Let_def)

theorem limiter_zero_max_keeps_entries_witness:
  "dom (counts (snd (try_acquire (limiter_new 0) (V4 9)))) = {V4 9}"
  using limiter_zero_max_keeps_entries [of "limiter_new 0" "V4 9"] by (simp add: limiter_new_def)

end
