(* ===== verification/Config.thy ===== *)
theory Config
  imports Rust_Std
begin

text \<open>
  The configuration (\<open>src/src/config.rs\<close>): the replay enforcement phases, the
  configuration record with its defaults, and the parser of the per-stream rate overrides.
  The hash map that the parser collects into is an association list with distinct keys.
\<close>

datatype replay_enforcement = Compat | SoftEnforce | HardEnforce

definition requires_hello_first :: "replay_enforcement \<Rightarrow> bool" where
  "requires_hello_first e = (case e of SoftEnforce \<Rightarrow> True | HardEnforce \<Rightarrow> True | _ \<Rightarrow> False)"

definition rejects_non_replay_subscribe :: "replay_enforcement \<Rightarrow> bool" where
  "rejects_non_replay_subscribe e = (case e of HardEnforce \<Rightarrow> True | _ \<Rightarrow> False)"

record config =
  port :: "16 word"
  nats_url :: str
  node_id :: str
  ping_interval_secs :: u64
  max_connections_per_ip :: u64
  ws_channel_capacity :: nat
  ws_replay_channel_capacity :: nat
  jwt_public_key_path :: "str option"
  max_ack_pending :: i64
  nats_stream_replicas :: nat
  replay_enforcement :: replay_enforcement
  max_replay_concurrency :: nat
  stream_rate_limit_rps :: u64
  stream_rate_limit_burst :: u64
  stream_rate_overrides :: str

text \<open>The default of every option; the generated node identifier is an argument.\<close>

definition config_default :: "str \<Rightarrow> config" where
  "config_default default_node_id =
     \<lparr>port = 9292, nats_url = ''nats://localhost:4222'', node_id = default_node_id,
      ping_interval_secs = 30, max_connections_per_ip = 10, ws_channel_capacity = 4096,
      ws_replay_channel_capacity = 4096, jwt_public_key_path = None, max_ack_pending = 10000,
      nats_stream_replicas = 1, replay_enforcement = Compat, max_replay_concurrency = 1000,
      stream_rate_limit_rps = 0, stream_rate_limit_burst = 0, stream_rate_overrides = ''''\<rparr>"

definition default_node_id :: "str \<Rightarrow> str" where
  "default_node_id uuid_simple = ''node_'' @ uuid_simple"

definition parse_override_entry :: "str \<Rightarrow> (str \<times> (u64 \<times> u64)) option" where
  "parse_override_entry entry =
     (case split_once CHR ''='' entry of
        None \<Rightarrow> None
      | Some (name, rest) \<Rightarrow>
          (case split_once CHR '':'' rest of
             None \<Rightarrow> None
           | Some (rps_str, burst_str) \<Rightarrow>
               (case parse_u64 (trim rps_str) of
                  None \<Rightarrow> None
                | Some rps \<Rightarrow>
                    (case parse_u64 (trim burst_str) of
                       None \<Rightarrow> None
                     | Some burst \<Rightarrow> Some (trim name, (rps, burst))))))"

definition parse_stream_rate_overrides :: "config \<Rightarrow> (str, u64 \<times> u64) hmap" where
  "parse_stream_rate_overrides cfg =
     (if stream_rate_overrides cfg = [] then []
      else fold (\<lambda>(name, v) m. hm_insert name v m)
             (List.map_filter parse_override_entry (split_char CHR '';'' (stream_rate_overrides cfg))) [])"

section \<open>Rendering overrides\<close>

definition render_override :: "str \<times> (u64 \<times> u64) \<Rightarrow> str" where
  "render_override e =
     (case e of (name, (rps, burst)) \<Rightarrow>
        name @ CHR ''='' # show_nat (unat rps) @ CHR '':'' # show_nat (unat burst))"

definition render_overrides :: "(str \<times> (u64 \<times> u64)) list \<Rightarrow> str" where
  "render_overrides es = join_char CHR '';'' (map render_override es)"

text \<open>A stream name that survives the trimming and the separators.\<close>

definition plain_name :: "str \<Rightarrow> bool" where
  "plain_name n \<longleftrightarrow> CHR ''='' \<notin> set n \<and> CHR '';'' \<notin> set n \<and> trim n = n"

lemma strip_any_None: "\<forall>w\<in>set ws. w \<noteq> [] \<and> hd w \<noteq> c \<Longrightarrow> strip_any ws (c # cs) = None"
  by (induction ws) (auto simp: strip_prefix_def starts_with_iff Cons_eq_append_conv split: option.splits)

lemma ws_not_digit:
  "c \<in> set decimal_digits \<Longrightarrow> \<forall>w\<in>set ws_seqs. w \<noteq> [] \<and> hd w \<noteq> c \<and> hd (rev w) \<noteq> c"
proof -
  have "list_all (\<lambda>c. list_all (\<lambda>w. w \<noteq> [] \<and> hd w \<noteq> c \<and> hd (rev w) \<noteq> c) ws_seqs) decimal_digits"
    by code_simp
  then show "c \<in> set decimal_digits \<Longrightarrow> ?thesis" unfolding list_all_iff by blast
qed

lemma trim_show_nat [simp]: "trim (show_nat n) = show_nat n"
proof (rule trim_id)
  obtain c cs where c: "show_nat n = c # cs" using show_nat_nonempty [of n] by (cases "show_nat n") auto
  then have "c \<in> set decimal_digits" using show_nat_chars [of n] by (metis list.set_intros(1) subsetD)
  from ws_not_digit [OF this] have "\<forall>w\<in>set ws_seqs. w \<noteq> [] \<and> hd w \<noteq> c" by blast
  then show "strip_any ws_seqs (show_nat n) = None" unfolding c by (rule strip_any_None)
  obtain d ds where d: "rev (show_nat n) = d # ds" using show_nat_nonempty [of n] by (cases "rev (show_nat n)") auto
  then have "d \<in> set decimal_digits" using show_nat_chars [of n] by (metis list.set_intros(1) set_rev subsetD)
  from ws_not_digit [OF this] have "\<forall>w\<in>set (map rev ws_seqs). w \<noteq> [] \<and> hd w \<noteq> d"
    unfolding set_map by blast
  then show "strip_any (map rev ws_seqs) (rev (show_nat n)) = None" unfolding d by (rule strip_any_None)
qed

lemma show_nat_no_sep: "CHR '':'' \<notin> set (show_nat n)" "CHR '';'' \<notin> set (show_nat n)"
proof -
  have "CHR '':'' \<notin> set decimal_digits" "CHR '';'' \<notin> set decimal_digits"
    by (simp_all add: decimal_digits_def)
  then show "CHR '':'' \<notin> set (show_nat n)" "CHR '';'' \<notin> set (show_nat n)"
    using show_nat_chars [of n] by blast+
qed

lemma parse_u64_unat: "parse_u64 (show_nat (unat (x :: u64))) = Some x"
  using parse_u64_show_nat [of "unat x"] unat_u64_bound [of x] by simp

lemma parse_render_override: "plain_name (fst e) \<Longrightarrow> parse_override_entry (render_override e) = Some e"
  by (cases e) (simp add: parse_override_entry_def render_override_def plain_name_def split_once_Some
      show_nat_no_sep parse_u64_unat)

lemma map_of_fold_insert: "map_of (fold (\<lambda>(k, v) m. hm_insert k v m) es m) = map_of m ++ map_of (rev es)"
  by (induction es arbitrary: m) (auto simp: map_of_hm_insert map_add_def fun_eq_iff split: option.splits)

lemma hm_ok_fold_insert: "hm_ok m \<Longrightarrow> hm_ok (fold (\<lambda>(k, v) m. hm_insert k v m) es m)"
  by (induction es arbitrary: m) auto

section \<open>Properties\<close>

text \<open>
  Parsing the rendered form of any list of overrides gives back the map they define (the
  last entry of a name wins), with distinct keys, for names free of the separators and of
  surrounding whitespace and for every pair of 64-bit rate and burst.
\<close>

theorem overrides_roundtrip:
  assumes "es \<noteq> []" and "\<forall>e\<in>set es. plain_name (fst e)"
    and "stream_rate_overrides cfg = render_overrides es"
  shows "map_of (parse_stream_rate_overrides cfg) = map_of (rev es) \<and>
         hm_ok (parse_stream_rate_overrides cfg)"
proof -
  have sep: "\<forall>x\<in>set (map render_override es). CHR '';'' \<notin> set x"
    using assms(2) by (auto simp: render_override_def plain_name_def show_nat_no_sep)
  have "map render_override es \<noteq> []" using assms(1) by simp
  from split_char_join [OF this sep]
  have split: "split_char CHR '';'' (render_overrides es) = map render_override es"
    by (simp add: render_overrides_def)
  have "List.map_filter parse_override_entry (map render_override es) = es"
    using assms(2) by (induction es) (auto simp: parse_render_override map_filter_simps)
  moreover have "render_overrides es \<noteq> []"
    using assms(1) by (cases es rule: remdups_adj.cases) (auto simp: render_overrides_def render_override_def)
  ultimately have "parse_stream_rate_overrides cfg = fold (\<lambda>(name, v) m. hm_insert name v m) es []"
    using assms(3) split by (simp add: parse_stream_rate_overrides_def)
  then show ?thesis by (simp add: map_of_fold_insert hm_ok_fold_insert)
qed

theorem overrides_roundtrip_witness:
  "map_of (parse_stream_rate_overrides
     ((config_default ''n'')\<lparr>stream_rate_overrides := ''alerts=100:200;hv=5000:0''\<rparr>)) =
   map_of (rev [(''alerts'', (100, 200)), (''hv'', (5000, 0))])"
proof -
  let ?es = "[(''alerts'', (100, 200)), (''hv'', (5000, 0))] :: (str \<times> u64 \<times> u64) list"
  let ?cfg = "(config_default ''n'')\<lparr>stream_rate_overrides := ''alerts=100:200;hv=5000:0''\<rparr>"
  have "?es \<noteq> []" by simp
  moreover have "trim ''alerts'' = ''alerts''" by (rule trim_id; code_simp)
  moreover have "trim ''hv'' = ''hv''" by (rule trim_id; code_simp)
  ultimately have "\<forall>e\<in>set ?es. plain_name (fst e)" by (simp add: plain_name_def)
  have "show_nat 100 = ''100''" "show_nat 200 = ''200''" "show_nat 5000 = ''5000''" "show_nat 0 = ''0''"
    by (simp_all add: show_nat.simps rust_simps)
  then have "stream_rate_overrides ?cfg = render_overrides ?es"
    by (simp add: render_overrides_def render_override_def)
  from overrides_roundtrip [OF \<open>?es \<noteq> []\<close> \<open>\<forall>e\<in>set ?es. plain_name (fst e)\<close> this] show ?thesis by blast
qed

text \<open>
  An entry without an equals sign or a colon, or whose numbers do not parse, is skipped
  and leaves the entries around it unchanged.
\<close>

theorem overrides_skip_malformed:
  assumes "CHR '';'' \<notin> set bad" and "parse_override_entry bad = None"
    and "rest \<noteq> []"
    and "stream_rate_overrides cfg = bad @ CHR '';'' # rest"
  shows "parse_stream_rate_overrides cfg = parse_stream_rate_overrides (cfg\<lparr>stream_rate_overrides := rest\<rparr>)"
  using assms by (simp add: parse_stream_rate_overrides_def split_char_append map_filter_simps)

theorem overrides_skip_malformed_witness:
  "parse_stream_rate_overrides ((config_default ''n'')\<lparr>stream_rate_overrides := ''bad=1;a=2:3''\<rparr>) =
   parse_stream_rate_overrides ((config_default ''n'')\<lparr>stream_rate_overrides := ''a=2:3''\<rparr>)"
proof -
  let ?cfg = "(config_default ''n'')\<lparr>stream_rate_overrides := ''bad=1;a=2:3''\<rparr>"
  have "CHR '';'' \<notin> set ''bad=1''" by simp
  moreover have "parse_override_entry ''bad=1'' = None" by (simp add: parse_override_entry_def)
  moreover have "''a=2:3'' \<noteq> []" by simp
  moreover have "stream_rate_overrides ?cfg = ''bad=1'' @ CHR '';'' # ''a=2:3''" by simp
  ultimately show ?thesis using overrides_skip_malformed [of "''bad=1''" "''a=2:3''" ?cfg] by simp
qed

end
