(* ===== verification/F64.thy ===== *)
theory F64
  imports Complex_Main "HOL-Library.Log_Nat" Prelude
begin

text \<open>
  Binary64 arithmetic as the code uses it. A finite \<open>f64\<close> is the rational it stands for, and an
  operation is the exact one followed by rounding to the nearest number with a 53-bit significand,
  ties to the even significand. The exponent is unbounded, so overflow, infinities, NaN and
  subnormals do not occur; the users of this theory keep their values inside the normal range.
\<close>

section \<open>Rounding\<close>

definition rne :: "rat \<Rightarrow> int" where
  "rne x = (let f = \<lfloor>x\<rfloor>; d = x - of_int f
            in if d < 1 / 2 then f else if d > 1 / 2 then f + 1 else if even f then f else f + 1)"

definition floor_log2 :: "rat \<Rightarrow> int" where
  "floor_log2 x = (let (p, q) = quotient_of x; k = bitlen p - bitlen q
                   in if 2 powi k \<le> x then k else k - 1)"

definition f64_round :: "rat \<Rightarrow> rat" where
  "f64_round x = (if x = 0 then 0
     else let e = floor_log2 \<bar>x\<bar> - 52 in of_int (rne (x / 2 powi e)) * 2 powi e)"

definition is_f64 :: "rat \<Rightarrow> bool" where
  "is_f64 x \<longleftrightarrow> f64_round x = x"

abbreviation f64_add :: "rat \<Rightarrow> rat \<Rightarrow> rat" where "f64_add x y \<equiv> f64_round (x + y)"
abbreviation f64_sub :: "rat \<Rightarrow> rat \<Rightarrow> rat" where "f64_sub x y \<equiv> f64_round (x - y)"
abbreviation f64_mul :: "rat \<Rightarrow> rat \<Rightarrow> rat" where "f64_mul x y \<equiv> f64_round (x * y)"
abbreviation f64_div :: "rat \<Rightarrow> rat \<Rightarrow> rat" where "f64_div x y \<equiv> f64_round (x / y)"

section \<open>Rounding to an integer\<close>

lemma rne_of_int [simp]: "rne (of_int i) = i"
  by (simp add: rne_def)

lemma rne_cases: "rne x = \<lfloor>x\<rfloor> \<or> rne x = \<lfloor>x\<rfloor> + 1"
  by (simp add: rne_def Let_def)

lemma rne_error: "\<bar>of_int (rne x) - x\<bar> \<le> 1 / 2"
proof -
  have "of_int \<lfloor>x\<rfloor> \<le> x" "x < of_int \<lfloor>x\<rfloor> + 1" by linarith+
  then show ?thesis by (auto simp: rne_def Let_def abs_le_iff)
qed

lemma rne_mono: "x \<le> y \<Longrightarrow> rne x \<le> rne y"
proof -
  assume le: "x \<le> y"
  then have fl: "\<lfloor>x\<rfloor> \<le> \<lfloor>y\<rfloor>" by (rule floor_mono)
  show ?thesis
  proof (cases "\<lfloor>x\<rfloor> = \<lfloor>y\<rfloor>")
    case True
    with le show ?thesis by (auto simp: rne_def Let_def)
  next
    case False
    with fl rne_cases [of x] rne_cases [of y] show ?thesis by auto
  qed
qed

lemma rne_half: "rne (of_int i + 1 / 2) = (if even i then i else i + 1)"
proof -
  have "\<lfloor>1 / 2 :: rat\<rfloor> = 0" by (simp add: floor_eq_iff)
  then show ?thesis by (simp add: rne_def Let_def)
qed

text \<open>A number strictly within half of an integer rounds to it.\<close>

lemma rne_near: "\<bar>x - of_int i\<bar> < 1 / 2 \<Longrightarrow> rne x = i"
proof -
  assume "\<bar>x - of_int i\<bar> < 1 / 2"
  with rne_error [of x] have "\<bar>of_int (rne x) - (of_int i :: rat)\<bar> < 1" by linarith
  then have "\<bar>rne x - i\<bar> < 1" by (metis of_int_abs of_int_diff of_int_less_1_iff)
  then show ?thesis by simp
qed

section \<open>The binade of a number\<close>

lemma powi_pos [simp]: "0 < (2 :: rat) powi k" "(2 :: rat) powi k \<noteq> 0"
  by simp_all

lemma powi_less_iff [simp]: "(2 :: rat) powi a < 2 powi b \<longleftrightarrow> a < b"
  using power_int_strict_increasing [of a b "2 :: rat"] power_int_increasing [of b a "2 :: rat"]
  by (auto simp: not_less [symmetric])

lemma powi_le_iff [simp]: "(2 :: rat) powi a \<le> 2 powi b \<longleftrightarrow> a \<le> b"
  by (simp add: not_less [symmetric])

lemma powi_add: "(2 :: rat) powi (a + b) = 2 powi a * 2 powi b"
  by (simp add: power_int_add)

lemma powi_diff: "(2 :: rat) powi (a - b) = 2 powi a / 2 powi b"
  by (simp add: power_int_diff)

lemma zero_le_mult_powi: "0 \<le> x * (2 :: rat) powi k \<Longrightarrow> 0 \<le> x"
  using powi_pos(1) [of k] by (simp add: zero_le_mult_iff not_le [symmetric])

lemma powi_nat: "0 \<le> k \<Longrightarrow> (2 :: rat) powi k = of_int (2 ^ nat k)"
  by (simp add: power_int_def)

lemma bitlen_powi:
  assumes "0 < p"
  shows "2 powi (bitlen p - 1) \<le> (of_int p :: rat)" "of_int p < (2 :: rat) powi bitlen p"
proof -
  have "1 \<le> bitlen p"
    using assms bitlen_eq_zero_iff [of p] bitlen_nonneg [of p] by linarith
  then show "2 powi (bitlen p - 1) \<le> (of_int p :: rat)" "of_int p < (2 :: rat) powi bitlen p"
    using bitlen_bounds [OF assms] by (simp_all add: powi_nat del: of_int_power of_int_numeral)
qed

lemma floor_log2_bounds:
  assumes "0 < x"
  shows "2 powi floor_log2 x \<le> x" "x < 2 powi (floor_log2 x + 1)"
proof -
  obtain p q where pq: "quotient_of x = (p, q)" by (cases "quotient_of x")
  then have q: "0 < q" and x: "x = of_int p / of_int q"
    by (simp_all add: quotient_of_denom_pos quotient_of_div)
  with assms have p: "0 < p" by (simp add: zero_less_divide_iff)
  have q': "0 < (of_int q :: rat)" using q by simp
  let ?k = "bitlen p - bitlen q"
  have "2 powi (?k - 1) * of_int q < (2 :: rat) powi (?k - 1) * 2 powi bitlen q"
    using bitlen_powi(2) [OF q] by simp
  also have "\<dots> = 2 powi (bitlen p - 1)" by (simp add: powi_add [symmetric])
  also have "\<dots> \<le> of_int p" by (rule bitlen_powi(1) [OF p])
  finally have lo: "2 powi (?k - 1) \<le> x" using q' by (simp add: x pos_le_divide_eq)
  have "of_int p < (2 :: rat) powi bitlen p" by (rule bitlen_powi(2) [OF p])
  also have "\<dots> = 2 powi (?k + 1) * 2 powi (bitlen q - 1)" by (simp add: powi_add [symmetric])
  also have "\<dots> \<le> 2 powi (?k + 1) * of_int q" using bitlen_powi(1) [OF q] by simp
  finally have hi: "x < 2 powi (?k + 1)" using q' by (simp add: x pos_divide_less_eq)
  show "2 powi floor_log2 x \<le> x" "x < 2 powi (floor_log2 x + 1)"
    using lo hi by (auto simp: floor_log2_def pq Let_def)
qed

lemma floor_log2_unique:
  assumes "2 powi k \<le> x" "x < 2 powi (k + 1)"
  shows "floor_log2 x = k"
proof -
  have "0 < x" using assms(1) powi_pos(1) [of k] by linarith
  from floor_log2_bounds [OF this] assms
  have "(2 :: rat) powi floor_log2 x < 2 powi (k + 1)" "(2 :: rat) powi k < 2 powi (floor_log2 x + 1)"
    by linarith+
  then show ?thesis by simp
qed

lemma floor_log2_mono: "0 < x \<Longrightarrow> x \<le> y \<Longrightarrow> floor_log2 x \<le> floor_log2 y"
proof -
  assume "0 < x" "x \<le> y"
  with floor_log2_bounds(1) [of x] floor_log2_bounds(2) [of y]
  have "(2 :: rat) powi floor_log2 x < 2 powi (floor_log2 y + 1)" by linarith
  then show ?thesis by simp
qed

section \<open>Laws of the rounding\<close>

text \<open>The significand of a positive number, scaled to \<open>[2 ^ 52, 2 ^ 53)\<close>.\<close>

lemma significand_bounds:
  assumes "0 < x"
  shows "of_int (2 ^ 52) \<le> x / 2 powi (floor_log2 x - 52)" "x / 2 powi (floor_log2 x - 52) < of_int (2 ^ 53)"
proof -
  let ?e = "floor_log2 x - 52"
  have "2 powi ?e * of_int (2 ^ 52) = (2 :: rat) powi floor_log2 x"
    "2 powi ?e * of_int (2 ^ 53) = (2 :: rat) powi (floor_log2 x + 1)"
    using powi_add [of ?e 52] powi_add [of ?e 53] by (simp_all add: powi_nat add.commute)
  with floor_log2_bounds [OF assms]
  show "of_int (2 ^ 52) \<le> x / 2 powi ?e" "x / 2 powi ?e < of_int (2 ^ 53)"
    by (simp_all add: pos_le_divide_eq pos_divide_less_eq mult.commute del: of_int_power of_int_numeral)
qed

lemma f64_round_0 [simp]: "f64_round 0 = 0"
  by (simp add: f64_round_def)

lemma f64_round_pos:
  "0 < x \<Longrightarrow> f64_round x = of_int (rne (x / 2 powi (floor_log2 x - 52))) * 2 powi (floor_log2 x - 52)"
  by (simp add: f64_round_def Let_def)

lemma f64_round_at:
  assumes "2 powi k \<le> x" "x < 2 powi (k + 1)"
  shows "f64_round x = of_int (rne (x / 2 powi (k - 52))) * 2 powi (k - 52)"
  using f64_round_pos [of x] floor_log2_unique [OF assms] assms(1) powi_pos(1) [of k] by (metis order_less_le_trans)

lemma f64_round_binade:
  assumes "0 < x"
  shows "2 powi floor_log2 x \<le> f64_round x" "f64_round x \<le> 2 powi (floor_log2 x + 1)"
proof -
  let ?e = "floor_log2 x - 52"
  let ?m = "rne (x / 2 powi ?e)"
  have "2 ^ 52 \<le> ?m" "?m \<le> 2 ^ 53"
    using rne_mono [OF significand_bounds(1) [OF assms]] rne_mono [OF less_imp_le [OF significand_bounds(2) [OF assms]]]
    by (simp_all only: rne_of_int)
  then have "of_int (2 ^ 52) \<le> (of_int ?m :: rat)" "(of_int ?m :: rat) \<le> of_int (2 ^ 53)"
    by (simp_all only: of_int_le_iff)
  then have "of_int (2 ^ 52) * 2 powi ?e \<le> f64_round x" "f64_round x \<le> of_int (2 ^ 53) * 2 powi ?e"
    unfolding f64_round_pos [OF assms] by (simp_all only: mult_right_mono [OF _ less_imp_le [OF powi_pos(1)]])
  moreover have "of_int (2 ^ 52) * 2 powi ?e = (2 :: rat) powi floor_log2 x"
    "of_int (2 ^ 53) * 2 powi ?e = (2 :: rat) powi (floor_log2 x + 1)"
    using powi_add [of 52 ?e] powi_add [of 53 ?e] by (simp_all add: powi_nat add.commute)
  ultimately show "2 powi floor_log2 x \<le> f64_round x" "f64_round x \<le> 2 powi (floor_log2 x + 1)" by simp_all
qed

lemma f64_round_mono:
  assumes "0 \<le> x" "x \<le> y"
  shows "f64_round x \<le> f64_round y"
proof (cases "x = 0")
  case True
  show ?thesis
  proof (cases "y = 0")
    case False
    with True assms(2) have "0 < y" by simp
    then have "0 \<le> f64_round y" using f64_round_binade(1) [of y] powi_pos(1) [of "floor_log2 y"] by linarith
    with True show ?thesis by simp
  qed (simp add: True)
next
  case False
  with assms have x: "0 < x" and y: "0 < y" by simp_all
  show ?thesis
  proof (cases "floor_log2 x = floor_log2 y")
    case True
    have "rne (x / 2 powi (floor_log2 y - 52)) \<le> rne (y / 2 powi (floor_log2 y - 52))"
      using assms(2) by (intro rne_mono divide_right_mono) simp_all
    then show ?thesis by (simp add: f64_round_pos x y True)
  next
    case False
    with floor_log2_mono [OF x assms(2)] have "floor_log2 x + 1 \<le> floor_log2 y" by simp
    then have "(2 :: rat) powi (floor_log2 x + 1) \<le> 2 powi floor_log2 y" by simp
    with f64_round_binade(2) [OF x] f64_round_binade(1) [OF y] show ?thesis by linarith
  qed
qed

lemma f64_round_nonneg [simp]: "0 \<le> x \<Longrightarrow> 0 \<le> f64_round x"
  using f64_round_mono [of 0 x] by simp

lemma f64_round_error:
  assumes "0 \<le> x"
  shows "\<bar>f64_round x - x\<bar> \<le> x / 2 ^ 53"
proof (cases "x = 0")
  case False
  with assms have x: "0 < x" by simp
  let ?e = "floor_log2 x - 52"
  let ?y = "x / 2 powi ?e"
  have "f64_round x - x = (of_int (rne ?y) - ?y) * 2 powi ?e"
    by (simp add: f64_round_pos [OF x] algebra_simps)
  then have "\<bar>f64_round x - x\<bar> = \<bar>of_int (rne ?y) - ?y\<bar> * 2 powi ?e" by (simp add: abs_mult)
  also have "\<dots> \<le> 1 / 2 * 2 powi ?e" by (intro mult_right_mono rne_error) simp
  also have "\<dots> = 2 powi floor_log2 x / 2 ^ 53"
    by (simp add: powi_diff powi_nat)
  also have "\<dots> \<le> x / 2 ^ 53"
    using floor_log2_bounds(1) [OF x] by (simp add: divide_right_mono)
  finally show ?thesis .
qed simp

lemma powi_multiple:
  assumes "e \<le> j"
  shows "\<exists>i. of_int m * 2 powi j = of_int i * (2 :: rat) powi e"
proof
  have "2 powi j = (2 :: rat) powi (j - e) * 2 powi e" by (simp add: powi_add [symmetric])
  with assms show "of_int m * 2 powi j = of_int (m * 2 ^ nat (j - e)) * (2 :: rat) powi e"
    by (simp add: powi_nat)
qed

text \<open>A number whose significand fits in 53 bits is not changed.\<close>

lemma f64_round_exact:
  assumes "0 \<le> m" "m \<le> 2 ^ 53"
  shows "f64_round (of_int m * 2 powi j) = of_int m * 2 powi j"
proof (cases "m = 0")
  case False
  let ?x = "of_int m * (2 :: rat) powi j"
  let ?k = "floor_log2 ?x"
  have x: "0 < ?x" using False assms(1) by simp
  have "\<exists>i. ?x / 2 powi (?k - 52) = of_int i"
  proof (cases "?k - 52 \<le> j")
    case True
    then have "?x / 2 powi (?k - 52) = of_int (m * 2 ^ nat (j - (?k - 52)))"
      by (simp add: powi_nat [symmetric] powi_diff del: of_int_power of_int_numeral)
    then show ?thesis by blast
  next
    case False
    have "of_int (2 ^ 53) * 2 powi j \<ge> ?x" using assms(2) by (simp add: mult_right_mono del: of_int_power of_int_numeral)
    moreover have "of_int (2 ^ 53) * 2 powi j = (2 :: rat) powi (53 + j)" by (simp add: powi_add powi_nat)
    ultimately have "2 powi ?k \<le> (2 :: rat) powi (53 + j)" using floor_log2_bounds(1) [OF x] by linarith
    with False have k: "?k = 53 + j" by simp
    with floor_log2_bounds(1) [OF x] have "of_int (2 ^ 53) * 2 powi j \<le> ?x" by (simp add: powi_add powi_nat)
    then have "2 ^ 53 \<le> m" by (simp del: of_int_power of_int_numeral)
    with assms(2) have "m = 2 ^ 53" by simp
    then have "?x / 2 powi (?k - 52) = of_int (2 ^ 52)" unfolding k by (simp add: powi_add)
    then show ?thesis by blast
  qed
  then obtain i where i: "?x / 2 powi (?k - 52) = of_int i" ..
  then have "?x = of_int i * 2 powi (?k - 52)" by (simp add: divide_eq_eq)
  with f64_round_pos [OF x] show ?thesis by (simp add: i)
qed simp

lemma f64_round_form:
  assumes "0 < x"
  obtains m where "0 < m" "m \<le> 2 ^ 53" "f64_round x = of_int m * 2 powi (floor_log2 x - 52)"
proof
  let ?m = "rne (x / 2 powi (floor_log2 x - 52))"
  show "f64_round x = of_int ?m * 2 powi (floor_log2 x - 52)" by (rule f64_round_pos [OF assms])
  have "2 ^ 52 \<le> ?m"
    using rne_mono [OF significand_bounds(1) [OF assms]] by (simp only: rne_of_int)
  then show "0 < ?m" by simp
  show "?m \<le> 2 ^ 53"
    using rne_mono [OF less_imp_le [OF significand_bounds(2) [OF assms]]] by (simp only: rne_of_int)
qed

lemma is_f64_round [simp, intro]: "0 \<le> x \<Longrightarrow> is_f64 (f64_round x)"
proof (cases "x = 0")
  case False
  assume "0 \<le> x"
  with False have "0 < x" by simp
  then show ?thesis by (rule f64_round_form) (simp add: is_f64_def f64_round_exact)
qed (simp add: is_f64_def)

lemma is_f64_nat: "n \<le> 2 ^ 53 \<Longrightarrow> is_f64 (of_nat n)"
  using f64_round_exact [of "int n" 0] by (simp add: is_f64_def)

lemma is_f64_01 [simp]: "is_f64 0" "is_f64 1"
  using is_f64_nat [of 1] by (simp_all add: is_f64_def)

lemma f64_round_1 [simp]: "f64_round 1 = 1"
  using is_f64_01(2) by (simp only: is_f64_def)

lemma f64_round_numeral [simp]: "numeral w \<le> (2 ^ 53 :: nat) \<Longrightarrow> f64_round (numeral w) = numeral w"
  using is_f64_nat [of "numeral w"] by (simp add: is_f64_def)

text \<open>Rounding keeps whole numbers whole.\<close>

lemma f64_round_nat: "f64_round (of_nat n) \<in> \<nat>"
proof (cases "n \<le> 2 ^ 53")
  case True
  then show ?thesis using is_f64_nat [of n] by (simp add: is_f64_def)
next
  case False
  then have big: "of_nat (2 ^ 53) < (of_nat n :: rat)" by (simp only: of_nat_less_iff not_le)
  then have pos: "0 < (of_nat n :: rat)" by simp
  have "(2 :: rat) powi 53 < 2 powi (floor_log2 (of_nat n) + 1)"
    using big floor_log2_bounds(2) [OF pos] by (simp add: powi_nat)
  then have "53 < floor_log2 (of_nat n :: rat) + 1" by (simp only: powi_less_iff)
  then have e: "0 \<le> floor_log2 (of_nat n :: rat) - 52" by simp
  from f64_round_form [OF pos] obtain m
    where "0 < m" "f64_round (of_nat n) = of_int m * 2 powi (floor_log2 (of_nat n) - 52)" by blast
  with e have "f64_round (of_nat n) = of_nat (nat (m * 2 ^ nat (floor_log2 (of_nat n :: rat) - 52)))"
    by (simp add: powi_nat)
  then show ?thesis by simp
qed

lemma is_f64_min: "is_f64 x \<Longrightarrow> is_f64 y \<Longrightarrow> is_f64 (min x y)"
  by (simp add: min_def)

text \<open>Taking one off is exact up to \<open>2 ^ 53\<close>, and from \<open>2 ^ 54\<close> on it does nothing.\<close>

lemma f64_sub_one_exact:
  assumes "is_f64 x" "1 \<le> x" "x \<le> 2 ^ 53"
  shows "f64_sub x 1 = x - 1"
proof (cases "x = 2 ^ 53")
  case True
  then show ?thesis using f64_round_exact [of "2 ^ 53 - 1" 0] by simp
next
  case False
  let ?k = "floor_log2 x"
  have pos: "0 < x" using assms(2) by simp
  from f64_round_form [OF pos] assms(1)
  obtain m where m: "m \<le> 2 ^ 53" "x = of_int m * 2 powi (?k - 52)" by (auto simp: is_f64_def)
  have "(2 :: rat) powi ?k < 2 powi 53"
    using floor_log2_bounds(1) [OF pos] assms(3) False by (simp add: powi_nat)
  then have "?k < 53" by (simp only: powi_less_iff)
  then have le: "?k - 52 \<le> 0" by simp
  let ?d = "2 ^ nat (52 - ?k) :: int"
  have "of_int ?d * 2 powi (?k - 52) = (2 :: rat) powi (52 - ?k) * 2 powi (?k - 52)"
    using le by (simp add: powi_nat)
  also have "\<dots> = 1" by (simp add: powi_add [symmetric])
  finally have one: "of_int ?d * 2 powi (?k - 52) = (1 :: rat)" .
  then have eq: "x - 1 = of_int (m - ?d) * 2 powi (?k - 52)"
    using m(2) by (simp add: algebra_simps)
  have "0 \<le> of_int (m - ?d) * (2 :: rat) powi (?k - 52)" using assms(2) unfolding eq [symmetric] by simp
  then have "0 \<le> (of_int (m - ?d) :: rat)"
    by (rule zero_le_mult_powi)
  then have "0 \<le> m - ?d" by (simp only: of_int_0_le_iff)
  moreover have "0 \<le> ?d" by simp
  then have "m - ?d \<le> 2 ^ 53" using m(1) by linarith
  ultimately show ?thesis unfolding eq by (rule f64_round_exact)
qed

lemma f64_above_one:
  assumes "is_f64 x" "1 < x"
  shows "1 / 2 ^ 52 \<le> x - 1"
proof (cases "x < 2")
  case True
  have k: "floor_log2 x = 0" using assms(2) True by (intro floor_log2_unique) simp_all
  have pos: "0 < x" using assms(2) by simp
  from f64_round_form [OF pos] assms(1) k
  obtain m where m: "x = of_int m * 2 powi - 52" by (auto simp: is_f64_def)
  then have x: "x = of_int m / 2 ^ 52" by (simp add: power_int_minus field_simps)
  with assms(2) have "of_int (2 ^ 52) < (of_int m :: rat)" by (simp add: field_simps)
  then have "2 ^ 52 + 1 \<le> m" by (simp only: of_int_less_iff)
  then have "of_int (2 ^ 52 + 1) \<le> (of_int m :: rat)" by (simp only: of_int_le_iff)
  then show ?thesis by (simp add: x field_simps)
next
  case False
  have "1 / 2 ^ 52 \<le> (1 :: rat)" by simp
  with False show ?thesis by linarith
qed

lemma f64_sub_one_absorbed:
  assumes "is_f64 x" "2 ^ 54 \<le> x"
  shows "f64_sub x 1 = x"
proof -
  let ?e = "floor_log2 (x - 1) - 52"
  have y: "0 < x - 1" using assms(2) by simp
  have "x \<noteq> 0" "0 < x" using assms(2) by auto
  from f64_round_form [OF this(2)] assms(1)
  obtain m where m: "x = of_int m * 2 powi (floor_log2 x - 52)" by (auto simp: is_f64_def)
  have "(2 :: rat) powi 53 \<le> x - 1" using assms(2) by (simp add: powi_nat)
  then have "(2 :: rat) powi 53 < 2 powi (floor_log2 (x - 1) + 1)"
    using floor_log2_bounds(2) [OF y] by linarith
  then have e: "1 \<le> ?e" by (simp only: powi_less_iff)
  have le: "?e \<le> floor_log2 x - 52" using floor_log2_mono [OF y, of x] by simp
  then obtain M where M: "x = of_int M * 2 powi ?e"
    using powi_multiple [OF le, of m] m by metis
  then have "x / 2 powi ?e = of_int M" using powi_pos(2) [of ?e] by (metis nonzero_mult_div_cancel_right)
  then have q: "(x - 1) / 2 powi ?e = of_int M - 1 / 2 powi ?e" by (simp add: diff_divide_distrib)
  have "rne ((x - 1) / 2 powi ?e) = M"
  proof (cases "?e = 1")
    case True
    then have "x - 1 < 2 powi 54" using floor_log2_bounds(2) [OF y] by simp
    then have "x < 2 ^ 54 + 1" by (simp add: powi_nat)
    with assms(2) M True have "(2 ^ 54 :: rat) \<le> of_int (2 * M)" "of_int (2 * M) < (2 ^ 54 + 1 :: rat)" by simp_all
    then have "M = 2 ^ 53" by simp
    moreover from this q True have "(x - 1) / 2 powi ?e = of_int (2 ^ 53 - 1) + 1 / 2" by simp
    moreover have "rne (of_int (2 ^ 53 - 1) + 1 / 2) = 2 ^ 53"
      by (simp only: rne_half) simp
    ultimately show ?thesis by (simp only:)
  next
    case False
    with e have "(2 :: rat) powi 2 \<le> 2 powi ?e" by (simp only: powi_le_iff)
    then have "4 \<le> (2 :: rat) powi ?e" by simp
    then have "1 / (2 :: rat) powi ?e < 1 / 2" "0 < 1 / (2 :: rat) powi ?e"
      by (simp_all add: divide_less_eq)
    then show ?thesis unfolding q by (intro rne_near) simp
  qed
  then show ?thesis using f64_round_pos [OF y] M by simp
qed

section \<open>The laws as an interface\<close>

text \<open>
  What error analysis needs of a rounding: it is monotone, leaves its own results alone, and errs
  by at most a fraction \<open>u\<close> of the argument. Clients use the facts below and not the definition.
\<close>

locale rounding =
  fixes fl :: "rat \<Rightarrow> rat" and u :: rat
  assumes fl_mono: "0 \<le> x \<Longrightarrow> x \<le> y \<Longrightarrow> fl x \<le> fl y"
    and fl_idem: "0 \<le> x \<Longrightarrow> fl (fl x) = fl x"
    and fl_error: "0 \<le> x \<Longrightarrow> \<bar>fl x - x\<bar> \<le> u * x"
    and u_nonneg: "0 \<le> u" and u_le_1: "u \<le> 1"
begin

lemma fl_le: "0 \<le> x \<Longrightarrow> fl x \<le> (1 + u) * x"
  using fl_error [of x] by (simp add: abs_le_iff algebra_simps)

lemma fl_ge: "0 \<le> x \<Longrightarrow> (1 - u) * x \<le> fl x"
  using fl_error [of x] by (simp add: abs_le_iff algebra_simps)

lemma fl_zero: "fl 0 = 0"
  using fl_error [of 0] by simp

lemma fl_nonneg: "0 \<le> x \<Longrightarrow> 0 \<le> fl x"
  using fl_mono [of 0 x] by (simp add: fl_zero)

lemma fl_ge_fixed: "0 \<le> y \<Longrightarrow> fl y = y \<Longrightarrow> y \<le> x \<Longrightarrow> y \<le> fl x"
  using fl_mono [of y x] by simp

lemma fl_le_fixed: "0 \<le> x \<Longrightarrow> fl y = y \<Longrightarrow> x \<le> y \<Longrightarrow> fl x \<le> y"
  using fl_mono [of x y] by simp

lemma fl_le_scaled: "0 \<le> x \<Longrightarrow> x \<le> c * y \<Longrightarrow> fl x \<le> (1 + u) * c * y"
proof -
  assume "0 \<le> x" and le: "x \<le> c * y"
  then have "fl x \<le> (1 + u) * x" by (intro fl_le)
  also have "\<dots> \<le> (1 + u) * (c * y)" using le u_nonneg by (intro mult_left_mono) simp_all
  finally show ?thesis by (simp only: mult.assoc)
qed

lemma fl_ge_scaled: "0 \<le> y \<Longrightarrow> 0 \<le> c \<Longrightarrow> c * y \<le> x \<Longrightarrow> (1 - u) * c * y \<le> fl x"
proof -
  assume "0 \<le> y" "0 \<le> c" and le: "c * y \<le> x"
  then have "0 \<le> x" by (meson mult_nonneg_nonneg order_trans)
  have "(1 - u) * (c * y) \<le> (1 - u) * x" using le u_le_1 by (intro mult_left_mono) simp_all
  also have "\<dots> \<le> fl x" using \<open>0 \<le> x\<close> by (rule fl_ge)
  finally show ?thesis by (simp only: mult.assoc)
qed

text \<open>A capped sum gains at most the exact sum and a rounding error of the size of the cap.\<close>

lemma capped_sum_le:
  assumes "0 \<le> x" "0 \<le> b"
  shows "min (fl x) b \<le> x + u * b"
proof (cases "x \<le> b")
  case True
  have "fl x \<le> x + u * x" using fl_le [OF assms(1)] by (simp add: algebra_simps)
  also have "\<dots> \<le> x + u * b" using True u_nonneg by (simp add: mult_left_mono)
  finally show ?thesis by simp
next
  case False
  moreover have "0 \<le> u * b" using assms(2) u_nonneg by simp
  ultimately show ?thesis by simp
qed

lemma capped_sum_ge: "0 \<le> y \<Longrightarrow> fl y = y \<Longrightarrow> y \<le> x \<Longrightarrow> y \<le> b \<Longrightarrow> y \<le> min (fl x) b"
  by (simp add: fl_ge_fixed)

end

interpretation fp: rounding f64_round "1 / 2 ^ 53"
  by unfold_locales (use f64_round_mono f64_round_error is_f64_round in \<open>auto simp: is_f64_def\<close>)

section \<open>Powers of two and numbers close to one\<close>

lemma f64_round_scale:
  assumes "0 < x"
  shows "f64_round (x * 2 powi j) = f64_round x * 2 powi j"
proof -
  have "floor_log2 (x * 2 powi j) = floor_log2 x + j"
    using floor_log2_bounds [OF assms]
    by (intro floor_log2_unique) (simp_all add: powi_add mult_right_mono)
  moreover have "x * 2 powi j / 2 powi (floor_log2 x + j - 52) = x / 2 powi (floor_log2 x - 52)"
    by (simp add: powi_add powi_diff)
  moreover have "0 < x * 2 powi j" using assms by simp
  ultimately have "f64_round (x * 2 powi j) =
      of_int (rne (x / 2 powi (floor_log2 x - 52))) * 2 powi (floor_log2 x - 52 + j)"
    by (simp add: f64_round_pos algebra_simps)
  then show ?thesis by (simp add: f64_round_pos [OF assms] powi_add)
qed

text \<open>The value of a rounding below one, and the numbers that round up to one.\<close>

lemma f64_round_eval:
  assumes "1 / 2 ^ n \<le> x" "x < 2 / 2 ^ n" "\<bar>x * 2 ^ (n + 52) - of_int m\<bar> < 1 / 2"
  shows "f64_round x = of_int m / 2 ^ (n + 52)"
proof -
  have p: "(2 :: rat) powi - int k = 1 / 2 ^ k" for k by (simp add: power_int_minus field_simps)
  have e: "- int n - 52 = - int (n + 52)" by simp
  have n: "(2 :: rat) powi (- int n + 1) = 2 / 2 ^ n" using powi_add [of "- int n" 1] p [of n] by simp
  have "rne (x / 2 powi (- int n - 52)) = m"
    unfolding e p using assms(3) by (intro rne_near) simp
  with f64_round_at [of "- int n" x] assms(1,2) p [of n] n show ?thesis
    unfolding e p by simp
qed

lemma f64_round_near_one: "1 - 1 / 2 ^ 54 < x \<Longrightarrow> 1 \<le> f64_round x"
proof (cases "1 \<le> x")
  case True
  then show ?thesis using f64_round_mono [of 1 x] is_f64_01(2) by (simp add: is_f64_def)
next
  case False
  assume "1 - 1 / 2 ^ 54 < x"
  with False have "f64_round x = of_int (2 ^ 53) / 2 ^ (1 + 52)"
    by (intro f64_round_eval) (simp_all add: abs_less_iff)
  then show ?thesis by simp
qed

section \<open>The normal range\<close>

text \<open>
  Zero and the normal binary64 numbers that are not negative. The bounds are powers of two, which rounding
  does not cross, so an exact result in the range is one that the hardware neither overflows nor underflows.
\<close>

definition f64_normal :: "rat \<Rightarrow> bool" where
  "f64_normal x \<longleftrightarrow> x = 0 \<or> 2 powi - 1022 \<le> x \<and> x < 2 powi 1023"

lemma f64_normalI: "(0 < x \<Longrightarrow> 1 / 2 ^ 60 \<le> x) \<Longrightarrow> 0 \<le> x \<Longrightarrow> x \<le> 2 ^ 200 \<Longrightarrow> f64_normal x"
proof -
  assume a: "0 < x \<Longrightarrow> 1 / 2 ^ 60 \<le> x" "0 \<le> x" "x \<le> 2 ^ 200"
  have "(2 :: rat) powi 200 < 2 powi 1023" "(2 :: rat) powi - 1022 \<le> 2 powi - 60" by (simp_all only: powi_less_iff powi_le_iff)
  then have "(2 :: rat) ^ 200 < 2 powi 1023" "(2 :: rat) powi - 1022 \<le> 1 / 2 ^ 60"
    by (simp_all add: power_int_def field_simps)
  with a show ?thesis unfolding f64_normal_def by fastforce
qed

section \<open>Reciprocals of divisors of a second\<close>

text \<open>
  Rounding \<open>1 / n\<close> and multiplying by \<open>n\<close> can fall below one, and does for \<open>n = 49\<close>. It does not
  for the divisors of the number of nanoseconds in a second.
\<close>

lemma reciprocal_49: "f64_round (f64_round (1 / 49) * 49) < 1"
proof -
  have "f64_round (1 / 49) = of_int 5882252574524729 / 2 ^ (6 + 52)"
    by (rule f64_round_eval) (simp_all add: abs_less_iff)
  moreover have "f64_round (of_int 5882252574524729 / 2 ^ (6 + 52) * 49) = of_int (2 ^ 53 - 1) / 2 ^ (1 + 52)"
    by (rule f64_round_eval) (simp_all add: abs_less_iff)
  ultimately show ?thesis by (simp only:) simp
qed

definition reciprocal_ok :: "rat \<Rightarrow> bool" where
  "reciprocal_ok n \<longleftrightarrow> 1 - 1 / 2 ^ 54 < f64_round (1 / n) * n"

lemma inv5_0: "f64_round (1 / 5 ^ 0) = of_int 4503599627370496 / 2 ^ (0 + 52)"
  by (rule f64_round_eval) (simp_all add: abs_less_iff)

lemma inv5_1: "f64_round (1 / 5 ^ 1) = of_int 7205759403792794 / 2 ^ (3 + 52)"
  by (rule f64_round_eval) (simp_all add: abs_less_iff)

lemma inv5_2: "f64_round (1 / 5 ^ 2) = of_int 5764607523034235 / 2 ^ (5 + 52)"
  by (rule f64_round_eval) (simp_all add: abs_less_iff)

lemma inv5_3: "f64_round (1 / 5 ^ 3) = of_int 4611686018427388 / 2 ^ (7 + 52)"
  by (rule f64_round_eval) (simp_all add: abs_less_iff)

lemma inv5_4: "f64_round (1 / 5 ^ 4) = of_int 7378697629483821 / 2 ^ (10 + 52)"
  by (rule f64_round_eval) (simp_all add: abs_less_iff)

lemma inv5_5: "f64_round (1 / 5 ^ 5) = of_int 5902958103587057 / 2 ^ (12 + 52)"
  by (rule f64_round_eval) (simp_all add: abs_less_iff)

lemma inv5_6: "f64_round (1 / 5 ^ 6) = of_int 4722366482869645 / 2 ^ (14 + 52)"
  by (rule f64_round_eval) (simp_all add: abs_less_iff)

lemma inv5_7: "f64_round (1 / 5 ^ 7) = of_int 7555786372591432 / 2 ^ (17 + 52)"
  by (rule f64_round_eval) (simp_all add: abs_less_iff)

lemma inv5_8: "f64_round (1 / 5 ^ 8) = of_int 6044629098073146 / 2 ^ (19 + 52)"
  by (rule f64_round_eval) (simp_all add: abs_less_iff)

lemma inv5_9: "f64_round (1 / 5 ^ 9) = of_int 4835703278458517 / 2 ^ (21 + 52)"
  by (rule f64_round_eval) (simp_all add: abs_less_iff)

lemmas inv5 = inv5_0 inv5_1 inv5_2 inv5_3 inv5_4 inv5_5 inv5_6 inv5_7 inv5_8 inv5_9

lemma reciprocal_5: "j \<le> 9 \<Longrightarrow> reciprocal_ok (5 ^ j)"
proof -
  assume "j \<le> 9"
  then have "j \<in> {0, 1, 2, 3, 4, 5, 6, 7, 8, 9}" by auto
  then show ?thesis unfolding reciprocal_ok_def
    by (elim insertE emptyE; hypsubst; simp only: inv5; simp)
qed

lemma reciprocal_scale:
  assumes "0 < n" "reciprocal_ok n"
  shows "reciprocal_ok (n * 2 ^ i)"
proof -
  have p: "(2 :: rat) powi - int i = 1 / 2 ^ i" by (simp add: power_int_minus field_simps)
  have "f64_round (1 / (n * 2 ^ i)) = f64_round (1 / n) / 2 ^ i"
    using f64_round_scale [of "1 / n" "- int i"] assms(1) unfolding p by simp
  with assms show ?thesis by (simp add: reciprocal_ok_def)
qed

lemma dvd_prime_power_5:
  fixes n :: nat
  shows "n dvd 5 ^ b \<Longrightarrow> \<exists>j \<le> b. n = 5 ^ j"
proof (induction b arbitrary: n)
  case (Suc b)
  show ?case
  proof (cases "5 dvd n")
    case True
    then obtain n' where n: "n = 5 * n'" ..
    with Suc.prems have "n' dvd 5 ^ b" by simp
    from Suc.IH [OF this] obtain j where "j \<le> b" "n' = 5 ^ j" by blast
    then show ?thesis using n by (intro exI [of _ "Suc j"]) simp
  next
    case False
    have "c = 1" if c: "c dvd n" "c dvd 5" for c
    proof -
      have "c \<le> 5" using c(2) by (simp add: dvd_imp_le)
      then have "c \<in> {0, 1, 2, 3, 4, 5}" by auto
      with c False show ?thesis by auto
    qed
    then have "coprime n 5" by (auto simp: coprime_iff_gcd_eq_1)
    then have "coprime n (5 ^ Suc b)" by (simp only: coprime_power_right_iff) simp
    with Suc.prems have "n = 1" by (metis coprime_absorb_left nat_dvd_1_iff_1)
    then show ?thesis by (intro exI [of _ 0]) simp
  qed
qed simp

lemma dvd_2_5:
  fixes n :: nat
  shows "n dvd 2 ^ a * 5 ^ b \<Longrightarrow> \<exists>i j. j \<le> b \<and> n = 5 ^ j * 2 ^ i"
proof (induction a arbitrary: n)
  case 0
  then show ?case using dvd_prime_power_5 [of n b] by (metis mult_1 mult_1_right power_0)
next
  case (Suc a)
  show ?case
  proof (cases "even n")
    case True
    then obtain n' where n: "n = 2 * n'" ..
    with Suc.prems have "n' dvd 2 ^ a * 5 ^ b" by simp
    from Suc.IH [OF this] obtain i j where "j \<le> b" "n' = 5 ^ j * 2 ^ i" by blast
    then show ?thesis using n by (intro exI [of _ "Suc i"] exI [of _ j]) simp
  next
    case False
    then have "coprime n (2 ^ Suc a)" by simp
    with Suc.prems have "n dvd 5 ^ b" using coprime_dvd_mult_right_iff by blast
    from dvd_prime_power_5 [OF this] show ?thesis by (metis mult_1_right power_0)
  qed
qed

lemma reciprocal_of_divisor:
  assumes "n dvd (1000000000 :: nat)"
  shows "1 \<le> f64_round (f64_round (1 / of_nat n) * of_nat n)"
proof -
  have "n dvd 2 ^ 9 * 5 ^ 9" using assms by simp
  from dvd_2_5 [OF this] obtain i j where j: "j \<le> 9" and n: "n = 5 ^ j * 2 ^ i" by blast
  have "reciprocal_ok (5 ^ j * 2 ^ i)" by (rule reciprocal_scale [OF _ reciprocal_5 [OF j]]) simp
  then have "reciprocal_ok (of_nat n)" by (simp add: n)
  then show ?thesis unfolding reciprocal_ok_def by (rule f64_round_near_one)
qed

end
