(* ===== verification/Rate_Limiter.thy ===== *)
theory Rate_Limiter
  imports F64
begin

text \<open>
  The per-stream token-bucket limiter of the fan-out (\<open>src/src/fanout/mod.rs\<close>). An
  \<open>Instant\<close> is a number of nanoseconds, passed in by the caller, and \<open>duration_since\<close>
  is zero when the clock reads earlier, which is subtraction of naturals. The \<open>f64\<close>
  quantities are rounded as in the theory \<open>F64\<close>. The 64-bit product that computes a default burst
  wraps, as it does in a release build.
\<close>

section \<open>One bucket\<close>

record bucket_state =
  tokens :: rat
  last_refill :: nat
  bucket_rps :: rat
  bucket_burst :: rat

definition bucket_new :: "nat \<Rightarrow> rat \<Rightarrow> rat \<Rightarrow> bucket_state" where
  "bucket_new now rps burst =
     \<lparr>tokens = burst, last_refill = now, bucket_rps = rps, bucket_burst = burst\<rparr>"

text \<open>\<open>Duration::as_secs_f64\<close>: the whole seconds and the rest over a thousand million, as the library adds them.\<close>

definition as_secs_f64 :: "nat \<Rightarrow> rat" where
  "as_secs_f64 ns =
     f64_add (f64_round (of_nat (ns div 1000000000))) (f64_div (f64_round (of_nat (ns mod 1000000000))) 1000000000)"

definition try_consume :: "nat \<Rightarrow> bucket_state \<Rightarrow> bool \<times> bucket_state" where
  "try_consume now b =
     (let elapsed = as_secs_f64 (now - last_refill b);
          b1 = b\<lparr>last_refill := now\<rparr>;
          b2 = b1\<lparr>tokens := min (f64_add (tokens b1) (f64_mul elapsed (bucket_rps b1))) (bucket_burst b1)\<rparr>
      in if tokens b2 \<ge> 1 then (True, b2\<lparr>tokens := f64_sub (tokens b2) 1\<rparr>) else (False, b2))"

definition i64_max :: i64 where
  "i64_max = 2 ^ 63 - 1"

text \<open>The cast \<open>as i64\<close> truncates towards zero and saturates.\<close>

definition as_i64 :: "rat \<Rightarrow> i64" where
  "as_i64 q = max (- (2 ^ 63)) (min i64_max (if q \<ge> 0 then \<lfloor>q\<rfloor> else \<lceil>q\<rceil>))"

definition token_count :: "bucket_state \<Rightarrow> i64" where
  "token_count b = as_i64 (tokens b)"

section \<open>The limiter\<close>

record stream_rate_limiter =
  buckets :: "str \<rightharpoonup> bucket_state"
  default_rps :: rat
  default_burst :: rat
  overrides :: "(str, rat \<times> rat) hmap"

definition u64_as_f64 :: "u64 \<Rightarrow> rat" where
  "u64_as_f64 n = f64_round (of_nat (unat n))"

definition effective_burst :: "u64 \<Rightarrow> u64 \<Rightarrow> u64" where
  "effective_burst rps burst = (if burst = 0 then max (rps * 2) 1 else burst)"

definition rate_limiter_new :: "u64 \<Rightarrow> u64 \<Rightarrow> (str, u64 \<times> u64) hmap \<Rightarrow> stream_rate_limiter" where
  "rate_limiter_new rps burst ovr =
     \<lparr>buckets = Map.empty, default_rps = u64_as_f64 rps,
      default_burst = u64_as_f64 (effective_burst rps burst),
      overrides = map (\<lambda>(name, (r, b)). (name, (u64_as_f64 r, u64_as_f64 (effective_burst r b)))) ovr\<rparr>"

definition is_disabled :: "stream_rate_limiter \<Rightarrow> bool" where
  "is_disabled rl \<longleftrightarrow> default_rps rl = 0 \<and> \<not> list_ex (\<lambda>(_, (rps, _)). rps > 0) (overrides rl)"

definition stream_limits :: "stream_rate_limiter \<Rightarrow> str \<Rightarrow> rat \<times> rat" where
  "stream_limits rl stream =
     (case map_of (overrides rl) stream of Some v \<Rightarrow> v | None \<Rightarrow> (default_rps rl, default_burst rl))"

definition rate_check :: "nat \<Rightarrow> stream_rate_limiter \<Rightarrow> str \<Rightarrow> (bool \<times> i64) \<times> stream_rate_limiter" where
  "rate_check now rl stream =
     (let (rps, burst) = stream_limits rl stream
      in if rps = 0 then ((True, i64_max), rl)
         else let b = (case buckets rl stream of Some b \<Rightarrow> b | None \<Rightarrow> bucket_new now rps burst);
                  (allow, b1) = try_consume now b
              in ((allow, token_count b1), rl\<lparr>buckets := (buckets rl)(stream \<mapsto> b1)\<rparr>))"

section \<open>Runs\<close>

text \<open>The arrivals at one bucket, and at the limiter; the decisions are in the order of arrival.\<close>

fun bucket_run :: "bucket_state \<Rightarrow> nat list \<Rightarrow> bool list \<times> bucket_state" where
  "bucket_run b [] = ([], b)"
| "bucket_run b (now # ts) =
     (let (allow, b1) = try_consume now b; (rest, b2) = bucket_run b1 ts in (allow # rest, b2))"

fun rate_run :: "stream_rate_limiter \<Rightarrow> (nat \<times> str) list \<Rightarrow> (str \<times> bool) list \<times> stream_rate_limiter" where
  "rate_run rl [] = ([], rl)"
| "rate_run rl ((now, stream) # evs) =
     (let ((allow, _), rl1) = rate_check now rl stream; (rest, rl2) = rate_run rl1 evs
      in ((stream, allow) # rest, rl2))"

definition allowed_count :: "bool list \<Rightarrow> nat" where
  "allowed_count ds = length (filter id ds)"

lemma allowed_count_simps [simp]:
  "allowed_count [] = 0" "allowed_count (d # ds) = (if d then 1 else 0) + allowed_count ds"
  by (simp_all add: allowed_count_def)

definition bucket_ok :: "bucket_state \<Rightarrow> bool" where
  "bucket_ok b \<longleftrightarrow> 0 \<le> tokens b \<and> tokens b \<le> bucket_burst b \<and> 0 \<le> bucket_rps b \<and>
     is_f64 (tokens b) \<and> is_f64 (bucket_burst b)"

lemma try_consume_frame [simp]:
  "last_refill (snd (try_consume now b)) = now"
  "bucket_rps (snd (try_consume now b)) = bucket_rps b"
  "bucket_burst (snd (try_consume now b)) = bucket_burst b"
  by (simp_all add: try_consume_def Let_def)

definition refill :: "nat \<Rightarrow> bucket_state \<Rightarrow> rat" where
  "refill now b = f64_mul (as_secs_f64 (now - last_refill b)) (bucket_rps b)"

definition refilled :: "nat \<Rightarrow> bucket_state \<Rightarrow> rat" where
  "refilled now b = min (f64_add (tokens b) (refill now b)) (bucket_burst b)"

lemma try_consume_iff: "fst (try_consume now b) \<longleftrightarrow> 1 \<le> refilled now b"
  by (simp add: try_consume_def refilled_def refill_def Let_def)

lemma try_consume_tokens:
  "tokens (snd (try_consume now b)) =
     (if fst (try_consume now b) then f64_sub (refilled now b) 1 else refilled now b)"
  by (simp add: try_consume_iff) (simp add: try_consume_def refilled_def refill_def Let_def)

lemma as_secs_f64_nonneg [simp]: "0 \<le> as_secs_f64 ns"
  by (simp add: as_secs_f64_def)

lemma refill_nonneg [simp]: "bucket_ok b \<Longrightarrow> 0 \<le> refill now b"
  by (simp add: refill_def bucket_ok_def)

lemma refilled_f64: "bucket_ok b \<Longrightarrow> is_f64 (refilled now b)"
  unfolding refilled_def by (intro is_f64_min is_f64_round add_nonneg_nonneg refill_nonneg) (simp_all add: bucket_ok_def)

lemma refilled_ge: "bucket_ok b \<Longrightarrow> tokens b \<le> refilled now b"
  using refill_nonneg [of b now] unfolding refilled_def
  by (intro fp.capped_sum_ge) (simp_all add: bucket_ok_def is_f64_def)

lemma refilled_le: "refilled now b \<le> bucket_burst b"
  by (simp add: refilled_def)

lemma bucket_ok_consume [inv_intros]: "bucket_ok b \<Longrightarrow> bucket_ok (snd (try_consume now b))"
proof -
  assume ok: "bucket_ok b"
  have "f64_sub (refilled now b) 1 \<le> refilled now b" if "1 \<le> refilled now b"
    using that refilled_f64 [OF ok, of now] by (intro fp.fl_le_fixed) (simp_all add: is_f64_def)
  then show ?thesis
    using ok refilled_ge [OF ok, of now] refilled_le [of now b] refilled_f64 [OF ok, of now]
    by (auto simp: bucket_ok_def try_consume_tokens try_consume_iff)
qed

lemma bucket_run_Cons:
  "fst (bucket_run b (now # ts)) = fst (try_consume now b) # fst (bucket_run (snd (try_consume now b)) ts)"
  "snd (bucket_run b (now # ts)) = snd (bucket_run (snd (try_consume now b)) ts)"
  by (simp_all add: split_beta Let_def)

lemma bucket_ok_run: "bucket_ok b \<Longrightarrow> bucket_ok (snd (bucket_run b ts))"
  by (induction ts arbitrary: b) (simp_all add: bucket_run_Cons bucket_ok_consume del: bucket_run.simps(2))

subsection \<open>Rounding errors of a refill\<close>

abbreviation (input) seconds :: "nat \<Rightarrow> rat" where
  "seconds ns \<equiv> of_nat ns / 1000000000"

lemma seconds_split: "seconds ns = of_nat (ns div 1000000000) + of_nat (ns mod 1000000000) / 1000000000"
proof -
  have "(of_nat ns :: rat) = of_nat (ns div 1000000000 * 1000000000 + ns mod 1000000000)" by simp
  then show ?thesis by (simp only: of_nat_add of_nat_mult) (simp add: add_divide_distrib)
qed

lemma nanos_exact: "f64_round (of_nat (ns mod 1000000000)) = of_nat (ns mod 1000000000)"
proof -
  have "ns mod 1000000000 < 1000000000" by simp
  then have "ns mod 1000000000 \<le> 2 ^ 53" by simp
  from is_f64_nat [OF this] show ?thesis by (simp add: is_f64_def)
qed

lemma as_secs_f64_le: "as_secs_f64 ns \<le> (1 + 1 / 2 ^ 53) ^ 2 * seconds ns"
proof -
  let ?s = "of_nat (ns div 1000000000) :: rat" and ?n = "of_nat (ns mod 1000000000) / 1000000000 :: rat"
  have "f64_round ?s + f64_round ?n \<le> (1 + 1 / 2 ^ 53) * (?s + ?n)"
    unfolding distrib_left by (intro add_mono fp.fl_le) simp_all
  then have "f64_round (f64_round ?s + f64_round ?n) \<le> (1 + 1 / 2 ^ 53) * (1 + 1 / 2 ^ 53) * (?s + ?n)"
    by (intro fp.fl_le_scaled) simp_all
  then show ?thesis unfolding as_secs_f64_def nanos_exact seconds_split [of ns] power2_eq_square .
qed

lemma as_secs_f64_ge: "(1 - 1 / 2 ^ 53) ^ 2 * seconds ns \<le> as_secs_f64 ns"
proof -
  let ?s = "of_nat (ns div 1000000000) :: rat" and ?n = "of_nat (ns mod 1000000000) / 1000000000 :: rat"
  have "(1 - 1 / 2 ^ 53) * (?s + ?n) \<le> f64_round ?s + f64_round ?n"
    unfolding distrib_left by (intro add_mono fp.fl_ge) simp_all
  then have "(1 - 1 / 2 ^ 53) * (1 - 1 / 2 ^ 53) * (?s + ?n) \<le> f64_round (f64_round ?s + f64_round ?n)"
    by (intro fp.fl_ge_scaled) simp_all
  then show ?thesis unfolding as_secs_f64_def nanos_exact seconds_split [of ns] power2_eq_square .
qed

lemma refill_le:
  assumes "0 \<le> bucket_rps b"
  shows "refill now b \<le> (1 + 1 / 2 ^ 53) ^ 3 * (seconds (now - last_refill b) * bucket_rps b)"
proof -
  have "as_secs_f64 (now - last_refill b) * bucket_rps b
      \<le> (1 + 1 / 2 ^ 53) ^ 2 * (seconds (now - last_refill b) * bucket_rps b)"
    using mult_right_mono [OF as_secs_f64_le assms] by (simp only: mult.assoc)
  from fp.fl_le_scaled [OF _ this] assms show ?thesis
    unfolding refill_def power3_eq_cube power2_eq_square by (simp add: mult.assoc)
qed

text \<open>What a step adds to the tokens, the message it lets through included.\<close>

lemma try_consume_conserves:
  assumes "bucket_ok b" "bucket_burst b \<le> 2 ^ 53"
  shows "(if fst (try_consume now b) then 1 else 0) + tokens (snd (try_consume now b)) \<le>
     tokens b + (1 + 1 / 2 ^ 53) ^ 3 * (seconds (now - last_refill b) * bucket_rps b) + bucket_burst b / 2 ^ 53"
proof -
  have "refilled now b \<le> tokens b + refill now b + 1 / 2 ^ 53 * bucket_burst b"
    using assms refill_nonneg [of b now] unfolding refilled_def
    by (intro fp.capped_sum_le) (simp_all add: bucket_ok_def)
  moreover have "refill now b \<le> (1 + 1 / 2 ^ 53) ^ 3 * (seconds (now - last_refill b) * bucket_rps b)"
    using assms by (intro refill_le) (simp add: bucket_ok_def)
  moreover have "f64_sub (refilled now b) 1 = refilled now b - 1" if "1 \<le> refilled now b"
    using that refilled_f64 [OF assms(1), of now] refilled_le [of now b] assms(2)
    by (intro f64_sub_one_exact) simp_all
  ultimately show ?thesis by (auto simp: try_consume_tokens try_consume_iff)
qed

text \<open>Conservation: what a run lets through plus what is left never exceeds the start plus the refill.\<close>

lemma bucket_run_conserves:
  "bucket_ok b \<Longrightarrow> bucket_burst b \<le> 2 ^ 53 \<Longrightarrow> sorted (last_refill b # ts) \<Longrightarrow>
     of_nat (allowed_count (fst (bucket_run b ts))) + tokens (snd (bucket_run b ts)) \<le>
       tokens b + (1 + 1 / 2 ^ 53) ^ 3 * (seconds (last (last_refill b # ts) - last_refill b) * bucket_rps b)
         + of_nat (length ts) * (bucket_burst b / 2 ^ 53)"
proof (induction ts arbitrary: b)
  case Nil
  then show ?case by simp
next
  case (Cons now ts)
  let ?b = "snd (try_consume now b)" and ?c = "(1 + 1 / 2 ^ 53) ^ 3 :: rat"
  define L where "L = last (now # ts)"
  have IH: "of_nat (allowed_count (fst (bucket_run ?b ts))) + tokens (snd (bucket_run ?b ts)) \<le>
      tokens ?b + ?c * (seconds (L - now) * bucket_rps b) + of_nat (length ts) * (bucket_burst b / 2 ^ 53)"
    using Cons.IH [of ?b] Cons.prems by (simp add: bucket_ok_consume L_def)
  have l: "last (last_refill b # now # ts) = L" by (simp add: L_def)
  have "last_refill b \<le> now" "now \<le> L" using Cons.prems(3) by (auto simp: L_def)
  then have "L - last_refill b = (L - now) + (now - last_refill b)" by simp
  then have "seconds (L - last_refill b) = seconds (L - now) + seconds (now - last_refill b)"
    by (simp only: of_nat_add add_divide_distrib)
  then have "?c * (seconds (L - last_refill b) * bucket_rps b) =
      ?c * (seconds (L - now) * bucket_rps b) + ?c * (seconds (now - last_refill b) * bucket_rps b)"
    by (simp only: distrib_left distrib_right)
  moreover have "of_nat (allowed_count (fst (bucket_run b (now # ts)))) =
      (if fst (try_consume now b) then 1 else 0) + (of_nat (allowed_count (fst (bucket_run ?b ts))) :: rat)"
    by (simp add: bucket_run_Cons del: bucket_run.simps)
  moreover have "of_nat (length (now # ts)) * (bucket_burst b / 2 ^ 53) =
      bucket_burst b / 2 ^ 53 + of_nat (length ts) * (bucket_burst b / 2 ^ 53)"
    by (simp add: algebra_simps)
  ultimately show ?case
    using IH try_consume_conserves [OF Cons.prems(1,2), of now] unfolding bucket_run_Cons(2) l by linarith
qed

text \<open>Every message is let through while the arrivals so far fit in the tokens at hand.\<close>

lemma bucket_run_burst:
  "bucket_ok b \<Longrightarrow> of_nat (length ts) \<le> tokens b \<Longrightarrow> length ts \<le> 2 ^ 53 \<Longrightarrow>
     fst (bucket_run b ts) = replicate (length ts) True"
proof (induction ts arbitrary: b)
  case Nil
  then show ?case by simp
next
  case (Cons now ts)
  have r: "of_nat (Suc (length ts)) \<le> refilled now b"
    using refilled_ge [OF Cons.prems(1), of now] Cons.prems(2) by (simp del: of_nat_Suc)
  then have a: "fst (try_consume now b)" by (simp add: try_consume_iff)
  have "is_f64 (of_nat (length ts))" using Cons.prems(3) by (intro is_f64_nat) simp
  with r have "of_nat (length ts) \<le> f64_sub (refilled now b) 1"
    by (intro fp.fl_ge_fixed) (simp_all add: is_f64_def)
  then have "of_nat (length ts) \<le> tokens (snd (try_consume now b))" using a by (simp add: try_consume_tokens)
  with a Cons show ?case by (simp add: bucket_run_Cons bucket_ok_consume del: bucket_run.simps)
qed

text \<open>From a burst of \<open>2 ^ 54\<close> on, taking a token is lost in the rounding and the bucket stays full.\<close>

lemma bucket_run_unspendable:
  "bucket_ok b \<Longrightarrow> tokens b = bucket_burst b \<Longrightarrow> 2 ^ 54 \<le> bucket_burst b \<Longrightarrow>
     fst (bucket_run b ts) = replicate (length ts) True"
proof (induction ts arbitrary: b)
  case Nil
  then show ?case by simp
next
  case (Cons now ts)
  have r: "refilled now b = bucket_burst b"
    using refilled_ge [OF Cons.prems(1), of now] refilled_le [of now b] Cons.prems(2) by simp
  with Cons.prems(3) have a: "fst (try_consume now b)" by (simp add: try_consume_iff)
  have "f64_sub (bucket_burst b) 1 = bucket_burst b"
    using Cons.prems by (intro f64_sub_one_absorbed) (simp_all add: bucket_ok_def)
  with a r have "tokens (snd (try_consume now b)) = bucket_burst b" by (simp add: try_consume_tokens)
  with a Cons show ?case by (simp add: bucket_run_Cons bucket_ok_consume del: bucket_run.simps)
qed

subsection \<open>Conforming traffic\<close>

text \<open>A whole rate and a gap that earns at least one token: the rounded refill is at least one as well.\<close>

lemma refill_one:
  assumes "rps = of_nat n" and "1 \<le> seconds ns * rps"
  shows "1 \<le> f64_mul (as_secs_f64 ns) rps"
proof -
  have "(1000000000 :: rat) \<le> of_nat (ns * n)" using assms by (simp add: field_simps)
  then have ge: "1000000000 \<le> ns * n" by (metis of_nat_le_iff of_nat_numeral)
  show ?thesis
  proof (cases "ns * n = 1000000000")
    case True
    then have n: "n dvd 1000000000" and "ns dvd 1000000000" by (metis dvd_triv_right, metis dvd_triv_left)
    then have "ns \<le> 1000000000" by (simp add: dvd_imp_le)
    have "of_nat ns * of_nat n = (1000000000 :: rat)" using True by (metis of_nat_mult of_nat_numeral)
    moreover from this have "n \<noteq> 0" by (intro notI) simp
    ultimately have inv: "seconds ns = 1 / of_nat n" by (simp add: field_simps)
    have "as_secs_f64 ns = f64_round (1 / of_nat n)"
    proof (cases "ns = 1000000000")
      case True
      with inv \<open>n \<noteq> 0\<close> have "n = 1" by (simp add: field_simps)
      with True show ?thesis using is_f64_01(2) by (simp add: as_secs_f64_def is_f64_def)
    next
      case False
      with \<open>ns \<le> 1000000000\<close> have "ns < 1000000000" by simp
      then have "as_secs_f64 ns = f64_round (f64_round (seconds ns))"
        using nanos_exact [of ns] by (simp add: as_secs_f64_def)
      then show ?thesis unfolding inv by (simp add: fp.fl_idem)
    qed
    then show ?thesis using reciprocal_of_divisor [OF n] by (simp add: assms(1))
  next
    case False
    with ge have "1000000001 \<le> ns * n" by simp
    then have "(1000000001 :: rat) \<le> of_nat (ns * n)" by (metis of_nat_le_iff of_nat_numeral)
    then have "1000000001 / 1000000000 \<le> seconds ns * rps" by (simp add: assms(1) field_simps)
    then have "(1 - 1 / 2 ^ 53) ^ 2 * (1000000001 / 1000000000) \<le> (1 - 1 / 2 ^ 53) ^ 2 * (seconds ns * rps)"
      by (intro mult_left_mono) simp_all
    moreover have "(1 :: rat) \<le> (1 - 1 / 2 ^ 53) ^ 2 * (1000000001 / 1000000000)"
      by (simp add: power2_eq_square)
    moreover have "(1 - 1 / 2 ^ 53) ^ 2 * (seconds ns * rps) \<le> as_secs_f64 ns * rps"
      using mult_right_mono [OF as_secs_f64_ge [of ns], of rps] by (simp add: assms(1) mult.assoc)
    ultimately have "1 \<le> as_secs_f64 ns * rps" by linarith
    then show ?thesis using is_f64_01(2) by (intro fp.fl_ge_fixed) (simp_all add: is_f64_def)
  qed
qed

text \<open>Arrivals spaced at least one token apart, the first measured from the last refill.\<close>

fun paced :: "rat \<Rightarrow> nat \<Rightarrow> nat list \<Rightarrow> bool" where
  "paced rps t [] \<longleftrightarrow> True"
| "paced rps t (now # ts) \<longleftrightarrow> of_nat (now - t) / 1000000000 * rps \<ge> 1 \<and> paced rps now ts"

lemma bucket_run_paced:
  "bucket_ok b \<Longrightarrow> 1 \<le> bucket_burst b \<Longrightarrow> bucket_rps b \<in> \<nat> \<Longrightarrow> paced (bucket_rps b) (last_refill b) ts \<Longrightarrow>
     fst (bucket_run b ts) = replicate (length ts) True"
proof (induction ts arbitrary: b)
  case Nil
  then show ?case by simp
next
  case (Cons now ts)
  from Cons.prems(3) obtain n where "bucket_rps b = of_nat n" by (auto elim: Nats_cases)
  with Cons.prems(4) have "1 \<le> refill now b" unfolding refill_def by (intro refill_one) simp_all
  with Cons.prems(1,2) have "1 \<le> refilled now b"
    unfolding refilled_def using is_f64_01(2) by (intro fp.capped_sum_ge) (simp_all add: bucket_ok_def is_f64_def)
  then have "fst (try_consume now b)" by (simp add: try_consume_iff)
  with Cons show ?case by (simp add: bucket_run_Cons bucket_ok_consume del: bucket_run.simps)
qed

subsection \<open>No overflow and no underflow\<close>

text \<open>The exact values that one step rounds; positive token counts stay above \<open>2 ^ -52\<close>.\<close>

definition exact_results :: "nat \<Rightarrow> bucket_state \<Rightarrow> rat list" where
  "exact_results now b =
     (let ns = now - last_refill b; secs = of_nat (ns div 1000000000); frac = of_nat (ns mod 1000000000) / 1000000000
      in [secs, frac, f64_round secs + f64_round frac, as_secs_f64 ns * bucket_rps b,
          tokens b + refill now b, refilled now b - (if fst (try_consume now b) then 1 else 0)])"

definition tokens_coarse :: "bucket_state \<Rightarrow> bool" where
  "tokens_coarse b \<longleftrightarrow> 0 < tokens b \<longrightarrow> 1 / 2 ^ 52 \<le> tokens b"

lemma f64_round_coarse: "1 / 2 ^ n \<le> x \<Longrightarrow> 1 / 2 ^ n \<le> f64_round x"
proof (rule fp.fl_ge_fixed)
  have "(1 :: rat) / 2 ^ n = of_int 1 * 2 powi - int n" by (simp add: power_int_minus field_simps)
  then show "f64_round (1 / 2 ^ n) = 1 / 2 ^ n" by (simp only:) (rule f64_round_exact, simp_all)
qed simp_all

lemma as_secs_f64_coarse: "0 < ns \<Longrightarrow> 1 / 2 ^ 30 \<le> as_secs_f64 ns"
proof -
  assume "0 < ns"
  then have "1 / 1000000000 \<le> seconds ns" by (simp add: divide_right_mono)
  then have "(1 - 1 / 2 ^ 53) ^ 2 * (1 / 1000000000) \<le> (1 - 1 / 2 ^ 53) ^ 2 * seconds ns"
    by (intro mult_left_mono) simp_all
  with as_secs_f64_ge [of ns] have "(1 - 1 / 2 ^ 53) ^ 2 * (1 / 1000000000) \<le> as_secs_f64 ns" by linarith
  moreover have "(1 :: rat) / 2 ^ 30 \<le> (1 - 1 / 2 ^ 53) ^ 2 * (1 / 1000000000)" by (simp add: power2_eq_square)
  ultimately show ?thesis by linarith
qed

lemma refill_coarse:
  assumes "bucket_rps b \<in> \<nat>"
  shows "as_secs_f64 (now - last_refill b) * bucket_rps b = 0 \<and> refill now b = 0 \<or>
    1 / 2 ^ 30 \<le> as_secs_f64 (now - last_refill b) * bucket_rps b \<and> 1 / 2 ^ 30 \<le> refill now b"
proof -
  from assms obtain n where n: "bucket_rps b = of_nat n" by (auto elim: Nats_cases)
  show ?thesis
  proof (cases "now - last_refill b = 0 \<or> n = 0")
    case True
    then show ?thesis by (auto simp: refill_def n as_secs_f64_def)
  next
    case False
    then have "1 / 2 ^ 30 \<le> as_secs_f64 (now - last_refill b)" by (intro as_secs_f64_coarse) simp
    moreover have "(1 :: rat) \<le> of_nat n" using False by simp
    ultimately have "1 / 2 ^ 30 * 1 \<le> as_secs_f64 (now - last_refill b) * bucket_rps b"
      unfolding n by (intro mult_mono) simp_all
    then show ?thesis unfolding refill_def using f64_round_coarse [of 30] by simp
  qed
qed

lemma refilled_coarse:
  assumes "bucket_ok b" "tokens_coarse b" "bucket_rps b \<in> \<nat>" "1 \<le> bucket_burst b"
  shows "0 < tokens b + refill now b \<longrightarrow> 1 / 2 ^ 52 \<le> tokens b + refill now b"
    and "0 < refilled now b \<longrightarrow> 1 / 2 ^ 52 \<le> refilled now b"
proof -
  have r: "(1 :: rat) / 2 ^ 52 \<le> 1 / 2 ^ 30" "(1 :: rat) / 2 ^ 52 \<le> 1" by simp_all
  have pos: "0 \<le> tokens b" "0 \<le> refill now b" using assms(1) by (simp_all add: bucket_ok_def)
  show sum: "0 < tokens b + refill now b \<longrightarrow> 1 / 2 ^ 52 \<le> tokens b + refill now b"
    using refill_coarse [OF assms(3), of now] assms(2) pos r unfolding tokens_coarse_def by fastforce
  show "0 < refilled now b \<longrightarrow> 1 / 2 ^ 52 \<le> refilled now b"
  proof (cases "tokens b + refill now b = 0")
    case False
    with pos sum have "1 / 2 ^ 52 \<le> tokens b + refill now b" by linarith
    from f64_round_coarse [OF this] assms(4) r show ?thesis by (simp add: refilled_def)
  qed (simp add: refilled_def)
qed

lemma tokens_coarse_consume [inv_intros]:
  assumes "bucket_ok b" "tokens_coarse b" "bucket_rps b \<in> \<nat>" "1 \<le> bucket_burst b"
  shows "tokens_coarse (snd (try_consume now b))"
proof -
  have "1 / 2 ^ 52 \<le> f64_sub (refilled now b) 1" if "1 < refilled now b"
    by (rule f64_round_coarse) (rule f64_above_one [OF refilled_f64 [OF assms(1)] that])
  then show ?thesis
    using refilled_coarse(2) [OF assms, of now]
    by (cases "refilled now b = 1") (auto simp: tokens_coarse_def try_consume_tokens try_consume_iff)
qed

lemma f64_round_le_power: "0 \<le> x \<Longrightarrow> x \<le> 2 ^ n \<Longrightarrow> f64_round x \<le> 2 ^ n"
proof (rule fp.fl_le_fixed)
  have "(2 :: rat) ^ n = of_int 1 * 2 powi int n" by simp
  then show "f64_round (2 ^ n) = 2 ^ n" by (simp only:) (rule f64_round_exact, simp_all)
qed

lemma whole_seconds:
  assumes "ns < 2 ^ 64 * 1000000000"
  shows "(of_nat (ns div 1000000000) :: rat) = 0 \<or> (1 :: rat) \<le> of_nat (ns div 1000000000)"
    "(of_nat (ns div 1000000000) :: rat) \<le> 2 ^ 64"
proof -
  have "ns div 1000000000 \<le> 2 ^ 64" using assms by (simp add: less_mult_imp_div_less less_imp_le)
  then have "(of_nat (ns div 1000000000) :: rat) \<le> of_nat (2 ^ 64)" by (simp only: of_nat_le_iff)
  then show "(of_nat (ns div 1000000000) :: rat) \<le> 2 ^ 64" by simp
  show "(of_nat (ns div 1000000000) :: rat) = 0 \<or> (1 :: rat) \<le> of_nat (ns div 1000000000)"
    by (cases "ns div 1000000000 = 0") (simp_all add: Suc_le_eq)
qed

lemma nanos_fraction:
  "(of_nat (ns mod 1000000000) / 1000000000 :: rat) = 0 \<or> (1 / 2 ^ 30 :: rat) \<le> of_nat (ns mod 1000000000) / 1000000000"
  "(of_nat (ns mod 1000000000) / 1000000000 :: rat) \<le> 1"
proof -
  have "ns mod 1000000000 \<le> 1000000000" by (simp add: less_imp_le)
  then have "(of_nat (ns mod 1000000000) :: rat) \<le> of_nat 1000000000" by (simp only: of_nat_le_iff)
  then show "(of_nat (ns mod 1000000000) / 1000000000 :: rat) \<le> 1" by simp
  have "1 / 2 ^ 30 \<le> (of_nat (ns mod 1000000000) / 1000000000 :: rat)" if "0 < ns mod 1000000000"
  proof -
    have "(1 :: rat) \<le> of_nat (ns mod 1000000000)" using that by (metis One_nat_def Suc_leI of_nat_1 of_nat_le_iff)
    then have "(1 :: rat) / 1000000000 \<le> of_nat (ns mod 1000000000) / 1000000000" by (rule divide_right_mono) simp
    moreover have "(1 :: rat) / 2 ^ 30 \<le> 1 / 1000000000" by simp
    ultimately show ?thesis by linarith
  qed
  then show "(of_nat (ns mod 1000000000) / 1000000000 :: rat) = 0 \<or> (1 / 2 ^ 30 :: rat) \<le> of_nat (ns mod 1000000000) / 1000000000"
    by (cases "ns mod 1000000000 = 0") simp_all
qed

lemma as_secs_f64_le_power: "ns < 2 ^ 64 * 1000000000 \<Longrightarrow> as_secs_f64 ns \<le> 2 ^ 65"
proof -
  assume ns: "ns < 2 ^ 64 * 1000000000"
  have "f64_round (of_nat (ns div 1000000000)) \<le> 2 ^ 64"
    using whole_seconds(2) [OF ns] by (intro f64_round_le_power) simp_all
  moreover have "f64_round (of_nat (ns mod 1000000000) / 1000000000) \<le> 2 ^ 0"
    using nanos_fraction(2) [of ns] by (intro f64_round_le_power) simp_all
  ultimately show ?thesis unfolding as_secs_f64_def nanos_exact by (intro f64_round_le_power) simp_all
qed

theorem try_consume_in_range:
  assumes "bucket_ok b" "tokens_coarse b" "bucket_rps b \<in> \<nat>" "1 \<le> bucket_burst b"
    and "bucket_rps b \<le> 2 ^ 64" "bucket_burst b \<le> 2 ^ 64" "now - last_refill b < 2 ^ 64 * 1000000000"
  shows "list_all f64_normal (exact_results now b)"
proof -
  let ?ns = "now - last_refill b"
  let ?s = "of_nat (?ns div 1000000000) :: rat" and ?f = "of_nat (?ns mod 1000000000) / 1000000000 :: rat"
  have small: "(1 :: rat) / 2 ^ 60 \<le> 1" "(1 :: rat) / 2 ^ 60 \<le> 1 / 2 ^ 30" "(1 :: rat) / 2 ^ 60 \<le> 1 / 2 ^ 52"
    by simp_all
  have big: "(2 :: rat) ^ 64 + 1 \<le> 2 ^ 200" "(2 :: rat) ^ 65 * 2 ^ 64 + 2 ^ 64 \<le> 2 ^ 200" by simp_all
  have s: "?s = 0 \<or> 1 \<le> ?s" "?s \<le> 2 ^ 64" using whole_seconds [OF assms(7)] by simp_all
  have f: "?f = 0 \<or> 1 / 2 ^ 30 \<le> ?f" "?f \<le> 1" by (rule nanos_fraction)+
  have mul: "as_secs_f64 ?ns * bucket_rps b \<le> 2 ^ 65 * 2 ^ 64"
    using as_secs_f64_le_power [OF assms(7)] assms(3,5) by (intro mult_mono) (auto elim: Nats_cases)
  have mul2: "refill now b \<le> 2 ^ 65 * 2 ^ 64"
    using f64_round_le_power [of "as_secs_f64 ?ns * bucket_rps b" 129] mul assms(1)
    by (simp add: refill_def bucket_ok_def)
  have t: "0 \<le> tokens b" "tokens b \<le> 2 ^ 64" "0 \<le> refill now b" using assms(1,6) by (auto simp: bucket_ok_def)
  have "f64_normal ?s" using s small big by (intro f64_normalI) auto
  moreover have "f64_normal ?f" using f small big by (intro f64_normalI) auto
  moreover have "f64_normal (f64_round ?s + f64_round ?f)"
  proof (rule f64_normalI)
    show "f64_round ?s + f64_round ?f \<le> 2 ^ 200"
      using f64_round_le_power [OF _ s(2)] f64_round_le_power [of ?f 0] f(2) big(1) by simp
    have "?s = 0 \<or> 1 \<le> f64_round ?s" using s(1) f64_round_coarse [of 0 ?s] by auto
    moreover have "?f = 0 \<or> 1 / 2 ^ 30 \<le> f64_round ?f" using f(1) f64_round_coarse [of 30 ?f] by auto
    ultimately show "1 / 2 ^ 60 \<le> f64_round ?s + f64_round ?f" if "0 < f64_round ?s + f64_round ?f"
      using that small f64_round_nonneg [of ?s] f64_round_nonneg [of ?f] by fastforce
  qed simp
  moreover have "f64_normal (as_secs_f64 ?ns * bucket_rps b)"
    using refill_coarse [OF assms(3), of now] small mul big assms(1)
    by (intro f64_normalI) (auto simp: bucket_ok_def)
  moreover have "f64_normal (tokens b + refill now b)"
    using refilled_coarse(1) [OF assms(1-4), of now] small t mul2 big by (intro f64_normalI) auto
  moreover have "f64_normal (refilled now b - (if fst (try_consume now b) then 1 else 0))"
  proof (rule f64_normalI)
    show "refilled now b - (if fst (try_consume now b) then 1 else 0) \<le> 2 ^ 200"
      using refilled_le [of now b] assms(6) big by auto
    show "0 \<le> refilled now b - (if fst (try_consume now b) then 1 else 0)"
      using refilled_ge [OF assms(1), of now] t by (auto simp: try_consume_iff)
    show "1 / 2 ^ 60 \<le> refilled now b - (if fst (try_consume now b) then 1 else 0)"
      if "0 < refilled now b - (if fst (try_consume now b) then 1 else 0)"
      using that refilled_coarse(2) [OF assms(1-4), of now] small f64_above_one [OF refilled_f64 [OF assms(1), of now]]
      by (auto split: if_splits)
  qed
  ultimately show ?thesis by (simp add: exact_results_def Let_def)
qed

section \<open>The limiter as independent buckets\<close>

definition limits_ok :: "rat \<times> rat \<Rightarrow> bool" where
  "limits_ok l \<longleftrightarrow> fst l \<in> \<nat> \<and> fst l \<le> 2 ^ 64 \<and> 1 \<le> snd l \<and> snd l \<le> 2 ^ 64 \<and> is_f64 (snd l)"

definition rl_ok :: "stream_rate_limiter \<Rightarrow> bool" where
  "rl_ok rl \<longleftrightarrow> limits_ok (default_rps rl, default_burst rl) \<and>
     (\<forall>(_, l) \<in> set (overrides rl). limits_ok l) \<and>
     (\<forall>s b. buckets rl s = Some b \<longrightarrow>
        bucket_ok b \<and> tokens_coarse b \<and> (bucket_rps b, bucket_burst b) = stream_limits rl s)"

lemma effective_burst_ge_1: "1 \<le> unat (effective_burst rps burst)"
proof -
  have "effective_burst rps burst \<noteq> 0"
    by (auto simp: effective_burst_def max_def not_le)
  then show ?thesis by (metis One_nat_def Suc_leI gr0I unat_eq_zero)
qed

lemma limits_ok_new: "limits_ok (u64_as_f64 r, u64_as_f64 (effective_burst r b))"
proof -
  have "(1 :: rat) \<le> of_nat (unat (effective_burst r b))"
    using effective_burst_ge_1 [of r b] by (metis of_nat_1 of_nat_le_iff)
  moreover have "f64_round (of_nat (unat w)) \<le> 2 ^ 64" for w :: u64
  proof (rule f64_round_le_power)
    have "unat w \<le> 2 ^ 64" using unsigned_less [of w, where ?'a = nat] by simp
    then have "(of_nat (unat w) :: rat) \<le> of_nat (2 ^ 64)" by (simp only: of_nat_le_iff)
    then show "(of_nat (unat w) :: rat) \<le> 2 ^ 64" by simp
  qed (rule of_nat_0_le_iff)
  ultimately show ?thesis using f64_round_nat [of "unat r"]
    by (simp only: limits_ok_def u64_as_f64_def fst_conv snd_conv) (simp add: fp.fl_ge_fixed is_f64_round)
qed

lemma rl_ok_new [inv_intros]: "rl_ok (rate_limiter_new rps burst ovr)"
  by (auto simp: rl_ok_def rate_limiter_new_def limits_ok_new)

lemma stream_limits_limits_ok: "rl_ok rl \<Longrightarrow> limits_ok (stream_limits rl s)"
  by (auto simp: rl_ok_def stream_limits_def split: option.splits dest!: map_of_SomeD)

lemma stream_limits_ok:
  assumes "rl_ok rl"
  shows "fst (stream_limits rl s) \<in> \<nat>" "0 \<le> fst (stream_limits rl s)"
    "1 \<le> snd (stream_limits rl s)" "is_f64 (snd (stream_limits rl s))"
    "fst (stream_limits rl s) \<le> 2 ^ 64" "snd (stream_limits rl s) \<le> 2 ^ 64"
  using stream_limits_limits_ok [OF assms, of s] by (auto simp: limits_ok_def elim: Nats_cases)

lemma stream_limits_buckets [simp]: "stream_limits (rl\<lparr>buckets := m\<rparr>) s = stream_limits rl s"
  by (simp add: stream_limits_def split: option.splits)

definition bucket_at :: "nat \<Rightarrow> stream_rate_limiter \<Rightarrow> str \<Rightarrow> bucket_state" where
  "bucket_at now rl s = (case buckets rl s of Some b \<Rightarrow> b
     | None \<Rightarrow> bucket_new now (fst (stream_limits rl s)) (snd (stream_limits rl s)))"

lemma rate_check_unlimited:
  "fst (stream_limits rl s) = 0 \<Longrightarrow> rate_check now rl s = ((True, i64_max), rl)"
  by (simp add: rate_check_def split_beta Let_def)

lemma rate_check_limited:
  "fst (stream_limits rl s) \<noteq> 0 \<Longrightarrow> rate_check now rl s =
     (let (allow, b) = try_consume now (bucket_at now rl s)
      in ((allow, token_count b), rl\<lparr>buckets := (buckets rl)(s \<mapsto> b)\<rparr>))"
  by (simp add: rate_check_def bucket_at_def split_beta Let_def)

lemma bucket_at_ok:
  assumes "rl_ok rl"
  shows "bucket_ok (bucket_at now rl s)" "tokens_coarse (bucket_at now rl s)"
    and "bucket_rps (bucket_at now rl s) = fst (stream_limits rl s)"
      "bucket_burst (bucket_at now rl s) = snd (stream_limits rl s)"
proof -
  have *: "bucket_ok b \<and> tokens_coarse b \<and> (bucket_rps b, bucket_burst b) = stream_limits rl s"
    if "buckets rl s = Some b" for b
    using assms that by (simp add: rl_ok_def)
  have new: "bucket_ok (bucket_new now (fst (stream_limits rl s)) (snd (stream_limits rl s)))"
    "tokens_coarse (bucket_new now (fst (stream_limits rl s)) (snd (stream_limits rl s)))"
    using stream_limits_ok [OF assms, of s] by (auto simp: bucket_new_def bucket_ok_def tokens_coarse_def)
  show "bucket_ok (bucket_at now rl s)" "tokens_coarse (bucket_at now rl s)"
    "bucket_rps (bucket_at now rl s) = fst (stream_limits rl s)"
    "bucket_burst (bucket_at now rl s) = snd (stream_limits rl s)"
    using * new by (auto simp: bucket_at_def bucket_new_def split: option.splits) (metis fst_conv snd_conv)+
qed

lemma rl_ok_check [inv_intros]: "rl_ok rl \<Longrightarrow> rl_ok (snd (rate_check now rl s))"
proof (cases "fst (stream_limits rl s) = 0")
  case False
  assume ok: "rl_ok rl"
  let ?b = "snd (try_consume now (bucket_at now rl s))"
  have "bucket_ok ?b \<and> tokens_coarse ?b \<and> (bucket_rps ?b, bucket_burst ?b) = stream_limits rl s"
    using bucket_at_ok [OF ok, of now s] stream_limits_ok [OF ok, of s]
    by (simp add: bucket_ok_consume tokens_coarse_consume)
  with ok show ?thesis by (auto simp: rate_check_limited [OF False] rl_ok_def split_beta Let_def)
qed (simp add: rate_check_unlimited)

text \<open>So no floating-point operation of the limiter overflows or underflows.\<close>

lemma rate_check_in_range:
  "rl_ok rl \<Longrightarrow> now - last_refill (bucket_at now rl s) < 2 ^ 64 * 1000000000 \<Longrightarrow>
     list_all f64_normal (exact_results now (bucket_at now rl s))"
  using bucket_at_ok [of rl now s] stream_limits_ok [of rl s] by (intro try_consume_in_range) simp_all

lemma rl_ok_run [inv_intros]: "rl_ok rl \<Longrightarrow> rl_ok (snd (rate_run rl evs))"
proof (induction evs arbitrary: rl)
  case (Cons e evs)
  then show ?case by (cases e) (simp add: split_beta Let_def rl_ok_check)
qed simp

text \<open>
  C30. The limiter's numbers stay what their type can hold. Whatever limits a limiter is created with and whatever checks it
  has answered, every bucket holds a double between zero and the burst of its stream, and for a check within \<open>2\<^sup>6\<^sup>4\<close> seconds
  of the last one of its stream the exact result of every floating-point operation is zero or a normal double: nothing
  overflows to infinity, becomes subnormal or is undefined.
\<close>

theorem limiter_stays_f64:
  assumes "rl = snd (rate_run (rate_limiter_new rps burst ovr) evs)"
  shows "(\<forall>s b. buckets rl s = Some b \<longrightarrow> is_f64 (tokens b) \<and> 0 \<le> tokens b \<and> tokens b \<le> snd (stream_limits rl s)) \<and>
    (\<forall>s now. now - last_refill (bucket_at now rl s) < 2 ^ 64 * 1000000000 \<longrightarrow>
       list_all f64_normal (exact_results now (bucket_at now rl s)))"
proof -
  have ok: "rl_ok rl" unfolding assms by (intro inv_intros)
  have "is_f64 (tokens b) \<and> 0 \<le> tokens b \<and> tokens b \<le> snd (stream_limits rl s)" if "buckets rl s = Some b" for s b
    using bucket_at_ok(1,4) [OF ok, of 0 s] that by (simp add: bucket_at_def bucket_ok_def)
  with rate_check_in_range [OF ok] show ?thesis by blast
qed

theorem limiter_stays_f64_witness:
  "list_all f64_normal (exact_results 7 (bucket_at 7 (snd (rate_run (rate_limiter_new 3 5 []) [(0, ''a''), (1, ''a'')])) ''a''))"
  using limiter_stays_f64 [OF refl, of 3 5 "[]" "[(0, ''a''), (1, ''a'')]"] by simp

definition arrivals :: "str \<Rightarrow> (nat \<times> str) list \<Rightarrow> nat list" where
  "arrivals s evs = map fst (filter (\<lambda>e. snd e = s) evs)"

definition decisions :: "str \<Rightarrow> (str \<times> bool) list \<Rightarrow> bool list" where
  "decisions s ds = map snd (filter (\<lambda>d. fst d = s) ds)"

lemma arrivals_simps [simp]:
  "arrivals s [] = []"
  "arrivals s ((now, s') # evs) = (if s' = s then now # arrivals s evs else arrivals s evs)"
  by (simp_all add: arrivals_def)

lemma decisions_simps [simp]:
  "decisions s [] = []"
  "decisions s ((s', d) # ds) = (if s' = s then d # decisions s ds else decisions s ds)"
  by (simp_all add: decisions_def)

lemma rate_run_Cons:
  "fst (rate_run rl ((now, s) # evs)) =
     (s, fst (fst (rate_check now rl s))) # fst (rate_run (snd (rate_check now rl s)) evs)"
  "snd (rate_run rl ((now, s) # evs)) = snd (rate_run (snd (rate_check now rl s)) evs)"
  by (simp_all add: split_beta Let_def)

lemma rate_check_limits [simp]: "stream_limits (snd (rate_check now rl s')) s = stream_limits rl s"
  by (cases "fst (stream_limits rl s') = 0")
     (simp_all add: rate_check_unlimited rate_check_limited split_beta Let_def)

lemma rate_check_other [simp]: "s \<noteq> s' \<Longrightarrow> buckets (snd (rate_check now rl s')) s = buckets rl s"
  by (cases "fst (stream_limits rl s') = 0")
     (simp_all add: rate_check_unlimited rate_check_limited split_beta Let_def)

lemma rate_check_same:
  assumes "fst (stream_limits rl s) \<noteq> 0"
  shows "fst (fst (rate_check now rl s)) = fst (try_consume now (bucket_at now rl s))"
    and "buckets (snd (rate_check now rl s)) s = Some (snd (try_consume now (bucket_at now rl s)))"
  by (simp_all add: rate_check_limited [OF assms] split_beta Let_def)

lemma rate_run_bucket:
  "fst (stream_limits rl s) \<noteq> 0 \<Longrightarrow>
     decisions s (fst (rate_run rl evs)) = fst (bucket_run (bucket_at (hd (arrivals s evs)) rl s) (arrivals s evs))"
proof (induction evs arbitrary: rl)
  case Nil
  then show ?case by simp
next
  case (Cons e evs)
  obtain now s' where e: "e = (now, s')" by (cases e)
  note IH = Cons.IH [of "snd (rate_check now rl s')"]
  show ?case
  proof (cases "s' = s")
    case True
    have "bucket_at t (snd (rate_check now rl s)) s = snd (try_consume now (bucket_at now rl s))" for t
      using Cons.prems by (simp add: bucket_at_def [of t] rate_check_same)
    then show ?thesis
      using IH Cons.prems True
      by (simp add: e rate_run_Cons bucket_run_Cons rate_check_same del: rate_run.simps bucket_run.simps)
  next
    case False
    then have "bucket_at t (snd (rate_check now rl s')) s = bucket_at t rl s" for t
      by (simp add: bucket_at_def cong: option.case_cong)
    then show ?thesis using IH Cons.prems False by (simp add: e rate_run_Cons del: rate_run.simps)
  qed
qed

lemma rate_run_unlimited:
  "fst (stream_limits rl s) = 0 \<Longrightarrow> decisions s (fst (rate_run rl evs)) = replicate (length (arrivals s evs)) True"
proof (induction evs arbitrary: rl)
  case Nil
  then show ?case by simp
next
  case (Cons e evs)
  obtain now s' where e: "e = (now, s')" by (cases e)
  show ?case
    using Cons.IH [of "snd (rate_check now rl s')"] Cons.prems
    by (auto simp: e rate_run_Cons rate_check_unlimited simp del: rate_run.simps)
qed

lemma arrivals_filter: "arrivals s (filter (\<lambda>e. snd e = s) evs) = arrivals s evs"
  by (simp add: arrivals_def)

lemma arrivals_sorted: "sorted (map fst evs) \<Longrightarrow> sorted (arrivals s evs)"
  by (simp add: arrivals_def sorted_filter)

lemma bucket_at_new_limiter [simp]:
  "bucket_at t (rate_limiter_new r b ovr) s =
     bucket_new t (fst (stream_limits (rate_limiter_new r b ovr) s)) (snd (stream_limits (rate_limiter_new r b ovr) s))"
  by (simp add: bucket_at_def) (simp add: rate_limiter_new_def)

lemma bucket_new_simps [simp]:
  "tokens (bucket_new t r b) = b" "last_refill (bucket_new t r b) = t"
  "bucket_rps (bucket_new t r b) = r" "bucket_burst (bucket_new t r b) = b"
  "bucket_ok (bucket_new t r b) \<longleftrightarrow> 0 \<le> b \<and> 0 \<le> r \<and> is_f64 b"
  by (auto simp: bucket_new_def bucket_ok_def)

lemma new_limiter_bucket_ok:
  "bucket_ok (bucket_new t (fst (stream_limits (rate_limiter_new r b ovr) s))
     (snd (stream_limits (rate_limiter_new r b ovr) s)))"
  using stream_limits_ok [OF rl_ok_new, of r b ovr s] by simp

lemma is_disabled_iff:
  assumes ok: "hm_ok (overrides rl)" and nonneg: "\<And>s. 0 \<le> fst (stream_limits rl s)"
  shows "is_disabled rl \<longleftrightarrow> (\<forall>s. fst (stream_limits rl s) = 0)"
proof
  assume d: "is_disabled rl"
  have "\<not> 0 < fst (stream_limits rl s)" for s
    using d by (auto simp: is_disabled_def stream_limits_def list_ex_iff split: option.splits dest!: map_of_SomeD)
  with nonneg show "\<forall>s. fst (stream_limits rl s) = 0" by (meson dual_order.antisym not_less)
next
  assume z: "\<forall>s. fst (stream_limits rl s) = 0"
  have ovr: "rps = 0" if "(name, rps, burst) \<in> set (overrides rl)" for name rps burst
    using z [rule_format, of name] that ok by (simp add: stream_limits_def hm_ok_def hm_keys_def)
  have "\<not> finite (UNIV :: str set)" by (rule infinite_UNIV_listI)
  then obtain s :: str where "s \<notin> fst ` set (overrides rl)"
    by (meson ex_new_if_finite finite_imageI finite_set)
  then have "map_of (overrides rl) s = None" by (simp add: map_of_eq_None_iff)
  then have "default_rps rl = 0" using z [rule_format, of s] by (simp add: stream_limits_def)
  moreover have "\<not> list_ex (\<lambda>(_, (rps, _)). rps > 0) (overrides rl)"
    using ovr by (auto simp: list_ex_iff)
  ultimately show "is_disabled rl" by (simp add: is_disabled_def)
qed

section \<open>Properties\<close>

text \<open>
  C14. Rate bound. For a fresh limiter and any interleaving of messages of many streams in
  the order of the clock, the number of messages of a rate-limited stream that are let
  through is at most its burst plus its rate times the seconds from its first arrival to its last,
  up to the rounding of the floating-point arithmetic: a factor \<open>(1 + u) ^ 3\<close> on the refill and
  \<open>u\<close> times the burst for each message, where \<open>u = 2 ^ -53\<close>. The burst is at most \<open>2 ^ 53\<close>.
\<close>

theorem stream_rate_bound:
  assumes "rl = rate_limiter_new r b ovr" and "stream_limits rl s = (rps, burst)" and "rps \<noteq> 0"
    and "burst \<le> 2 ^ 53" and "sorted (map fst evs)" and "arrivals s evs = t # ts"
  shows "of_nat (allowed_count (decisions s (fst (rate_run rl evs))))
           \<le> burst + (1 + 1 / 2 ^ 53) ^ 3 * (of_nat (last (t # ts) - t) / 1000000000 * rps)
               + of_nat (length (t # ts)) * (burst / 2 ^ 53)"
proof -
  have ok: "bucket_ok (bucket_new t rps burst)" using new_limiter_bucket_ok [of t r b ovr s] assms by simp
  have sorted: "sorted (t # t # ts)"
    using arrivals_sorted [OF assms(5), of s] unfolding assms(6) by simp
  have run: "decisions s (fst (rate_run rl evs)) = fst (bucket_run (bucket_new t rps burst) (t # ts))"
    using rate_run_bucket [of rl s evs] assms by (simp del: bucket_run.simps)
  have "0 \<le> tokens (snd (bucket_run (bucket_new t rps burst) (t # ts)))"
    using bucket_ok_run [OF ok, of "t # ts"] by (simp add: bucket_ok_def del: bucket_run.simps)
  moreover have l: "last (t # t # ts) = last (t # ts)" by simp
  ultimately show ?thesis
    using bucket_run_conserves [OF ok, of "t # ts", unfolded bucket_new_simps l, OF assms(4) sorted]
    unfolding run by linarith
qed

theorem stream_rate_bound_witness:
  "of_nat (allowed_count (decisions ''a'' (fst (rate_run (rate_limiter_new 1 2 [])
      [(0, ''a''), (0, ''b''), (0, ''a''), (5, ''a''), (1000000000, ''a'')]))))
     \<le> (2 :: rat) + (1 + 1 / 2 ^ 53) ^ 3 * (of_nat (last [0, 0, 5, 1000000000] - 0) / 1000000000 * 1)
         + of_nat (length [0, 0, 5, 1000000000 :: nat]) * (2 / 2 ^ 53)"
  by (rule stream_rate_bound [OF refl, of 1 2 "[]"])
     (simp_all add: stream_limits_def rate_limiter_new_def u64_as_f64_def effective_burst_def)

text \<open>
  C37. Conforming traffic is never dropped. After the first message of a stream, which a fresh
  limiter always lets through, messages spaced at least one token apart all pass, whatever
  the other streams send in between.
\<close>

theorem paced_stream_passes:
  assumes "rl = rate_limiter_new r b ovr" and "arrivals s evs = t # ts"
    and "paced (fst (stream_limits rl s)) t ts"
  shows "decisions s (fst (rate_run rl evs)) = replicate (length (t # ts)) True"
proof (cases "fst (stream_limits rl s) = 0")
  case True
  then show ?thesis using rate_run_unlimited [OF True, of evs] assms(2) by simp
next
  case False
  let ?b = "bucket_new t (fst (stream_limits rl s)) (snd (stream_limits rl s))"
  have burst: "1 \<le> snd (stream_limits rl s)" and nat: "fst (stream_limits rl s) \<in> \<nat>"
    using stream_limits_ok [OF rl_ok_new] assms(1) by simp_all
  have ok: "bucket_ok ?b" using new_limiter_bucket_ok assms(1) by simp
  have "fst (try_consume t ?b)" using burst refilled_ge [OF ok, of t] by (simp add: try_consume_iff)
  moreover have "fst (bucket_run (snd (try_consume t ?b)) ts) = replicate (length ts) True"
    using assms(3) burst nat bucket_ok_consume [OF ok] by (intro bucket_run_paced) simp_all
  moreover have "decisions s (fst (rate_run rl evs)) = fst (bucket_run ?b (t # ts))"
    using rate_run_bucket [OF False, of evs] assms(1,2) by (simp del: bucket_run.simps)
  ultimately show ?thesis by (simp add: bucket_run_Cons del: bucket_run.simps)
qed

theorem paced_stream_passes_witness:
  "decisions ''a'' (fst (rate_run (rate_limiter_new 2 1 [])
     [(7, ''a''), (8, ''b''), (500000007, ''a''), (500000008, ''b''), (1000000007, ''a'')]))
   = replicate (length [7, 500000007, 1000000007 :: nat]) True"
  by (rule paced_stream_passes [OF refl])
     (simp_all add: stream_limits_def rate_limiter_new_def u64_as_f64_def effective_burst_def)

text \<open>
  Streams do not interfere. In any interleaving the decisions on the messages of one
  stream are the decisions the limiter makes when that stream is the only one.
\<close>

theorem streams_isolated:
  "decisions s (fst (rate_run rl evs)) = decisions s (fst (rate_run rl (filter (\<lambda>e. snd e = s) evs)))"
  by (cases "fst (stream_limits rl s) = 0") (simp_all add: rate_run_unlimited rate_run_bucket arrivals_filter)

text \<open>
  The disabled test is exact: a limiter built by \<open>new\<close> is disabled if and only if no
  stream can ever be refused, and then a check changes nothing and reports the largest count.
  So leaving a disabled limiter out of the fan-out path, as the server does, is invisible.
\<close>

theorem disabled_limiter_exact:
  assumes "hm_ok ovr" and "rl = rate_limiter_new r b ovr"
  shows "is_disabled rl \<longleftrightarrow> (\<forall>now s. rate_check now rl s = ((True, i64_max), rl))"
proof -
  have nonneg: "0 \<le> fst (stream_limits rl s)" for s
    using stream_limits_ok(2) [OF rl_ok_new] assms(2) by simp
  have ok: "hm_ok (overrides rl)"
    using assms(1) by (simp add: assms(2) rate_limiter_new_def hm_ok_def hm_keys_def split_def o_def)
  have "rate_check now rl s \<noteq> ((True, i64_max), rl)" if "fst (stream_limits rl s) \<noteq> 0" for now s
  proof
    assume "rate_check now rl s = ((True, i64_max), rl)"
    moreover have "buckets rl s = None" by (simp add: assms(2) rate_limiter_new_def)
    ultimately show False using rate_check_same(2) [OF that, of now] by simp
  qed
  then have "(\<forall>now s. rate_check now rl s = ((True, i64_max), rl)) \<longleftrightarrow> (\<forall>s. fst (stream_limits rl s) = 0)"
    using rate_check_unlimited by blast
  with is_disabled_iff [OF ok nonneg] show ?thesis by simp
qed

theorem disabled_limiter_exact_witness:
  "is_disabled (rate_limiter_new 0 0 [(''news'', (0, 5))]) \<longleftrightarrow>
     (\<forall>now s. rate_check now (rate_limiter_new 0 0 [(''news'', (0, 5))]) s
        = ((True, i64_max), rate_limiter_new 0 0 [(''news'', (0, 5))]))"
  by (rule disabled_limiter_exact [OF _ refl]) (simp add: hm_ok_def hm_keys_def)

text \<open>
  C38. An oversized burst disables the limit. A stream whose burst is \<open>2 ^ 54\<close> or more is never refused,
  however fast it sends and whatever its rate, because taking a token off such a count is lost in rounding.
\<close>

theorem oversized_burst_never_limits:
  assumes "rl = rate_limiter_new r b ovr" and "2 ^ 54 \<le> snd (stream_limits rl s)"
  shows "decisions s (fst (rate_run rl evs)) = replicate (length (arrivals s evs)) True"
proof (cases "fst (stream_limits rl s) = 0")
  case True
  then show ?thesis by (rule rate_run_unlimited)
next
  case False
  let ?b = "bucket_new (hd (arrivals s evs)) (fst (stream_limits rl s)) (snd (stream_limits rl s))"
  have "fst (bucket_run ?b (arrivals s evs)) = replicate (length (arrivals s evs)) True"
    using assms new_limiter_bucket_ok by (intro bucket_run_unspendable) simp_all
  then show ?thesis using rate_run_bucket [OF False, of evs] assms(1) by simp
qed

theorem oversized_burst_never_limits_witness:
  "decisions ''a'' (fst (rate_run (rate_limiter_new 1 (2 ^ 54) []) [(0, ''a''), (0, ''a''), (1, ''a'')]))
     = replicate (length (arrivals ''a'' [(0 :: nat, ''a''), (0, ''a''), (1, ''a'')])) True"
proof (rule oversized_burst_never_limits [OF refl])
  have "(2 :: rat) ^ 54 \<le> f64_round (2 ^ 54)" using f64_round_exact [of 1 54] by simp
  then show "2 ^ 54 \<le> snd (stream_limits (rate_limiter_new 1 (2 ^ 54) []) ''a'')"
    by (simp add: stream_limits_def rate_limiter_new_def u64_as_f64_def effective_burst_def)
qed

text \<open>The default burst wraps: a rate of \<open>2 ^ 63\<close> with no configured burst gets a burst of one.\<close>

lemma default_burst_wraps: "effective_burst (2 ^ 63) 0 = 1"
  by (simp add: effective_burst_def)

end
