(* ===== verification/Metrics.thy ===== *)
theory Metrics
  imports Prelude
begin

text \<open>
  The metrics of the gateway (\<open>src/src/metrics.rs\<close>): the values the code updates, and the
  table of what it registers with Prometheus. Counters and histogram sample counts are 64-bit words;
  gauges are integers; the durations a histogram observes are not modelled, only that
  an observation was made. Bucket bounds are in units of ten microseconds. The Prometheus registry is a
  parameter: which registrations it accepts, given the names it already holds.
\<close>

record metrics =
  connections_active :: i64
  connections_total :: u64
  client_reconnect_handshake_total :: u64
  connections_rejected :: u64
  messages_fanned_out :: u64
  fanout_duration_secs :: u64
  nats_consumer_lag :: i64
  auth_duration_secs :: u64
  handshake_ok_replay_capable_total :: u64
  handshake_ok_legacy_total :: u64
  handshake_legacy_warn_total :: u64
  handshake_rejected_total :: u64
  handshake_rejected_non_replay_capable_total :: u64
  handshake_soft_non_replay_subscribe_allowed_total :: u64
  forced_reconnect_backpressure_total :: u64
  replay_success_total :: u64
  replay_failure_total :: u64
  replay_window_exceeded_total :: u64
  replay_aborted_peer_gone_total :: u64
  replay_truncated_total :: u64
  replay_in_flight :: i64
  replay_catch_up_duration_secs :: u64
  replay_first_delivery_secs :: u64
  stream_rate_limited_total :: "str \<Rightarrow> u64"
  stream_tokens_available :: "str \<rightharpoonup> i64"

definition metrics_zero :: metrics where
  "metrics_zero =
     \<lparr>connections_active = 0, connections_total = 0, client_reconnect_handshake_total = 0,
      connections_rejected = 0, messages_fanned_out = 0, fanout_duration_secs = 0, nats_consumer_lag = 0,
      auth_duration_secs = 0, handshake_ok_replay_capable_total = 0, handshake_ok_legacy_total = 0,
      handshake_legacy_warn_total = 0, handshake_rejected_total = 0,
      handshake_rejected_non_replay_capable_total = 0,
      handshake_soft_non_replay_subscribe_allowed_total = 0, forced_reconnect_backpressure_total = 0,
      replay_success_total = 0, replay_failure_total = 0, replay_window_exceeded_total = 0,
      replay_aborted_peer_gone_total = 0, replay_truncated_total = 0, replay_in_flight = 0,
      replay_catch_up_duration_secs = 0, replay_first_delivery_secs = 0,
      stream_rate_limited_total = (\<lambda>_. 0), stream_tokens_available = Map.empty\<rparr>"

datatype metric_kind = Int_gauge | Int_counter | Histogram "int list" | Int_counter_vec | Int_gauge_vec

type_synonym metric_desc = "str \<times> str \<times> metric_kind"

definition metric_table :: "metric_desc list" where
  "metric_table =
     [(''turbocable_connections_active'', ''Current number of open WebSocket connections'', Int_gauge),
      (''turbocable_connections_total'', ''Total WebSocket connections accepted since startup'', Int_counter),
      (''turbocable_client_reconnect_handshake_total'', ''Client hello frames with last_seq > 0 (resume / reconnect with delivery history)'', Int_counter),
      (''turbocable_connections_rejected_total'', ''Connections rejected due to auth failure or per-IP limit'', Int_counter),
      (''turbocable_messages_fanned_out_total'', ''Total WebSocket frames delivered to clients via fan-out'', Int_counter),
      (''turbocable_fanout_duration_seconds'', ''Fan-out latency in seconds'', Histogram [5, 10, 25, 50, 100, 250, 500, 1000, 2500, 5000, 10000, 25000]),
      (''turbocable_nats_consumer_lag'', ''NATS JetStream consumer pending message count'', Int_gauge),
      (''turbocable_auth_duration_seconds'', ''JWT verification latency in seconds'', Histogram [5, 10, 25, 50, 100, 250, 500, 1000, 2500]),
      (''turbocable_handshake_ok_replay_capable_total'', ''Clients that completed hello handshake with replay_v1 capability'', Int_counter),
      (''turbocable_handshake_ok_legacy_total'', ''Clients that completed hello handshake without replay_v1 capability'', Int_counter),
      (''turbocable_handshake_legacy_warn_total'', ''Commands received before hello in compat mode (legacy client signal)'', Int_counter),
      (''turbocable_handshake_rejected_total'', ''Commands rejected because client had not sent hello (enforce mode)'', Int_counter),
      (''turbocable_handshake_rejected_non_replay_capable_total'', ''Subscribe rejected in hard_enforce: client not replay_v1-capable'', Int_counter),
      (''turbocable_handshake_soft_non_replay_subscribe_allowed_total'', ''Subscribe allowed in soft_enforce without replay_v1 (legacy client signal)'', Int_counter),
      (''turbocable_forced_reconnect_backpressure_total'', ''Connections evicted due to full outbound channel (backpressure reconnect)'', Int_counter),
      (''turbocable_replay_success_total'', ''Replay tasks that completed without error'', Int_counter),
      (''turbocable_replay_failure_total'', ''Replay tasks that failed with a transient JetStream error'', Int_counter),
      (''turbocable_replay_window_exceeded_total'', ''Replay tasks aborted due to client last_seq outside the retention window'', Int_counter),
      (''turbocable_replay_aborted_peer_gone_total'', ''Replay tasks stopped because the WebSocket outbound channel closed mid-replay'', Int_counter),
      (''turbocable_replay_truncated_total'', ''Replay tasks that hit the per-stream message cap and required client resync'', Int_counter),
      (''turbocable_replay_in_flight'', ''Number of active replay tasks'', Int_gauge),
      (''turbocable_replay_catch_up_duration_seconds'', ''Total wall-clock time for a replay task from start to completion'', Histogram [5000, 10000, 25000, 50000, 100000, 200000, 500000, 1000000, 3000000, 6000000]),
      (''turbocable_replay_first_delivery_seconds'', ''Time from replay start to first message enqueued in the outbound channel'', Histogram [100, 500, 1000, 2500, 5000, 10000, 25000, 50000, 100000, 200000, 500000]),
      (''turbocable_stream_rate_limited_total'', ''Messages dropped due to per-stream rate limiting'', Int_counter_vec),
      (''turbocable_stream_tokens_available'', ''Current token count for the per-stream rate limiter (gauge sample)'', Int_gauge_vec)]"

section \<open>Registration\<close>

text \<open>
  \<open>expect\<close> panics on the first refusal, which is \<open>None\<close>. The state of the process is the list
  of registered names and the cell of the singleton.
\<close>

fun register_all :: "(str list \<Rightarrow> metric_desc \<Rightarrow> bool) \<Rightarrow> str list \<Rightarrow> metric_desc list \<Rightarrow> str list option" where
  "register_all accepts reg [] = Some reg"
| "register_all accepts reg (d # ds) =
     (if accepts reg d then register_all accepts (fst d # reg) ds else None)"

definition metrics_create :: "(str list \<Rightarrow> metric_desc \<Rightarrow> bool) \<Rightarrow> str list \<Rightarrow> (metrics \<times> str list) option" where
  "metrics_create accepts reg =
     (case register_all accepts reg metric_table of None \<Rightarrow> None | Some reg1 \<Rightarrow> Some (metrics_zero, reg1))"

type_synonym metrics_process = "metrics option \<times> str list"

definition metrics_new :: "(str list \<Rightarrow> metric_desc \<Rightarrow> bool) \<Rightarrow> metrics_process \<Rightarrow> (metrics \<times> metrics_process) option" where
  "metrics_new accepts p =
     (case fst p of
        Some m \<Rightarrow> Some (m, p)
      | None \<Rightarrow> (case metrics_create accepts (snd p) of
          None \<Rightarrow> None
        | Some (m, reg) \<Rightarrow> Some (m, (Some m, reg))))"

fun metrics_new_many :: "(str list \<Rightarrow> metric_desc \<Rightarrow> bool) \<Rightarrow> nat \<Rightarrow> metrics_process \<Rightarrow> (metrics list \<times> metrics_process) option" where
  "metrics_new_many accepts 0 p = Some ([], p)"
| "metrics_new_many accepts (Suc n) p =
     (case metrics_new accepts p of
        None \<Rightarrow> None
      | Some (m, p1) \<Rightarrow> (case metrics_new_many accepts n p1 of
          None \<Rightarrow> None
        | Some (ms, p2) \<Rightarrow> Some (m # ms, p2)))"

text \<open>The form of a description that Prometheus documents as valid.\<close>

definition metric_start_chars :: "char set" where
  "metric_start_chars = set ''abcdefghijklmnopqrstuvwxyzABCDEFGHIJKLMNOPQRSTUVWXYZ_:''"

definition metric_name_ok :: "str \<Rightarrow> bool" where
  "metric_name_ok name \<longleftrightarrow>
     (case name of [] \<Rightarrow> False
      | c # cs \<Rightarrow> c \<in> metric_start_chars \<and> list_all (\<lambda>x. x \<in> metric_start_chars \<or> x \<in> set ''0123456789'') cs)"

fun strictly_increasing :: "int list \<Rightarrow> bool" where
  "strictly_increasing (x # y # zs) \<longleftrightarrow> x < y \<and> strictly_increasing (y # zs)"
| "strictly_increasing _ \<longleftrightarrow> True"

fun buckets_ok :: "metric_kind \<Rightarrow> bool" where
  "buckets_ok (Histogram bs) \<longleftrightarrow> bs \<noteq> [] \<and> strictly_increasing bs"
| "buckets_ok _ \<longleftrightarrow> True"

definition desc_ok :: "metric_desc \<Rightarrow> bool" where
  "desc_ok d \<longleftrightarrow> metric_name_ok (fst d) \<and> fst (snd d) \<noteq> [] \<and> buckets_ok (snd (snd d))"

lemma metric_table_desc_ok: "list_all desc_ok metric_table"
  by code_simp

lemma metric_table_distinct: "distinct (map fst metric_table)"
  by code_simp

text \<open>The documented promise of the registry: it accepts a valid description whose name is new.\<close>

definition accepts_valid :: "(str list \<Rightarrow> metric_desc \<Rightarrow> bool) \<Rightarrow> bool" where
  "accepts_valid accepts \<longleftrightarrow> (\<forall>reg d. desc_ok d \<and> fst d \<notin> set reg \<longrightarrow> accepts reg d)"

lemma register_all_ok:
  "accepts_valid accepts \<Longrightarrow> list_all desc_ok ds \<Longrightarrow> distinct (map fst ds) \<Longrightarrow> set (map fst ds) \<inter> set reg = {} \<Longrightarrow>
     register_all accepts reg ds = Some (rev (map fst ds) @ reg)"
proof (induction ds arbitrary: reg)
  case Nil
  then show ?case by simp
next
  case (Cons d ds)
  then have "desc_ok d" "fst d \<notin> set reg" by auto
  then have "accepts reg d" using Cons.prems(1) unfolding accepts_valid_def by blast
  moreover have "register_all accepts (fst d # reg) ds = Some (rev (map fst ds) @ fst d # reg)"
    using Cons.prems by (intro Cons.IH) auto
  ultimately show ?case by simp
qed

lemma metrics_create_ok:
  "accepts_valid accepts \<Longrightarrow> metrics_create accepts [] = Some (metrics_zero, rev (map fst metric_table))"
  using register_all_ok [OF _ metric_table_desc_ok metric_table_distinct, of accepts "[]"]
  by (simp add: metrics_create_def)

lemma metrics_new_cached: "metrics_new_many accepts n (Some m, reg) = Some (replicate n m, (Some m, reg))"
  by (induction n) (simp_all add: metrics_new_def)

section \<open>Properties\<close>

text \<open>
  Starting the metrics never panics. The names of the 25 metrics are valid and pairwise
  distinct and every histogram's bounds increase, so with a registry that accepts valid new
  descriptions any number of calls of \<open>new\<close> in one process succeed, all return the same handle,
  and each metric is registered exactly once.
\<close>

theorem metrics_new_total:
  assumes "accepts_valid accepts"
  shows "metrics_new_many accepts (Suc n) (None, []) =
    Some (replicate (Suc n) metrics_zero, (Some metrics_zero, rev (map fst metric_table)))"
  by (simp add: metrics_new_def metrics_create_ok [OF assms] metrics_new_cached)

theorem metrics_new_total_witness:
  "metrics_new_many (\<lambda>reg d. desc_ok d \<and> fst d \<notin> set reg) 3 (None, []) =
    Some (replicate 3 metrics_zero, (Some metrics_zero, rev (map fst metric_table)))"
  using metrics_new_total [of "\<lambda>reg d. desc_ok d \<and> fst d \<notin> set reg" 2]
  by (simp add: accepts_valid_def numeral_3_eq_3 numeral_2_eq_2 del: metrics_new_many.simps)

end
