(* ===== verification/Nats.thy ===== *)
theory Nats
  imports Registry Protocol Rate_Limiter Metrics
begin

text \<open>
  The JetStream side of the gateway (\<open>src/src/pubsub/nats.rs\<close>): publishing, the fan-out of
  what the durable consumer delivers. What the NATS client
  returns is an argument of each operation: the result of every call, and the items of the message streams in
  order. Decoding of payloads is a parameter, like the codecs.
\<close>

section \<open>Constants and messages\<close>

definition SUBJECT_PREFIX :: str where
  "SUBJECT_PREFIX = ''TURBOCABLE.''"

definition STREAM_NAME :: str where
  "STREAM_NAME = ''TURBOCABLE''"

definition MAX_REPLAY_MESSAGES :: nat where
  "MAX_REPLAY_MESSAGES = 10000"

record value_libs =
  json_value_from_slice :: "bytes \<Rightarrow> json_value option"
  rmp_value_from_slice :: "bytes \<Rightarrow> json_value option"

record nats_message =
  subject :: str
  msg_payload :: bytes
  msg_info :: "u64 option"

definition extract_stream_name :: "str \<Rightarrow> str" where
  "extract_stream_name subj = (case strip_prefix SUBJECT_PREFIX subj of Some s \<Rightarrow> s | None \<Rightarrow> subj)"

definition extract_stream_sequence :: "nats_message \<Rightarrow> u64 option" where
  "extract_stream_sequence msg = msg_info msg"

definition decode_payload :: "value_libs \<Rightarrow> bytes \<Rightarrow> json_value" where
  "decode_payload vl payload =
     (case json_value_from_slice vl payload of
        Some v \<Rightarrow> v
      | None \<Rightarrow> (case rmp_value_from_slice vl payload of Some v \<Rightarrow> v | None \<Rightarrow> JNull))"

section \<open>Connection and publishing\<close>

datatype storage_type = File_storage | Memory_storage

record stream_config =
  sc_name :: str
  sc_subjects :: "str list"
  sc_storage :: storage_type
  sc_max_age_secs :: nat
  sc_num_replicas :: nat

definition turbocable_stream_config :: "nat \<Rightarrow> stream_config" where
  "turbocable_stream_config num_replicas =
     \<lparr>sc_name = STREAM_NAME, sc_subjects = [SUBJECT_PREFIX @ ''>''], sc_storage = File_storage, sc_max_age_secs = 7 * 24 * 60 * 60,
      sc_num_replicas = num_replicas\<rparr>"

definition nats_connect :: "str + unit \<Rightarrow> (stream_config \<Rightarrow> str + unit) \<Rightarrow> nat \<Rightarrow> gateway_error + unit" where
  "nats_connect conn_result get_or_create_stream num_replicas =
     (case conn_result of
        Inl e \<Rightarrow> Inl (JetStreamError (''NATS connect failed: '' @ e))
      | Inr _ \<Rightarrow> (case get_or_create_stream (turbocable_stream_config num_replicas) of
          Inl e \<Rightarrow> Inl (JetStreamError (''stream create/get failed: '' @ e))
        | Inr _ \<Rightarrow> Inr ()))"

text \<open>The subject and payload sent, and the result, given the results of the publish and of its acknowledgement.\<close>

definition publish :: "str \<Rightarrow> bytes \<Rightarrow> str + unit \<Rightarrow> str + unit \<Rightarrow> (str \<times> bytes) \<times> (gateway_error + unit)" where
  "publish stream_name payload published acked =
     ((SUBJECT_PREFIX @ stream_name, payload),
      (case published of
         Inl e \<Rightarrow> Inl (JetStreamError (''publish failed: '' @ e))
       | Inr _ \<Rightarrow> (case acked of
           Inl e \<Rightarrow> Inl (JetStreamError (''publish ack failed: '' @ e))
         | Inr _ \<Rightarrow> Inr ())))"

definition nats_flush :: "str + unit \<Rightarrow> gateway_error + unit" where
  "nats_flush flushed = (case flushed of Inl e \<Rightarrow> Inl (JetStreamError (''flush: '' @ e)) | Inr _ \<Rightarrow> Inr ())"

section \<open>Fan-out of consumed messages\<close>

record fan_state =
  fs_registry :: registry
  fs_chans :: chan_store
  fs_limiter :: "stream_rate_limiter option"
  fs_metrics :: metrics

text \<open>A registry entry that is removed drops its two senders.\<close>

definition drop_entry :: "connection_entry \<Rightarrow> chan_store \<Rightarrow> chan_store" where
  "drop_entry e st =
     st\<lparr>byte_chans := (byte_chans st)(sender e := chan_drop_sender (byte_chans st (sender e))),
        unit_chans := (unit_chans st)(evict_tx e := chan_drop_sender (unit_chans st (evict_tx e)))\<rparr>"

definition rate_gate :: "nat \<Rightarrow> str \<Rightarrow> fan_state \<Rightarrow> bool \<times> fan_state" where
  "rate_gate now stream_name fs =
     (case fs_limiter fs of
        None \<Rightarrow> (True, fs)
      | Some rl \<Rightarrow>
          let ((allow, toks), rl1) = rate_check now rl stream_name;
              m = fs_metrics fs;
              m1 = (if toks \<noteq> i64_max
                    then m\<lparr>stream_tokens_available := (stream_tokens_available m)(stream_name \<mapsto> toks)\<rparr> else m);
              m2 = (if allow then m1
                    else m1\<lparr>stream_rate_limited_total :=
                           (stream_rate_limited_total m1)(stream_name := stream_rate_limited_total m1 stream_name + 1)\<rparr>)
          in (allow, fs\<lparr>fs_limiter := Some rl1, fs_metrics := m2\<rparr>))"

definition broadcast_message :: "value_libs \<Rightarrow> nats_message \<Rightarrow> server_message" where
  "broadcast_message vl msg =
     ServerMessage (extract_stream_name (subject msg)) (decode_payload vl (msg_payload msg)) None (extract_stream_sequence msg)"

definition or_empty :: "str + bytes \<Rightarrow> bytes" where
  "or_empty r = (case r of Inl _ \<Rightarrow> [] | Inr b \<Rightarrow> b)"

definition deliver :: "value_libs \<Rightarrow> serde_libs \<Rightarrow> nats_message \<Rightarrow> fan_state \<Rightarrow> fan_state" where
  "deliver vl sl msg fs =
     (let server_msg = broadcast_message vl msg;
          json_bytes = or_empty (json_to_vec sl server_msg);
          msgpack_bytes = or_empty (rmp_to_vec_named sl server_msg);
          (res, r1, st1, gone) = fanout_encoded store_try_send store_try_signal (fs_registry fs) (fs_chans fs)
             (extract_stream_name (subject msg)) json_bytes msgpack_bytes;
          m = fs_metrics fs;
          m1 = m\<lparr>fanout_duration_secs := fanout_duration_secs m + 1\<rparr>;
          m2 = (if fr_sent res > 0 then m1\<lparr>messages_fanned_out := messages_fanned_out m1 + of_nat (fr_sent res)\<rparr> else m1);
          m3 = (if fr_evicted res \<noteq> []
                then m2\<lparr>forced_reconnect_backpressure_total :=
                       forced_reconnect_backpressure_total m2 + of_nat (length (fr_evicted res))\<rparr> else m2)
      in fs\<lparr>fs_registry := r1, fs_chans := fold drop_entry gone st1, fs_metrics := m3\<rparr>)"

definition process_nats_message :: "value_libs \<Rightarrow> serde_libs \<Rightarrow> nat \<Rightarrow> nats_message \<Rightarrow> fan_state \<Rightarrow> fan_state" where
  "process_nats_message vl sl now msg fs =
     (let (allow, fs1) = rate_gate now (extract_stream_name (subject msg)) fs
      in if \<not> allow then fs1 else deliver vl sl msg fs1)"

definition update_consumer_lag :: "str + u64 \<Rightarrow> fan_state \<Rightarrow> fan_state" where
  "update_consumer_lag info fs =
     (case info of
        Inr num_pending \<Rightarrow> fs\<lparr>fs_metrics := (fs_metrics fs)\<lparr>nats_consumer_lag := sint num_pending\<rparr>\<rparr>
      | Inl _ \<Rightarrow> fs)"

text \<open>
  What the select of the consumer loop yields: a message with the clock's reading and the consumer
  information that would be fetched after it, an error, the end, or a tick with the information fetched.
\<close>

datatype consumer_event =
  Got_message nat nats_message "str + u64" | Message_error str | Messages_end | Lag_tick "str + u64"

text \<open>The loop returns its result, the messages it acknowledged, and the state; \<open>None\<close> while it still waits.\<close>

fun consume_loop :: "value_libs \<Rightarrow> serde_libs \<Rightarrow> consumer_event list \<Rightarrow> u64 \<Rightarrow> nats_message list \<Rightarrow> fan_state
    \<Rightarrow> (gateway_error + unit) option \<times> nats_message list \<times> fan_state" where
  "consume_loop vl sl [] processed acks fs = (None, acks, fs)"
| "consume_loop vl sl (Got_message now msg info # evs) processed acks fs =
     (let fs1 = process_nats_message vl sl now msg fs;
          processed1 = processed + 1;
          fs2 = (if processed1 mod 10000 = 0 then update_consumer_lag info fs1 else fs1)
      in consume_loop vl sl evs processed1 (acks @ [msg]) fs2)"
| "consume_loop vl sl (Message_error e # evs) processed acks fs =
     (Some (Inl (JetStreamError (''consumer message error: '' @ e))), acks, fs)"
| "consume_loop vl sl (Messages_end # evs) processed acks fs = (Some (Inr ()), acks, fs)"
| "consume_loop vl sl (Lag_tick info # evs) processed acks fs =
     consume_loop vl sl evs processed acks (update_consumer_lag info fs)"

datatype ack_policy = Ack_explicit | Ack_none

record consumer_config =
  durable_name :: str
  consumer_ack_policy :: ack_policy
  max_ack_pending :: i64

record consumer_setup =
  cs_get_stream :: "str + unit"
  cs_get_or_create_consumer :: "consumer_config \<Rightarrow> str + unit"
  cs_info :: "str + u64"
  cs_messages :: "str + unit"

definition run_consumer ::
  "value_libs \<Rightarrow> serde_libs \<Rightarrow> str \<Rightarrow> i64 \<Rightarrow> consumer_setup \<Rightarrow> consumer_event list \<Rightarrow> fan_state
     \<Rightarrow> (gateway_error + unit) option \<times> nats_message list \<times> fan_state" where
  "run_consumer vl sl node_id max_pending setup evs fs =
     (case cs_get_stream setup of
        Inl e \<Rightarrow> (Some (Inl (JetStreamError (''get stream: '' @ e))), [], fs)
      | Inr _ \<Rightarrow> (case cs_get_or_create_consumer setup \<lparr>durable_name = ''gw_'' @ node_id, consumer_ack_policy = Ack_explicit,
             max_ack_pending = max_pending\<rparr> of
          Inl e \<Rightarrow> (Some (Inl (JetStreamError (''create/get consumer: '' @ e))), [], fs)
        | Inr _ \<Rightarrow>
            let fs1 = update_consumer_lag (cs_info setup) fs
            in (case cs_messages setup of
                  Inl e \<Rightarrow> (Some (Inl (JetStreamError (''messages stream: '' @ e))), [], fs1)
                | Inr _ \<Rightarrow> consume_loop vl sl evs 0 [] fs1)))"

text \<open>The outer loop starts the consumer again after every return: one element of the list per round.\<close>

fun nats_fanout_loop :: "value_libs \<Rightarrow> serde_libs \<Rightarrow> str \<Rightarrow> i64 \<Rightarrow> (consumer_setup \<times> consumer_event list) list \<Rightarrow>
    nats_message list \<Rightarrow> fan_state \<Rightarrow> nats_message list \<times> fan_state" where
  "nats_fanout_loop vl sl node_id max_pending [] acks fs = (acks, fs)"
| "nats_fanout_loop vl sl node_id max_pending ((setup, evs) # rounds) acks fs =
     (case run_consumer vl sl node_id max_pending setup evs fs of
        (None, acks1, fs1) \<Rightarrow> (acks @ acks1, fs1)
      | (Some _, acks1, fs1) \<Rightarrow> nats_fanout_loop vl sl node_id max_pending rounds (acks @ acks1) fs1)"

section \<open>Delivery to one connection\<close>

definition fan_ok :: "fan_state \<Rightarrow> bool" where
  "fan_ok fs \<longleftrightarrow> reg_inv (fs_registry fs) \<and> senders_distinct (fs_registry fs)"

lemma deregister_all_connections:
  "connections (fst (deregister_all r l)) c = (if c \<in> set l then None else connections r c)"
  by (induction l arbitrary: r) (auto simp: split_beta Let_def deregister_frame)

lemma senders_distinct_deregister_all: "senders_distinct r \<Longrightarrow> senders_distinct (fst (deregister_all r l))"
  by (auto simp: senders_distinct_def deregister_all_connections split: if_splits)

lemma drop_entries_chan:
  "queue (byte_chans (fold drop_entry es st) h) = queue (byte_chans st h) \<and>
   capacity (byte_chans (fold drop_entry es st) h) = capacity (byte_chans st h) \<and>
   rx_alive (byte_chans (fold drop_entry es st) h) = rx_alive (byte_chans st h)"
  by (induction es arbitrary: st) (simp_all add: drop_entry_def chan_drop_sender_def)

lemma store_ops_chan:
  "capacity (byte_chans (snd (store_try_send st h p)) h') = capacity (byte_chans st h')"
  "rx_alive (byte_chans (snd (store_try_send st h p)) h') = rx_alive (byte_chans st h')"
  "byte_chans (snd (store_try_signal st h)) = byte_chans st"
  by (auto simp: store_try_send_def store_try_signal_def chan_try_send_def split_beta Let_def)

lemma fanout_loop_chan:
  "fanout_loop store_try_send store_try_signal r json bin l n ev st = (n', ev', st') \<Longrightarrow>
     capacity (byte_chans st' h) = capacity (byte_chans st h) \<and> rx_alive (byte_chans st' h) = rx_alive (byte_chans st h)"
proof (induction l arbitrary: n ev st)
  case (Cons c l)
  have "capacity (byte_chans (fanc.serve r json bin c st) h) = capacity (byte_chans st h)"
    "rx_alive (byte_chans (fanc.serve r json bin c st) h) = rx_alive (byte_chans st h)"
    by (auto simp: fanc.serve_def Let_def store_ops_chan split: option.splits)
  with Cons.IH Cons.prems show ?case by (simp add: fanc.fanout_loop_Cons del: fanout_loop.simps)
qed simp

text \<open>The frame a connection gets for a consumed message.\<close>

definition frame_for :: "value_libs \<Rightarrow> serde_libs \<Rightarrow> connection_entry \<Rightarrow> nats_message \<Rightarrow> bytes" where
  "frame_for vl sl e msg =
     or_empty ((if is_binary e then rmp_to_vec_named sl else json_to_vec sl) (broadcast_message vl msg))"

definition msg_stream :: "nats_message \<Rightarrow> str" where
  "msg_stream msg = extract_stream_name (subject msg)"

text \<open>A connection whose queue has room for what is to come.\<close>

definition live_at :: "fan_state \<Rightarrow> u64 \<Rightarrow> connection_entry \<Rightarrow> bytes list \<Rightarrow> nat \<Rightarrow> bool" where
  "live_at fs c e q free \<longleftrightarrow>
     connections (fs_registry fs) c = Some e \<and> queue (byte_chans (fs_chans fs) (sender e)) = q \<and>
     rx_alive (byte_chans (fs_chans fs) (sender e)) \<and> capacity (byte_chans (fs_chans fs) (sender e)) \<ge> length q + free"

lemma deliver_step:
  assumes "fan_ok fs" and "live_at fs c e q (if sub then Suc free else free)"
    and "sub \<longleftrightarrow> (c, msg_stream msg) \<in> subs_rel (fs_registry fs)"
  shows "fan_ok (deliver vl sl msg fs) \<and> fs_limiter (deliver vl sl msg fs) = fs_limiter fs \<and>
    live_at (deliver vl sl msg fs) c e (q @ (if sub then [frame_for vl sl e msg] else [])) free \<and>
    (\<forall>s. (c, s) \<in> subs_rel (fs_registry (deliver vl sl msg fs)) \<longleftrightarrow> (c, s) \<in> subs_rel (fs_registry fs))"
proof -
  let ?r = "fs_registry fs" and ?st = "fs_chans fs" and ?s = "msg_stream msg"
  let ?json = "or_empty (json_to_vec sl (broadcast_message vl msg))"
  let ?bin = "or_empty (rmp_to_vec_named sl (broadcast_message vl msg))"
  obtain res r1 st1 gone where f:
    "fanout_encoded store_try_send store_try_signal ?r ?st ?s ?json ?bin = (res, r1, st1, gone)" by (metis prod_cases4)
  have ok: "reg_inv ?r" "senders_distinct ?r" using assms(1) by (simp_all add: fan_ok_def)
  note parts = fanout_encoded_parts [OF ok f]
  have r1: "r1 = fst (deregister_all ?r (fr_evicted res))" using parts(4) by (metis fst_conv)
  have d: "fs_registry (deliver vl sl msg fs) = r1" "fs_chans (deliver vl sl msg fs) = fold drop_entry gone st1"
    "fs_limiter (deliver vl sl msg fs) = fs_limiter fs"
    using f by (simp_all add: deliver_def msg_stream_def Let_def)
  have e: "connections ?r c = Some e" "queue (byte_chans ?st (sender e)) = q" using assms(2) by (simp_all add: live_at_def)
  have subs: "sub \<longleftrightarrow> c \<in> set (subs_of ?r ?s)" using assms(3) by (simp add: subs_rel_def)
  have room: "sub \<Longrightarrow> room_for ?r ?st c" using assms(2) e by (simp add: room_for_def live_at_def chan_room_def)
  then have keep: "c \<notin> set (fr_evicted res)" using subs by (auto simp: parts(2))
  have own: "own_senders ?r (subs_of ?r ?s)" using ok by (rule own_senders_subs)
  have q1: "queue (byte_chans st1 (sender e)) = q @ (if sub then [frame_for vl sl e msg] else [])"
  proof (cases sub)
    case True
    then show ?thesis
      using fanc.fanout_loop_subscriber [OF own parts(5) _ e(1)] room subs e
      by (simp add: frame_for_def room_for_def)
  next
    case False
    have "\<forall>c' \<in> set (subs_of ?r ?s). \<forall>e'. connections ?r c' = Some e' \<longrightarrow> sender e' \<noteq> sender e"
      using ok(2) e(1) False subs unfolding senders_distinct_def by metis
    from fanc.fanout_loop_untouched [OF parts(5) this] False e show ?thesis by simp
  qed
  have "live_at (deliver vl sl msg fs) c e (q @ (if sub then [frame_for vl sl e msg] else [])) free"
    using q1 keep e assms(2) fanout_loop_chan [OF parts(5), of "sender e"]
    by (auto simp: live_at_def d drop_entries_chan r1 deregister_all_connections)
  moreover have "fan_ok (deliver vl sl msg fs)"
    by (simp add: fan_ok_def d r1 ok deregister_all_inv senders_distinct_deregister_all)
  moreover have "(c, s) \<in> subs_rel r1 \<longleftrightarrow> (c, s) \<in> subs_rel ?r" for s
    using keep by (simp add: r1 deregister_all_rel [OF ok(1)])
  ultimately show ?thesis by (simp add: d)
qed

text \<open>The messages of a run that the rate limiter lets through.\<close>

fun served :: "consumer_event list \<Rightarrow> (nat \<times> nats_message) list" where
  "served [] = []"
| "served (Got_message now msg info # evs) = (now, msg) # served evs"
| "served (Lag_tick info # evs) = served evs"
| "served (_ # evs) = []"

fun passed :: "stream_rate_limiter option \<Rightarrow> (nat \<times> nats_message) list \<Rightarrow> nats_message list" where
  "passed rl [] = []"
| "passed None ((now, msg) # ms) = msg # passed None ms"
| "passed (Some rl) ((now, msg) # ms) =
     (let ((allow, _), rl1) = rate_check now rl (msg_stream msg)
      in if allow then msg # passed (Some rl1) ms else passed (Some rl1) ms)"

lemma rate_gate_frame [simp]:
  "fs_registry (snd (rate_gate now s fs)) = fs_registry fs" "fs_chans (snd (rate_gate now s fs)) = fs_chans fs"
  by (simp_all add: rate_gate_def split_beta Let_def split: option.splits)

lemma passed_gate:
  "passed (fs_limiter fs) ((now, msg) # ms) =
     (if fst (rate_gate now (msg_stream msg) fs) then [msg] else []) @
     passed (fs_limiter (snd (rate_gate now (msg_stream msg) fs))) ms"
  by (cases "fs_limiter fs") (simp_all add: rate_gate_def split_beta Let_def)

lemma lag_frame [simp]:
  "fs_registry (update_consumer_lag i fs) = fs_registry fs" "fs_chans (update_consumer_lag i fs) = fs_chans fs"
  "fs_limiter (update_consumer_lag i fs) = fs_limiter fs"
  by (simp_all add: update_consumer_lag_def split: sum.splits)

lemma frame_cong:
  "fs_registry fs = fs_registry fs' \<Longrightarrow> fs_chans fs = fs_chans fs' \<Longrightarrow> live_at fs c e q n = live_at fs' c e q n"
  "fs_registry fs = fs_registry fs' \<Longrightarrow> fan_ok fs = fan_ok fs'"
  by (simp_all add: live_at_def fan_ok_def)

definition wants :: "fan_state \<Rightarrow> u64 \<Rightarrow> nats_message \<Rightarrow> bool" where
  "wants fs c msg \<longleftrightarrow> (c, msg_stream msg) \<in> subs_rel (fs_registry fs)"

lemma process_step:
  assumes "fan_ok fs" and "new = (if fst (rate_gate now (msg_stream msg) fs) \<and> wants fs c msg then [frame_for vl sl e msg] else [])"
    and "live_at fs c e q (length new + free)"
  shows "fan_ok (process_nats_message vl sl now msg fs) \<and>
    fs_limiter (process_nats_message vl sl now msg fs) = fs_limiter (snd (rate_gate now (msg_stream msg) fs)) \<and>
    live_at (process_nats_message vl sl now msg fs) c e (q @ new) free \<and>
    (\<forall>m. wants (process_nats_message vl sl now msg fs) c m = wants fs c m)"
proof -
  let ?g = "rate_gate now (msg_stream msg) fs"
  have p: "process_nats_message vl sl now msg fs = (if fst ?g then deliver vl sl msg (snd ?g) else snd ?g)"
    by (simp add: process_nats_message_def msg_stream_def split_beta Let_def)
  have ok: "fan_ok (snd ?g)" using assms(1) frame_cong(2) [of fs "snd ?g"] by simp
  have live: "live_at (snd ?g) c e q n = live_at fs c e q n" for n by (rule frame_cong) simp_all
  show ?thesis
  proof (cases "fst ?g")
    case False
    with assms(3) show ?thesis by (simp add: p ok live assms(2) wants_def)
  next
    case True
    have "live_at (snd ?g) c e q (if wants fs c msg then Suc free else free)"
      using assms(3) True by (simp add: live assms(2) split: if_splits)
    from deliver_step [OF ok this, of msg vl sl] True show ?thesis
      by (simp add: p wants_def assms(2))
  qed
qed

lemma wants_cong: "fs_registry fs = fs_registry fs' \<Longrightarrow> wants fs = wants fs'"
  by (simp add: wants_def fun_eq_iff)

lemma consume_delivers:
  assumes "fan_ok fs" and "new = map (frame_for vl sl e) (filter (wants fs c) (passed (fs_limiter fs) (served evs)))"
    and "live_at fs c e q (length new)" and "consume_loop vl sl evs n acks fs = (res, acks', fs')"
  shows "live_at fs' c e (q @ new) 0"
  using assms
proof (induction vl sl evs n acks fs arbitrary: q new rule: consume_loop.induct)
  case (2 vl sl now msg info evs processed acks fs)
  let ?g = "rate_gate now (msg_stream msg) fs"
  define fs1 where "fs1 = process_nats_message vl sl now msg fs"
  define fs2 where "fs2 = (if (processed + 1) mod 10000 = 0 then update_consumer_lag info fs1 else fs1)"
  define new1 where "new1 = (if fst ?g \<and> wants fs c msg then [frame_for vl sl e msg] else [])"
  define new2 where "new2 = map (frame_for vl sl e) (filter (wants fs2 c) (passed (fs_limiter fs2) (served evs)))"
  have core: "fs_registry fs2 = fs_registry fs1" "fs_chans fs2 = fs_chans fs1" "fs_limiter fs2 = fs_limiter fs1"
    by (simp_all add: fs2_def)
  have split: "\<And>free. live_at fs c e q (length new1 + free) \<Longrightarrow> fan_ok fs1 \<and> fs_limiter fs1 = fs_limiter (snd ?g) \<and>
      live_at fs1 c e (q @ new1) free \<and> (\<forall>m. wants fs1 c m = wants fs c m)"
    unfolding fs1_def by (rule process_step [OF 2(2) new1_def])
  have "live_at fs c e q (length new1)" using 2(4) by (auto simp: 2(3) passed_gate new1_def live_at_def)
  with split [of 0] have lim: "fs_limiter fs1 = fs_limiter (snd ?g)" and w: "wants fs1 c = wants fs c" by auto
  have new: "new = new1 @ new2"
    by (simp add: 2(3) passed_gate new1_def new2_def core(3) lim wants_cong [OF core(1)] w)
  from split [of "length new2"] 2(4) new have "fan_ok fs1" "live_at fs1 c e (q @ new1) (length new2)" by simp_all
  then have "fan_ok fs2" "live_at fs2 c e (q @ new1) (length new2)"
    using frame_cong(1) [OF core(1,2)] frame_cong(2) [OF core(1)] by simp_all
  moreover have "consume_loop vl sl evs (processed + 1) (acks @ [msg]) fs2 = (res, acks', fs')"
    using 2(5) unfolding consume_loop.simps Let_def fs1_def fs2_def .
  ultimately have "live_at fs' c e ((q @ new1) @ new2) 0"
    by (intro 2(1) [OF fs1_def refl fs2_def _ new2_def])
  then show ?case by (simp add: new)
next
  case (5 vl sl info evs processed acks fs)
  let ?fs = "update_consumer_lag info fs"
  have "fan_ok ?fs = fan_ok fs" "live_at ?fs c e q (length new) = live_at fs c e q (length new)" "wants ?fs = wants fs"
    by (simp_all add: frame_cong(1) [of ?fs fs] frame_cong(2) [of ?fs fs] wants_cong [of ?fs fs])
  with 5 show ?case by simp
qed auto

lemma consume_acks:
  "consume_loop vl sl evs n acks fs = (res, acks', fs') \<Longrightarrow> acks' = acks @ map snd (served evs)"
  by (induction vl sl evs n acks fs rule: consume_loop.induct) (auto simp: Let_def)

lemma consume_result:
  "consume_loop vl sl evs n acks fs = (res, acks', fs') \<Longrightarrow>
     res = None \<longleftrightarrow> (\<forall>ev \<in> set evs. case ev of Message_error _ \<Rightarrow> False | Messages_end \<Rightarrow> False | _ \<Rightarrow> True)"
  by (induction vl sl evs n acks fs rule: consume_loop.induct) (auto simp: Let_def)

section \<open>Properties\<close>

text \<open>
  C13. End-to-end delivery on a node. Whatever the consumer delivers to however many streams,
  a registered connection whose queue has room for its share receives, in order and
  exactly once, the frame of every message on its subscribed streams that the rate limiter lets through, encoded
  for its protocol, and nothing else; and it is still registered at the end.
\<close>

theorem consumer_delivers:
  assumes "reg_inv (fs_registry fs)" and "senders_distinct (fs_registry fs)"
    and "consume_loop vl sl evs n acks fs = (res, acks', fs')"
    and "connections (fs_registry fs) c = Some e" and "ch = byte_chans (fs_chans fs) (sender e)"
    and "new = map (frame_for vl sl e) (filter (wants fs c) (passed (fs_limiter fs) (served evs)))"
    and "rx_alive ch" and "length (queue ch) + length new \<le> capacity ch"
  shows "queue (byte_chans (fs_chans fs') (sender e)) = queue ch @ new \<and> connections (fs_registry fs') c = Some e"
proof -
  have "fan_ok fs" "live_at fs c e (queue ch) (length new)" using assms by (simp_all add: fan_ok_def live_at_def)
  from consume_delivers [OF this(1) assms(6) this(2) assms(3)] show ?thesis by (simp add: live_at_def)
qed

definition demo_values :: value_libs where
  "demo_values = \<lparr>json_value_from_slice = (\<lambda>b. Some (JString b)), rmp_value_from_slice = (\<lambda>_. None)\<rparr>"

definition demo_serde :: serde_libs where
  "demo_serde = \<lparr>json_from_slice = (\<lambda>_. Inl []),
     json_to_vec = (\<lambda>m. case m of ServerMessage i (JString b) r q \<Rightarrow> Inr b | _ \<Rightarrow> Inr ''other''),
     rmp_from_slice = (\<lambda>_. Inl []), rmp_to_vec_named = (\<lambda>_. Inr ''bin'')\<rparr>"

definition demo_fan :: fan_state where
  "demo_fan = \<lparr>fs_registry = demo_registry, fs_chans = demo_store, fs_limiter = None, fs_metrics = metrics_zero\<rparr>"

definition demo_msg :: "bytes \<Rightarrow> nats_message" where
  "demo_msg b = \<lparr>subject = ''TURBOCABLE.room'', msg_payload = b, msg_info = Some 1\<rparr>"

definition demo_events :: "consumer_event list" where
  "demo_events = [Got_message 0 (demo_msg ''hi'') (Inl []), Lag_tick (Inr 3)]"

definition demo_entry :: connection_entry where
  "demo_entry = \<lparr>sender = 10, evict_tx = 11, is_binary = False\<rparr>"

lemma demo_consumption:
  "reg_inv (fs_registry demo_fan)" "senders_distinct (fs_registry demo_fan)"
  "connections (fs_registry demo_fan) 1 = Some demo_entry"
  "byte_chans demo_store 10 = byte_chans (fs_chans demo_fan) (sender demo_entry)"
  "[''hi''] = map (frame_for demo_values demo_serde demo_entry)
     (filter (wants demo_fan 1) (passed (fs_limiter demo_fan) (served demo_events)))"
  "rx_alive (byte_chans demo_store 10)"
  "length (queue (byte_chans demo_store 10)) + length [''hi''] \<le> capacity (byte_chans demo_store 10)"
  "queue (byte_chans demo_store 10) = []"
proof -
  show "reg_inv (fs_registry demo_fan)" "senders_distinct (fs_registry demo_fan)"
    using demo_registry_inv demo_senders by (simp_all add: demo_fan_def)
  have "msg_stream (demo_msg ''hi'') = ''room''"
    by (simp add: msg_stream_def demo_msg_def extract_stream_name_def) code_simp
  then show "[''hi''] = map (frame_for demo_values demo_serde demo_entry)
      (filter (wants demo_fan 1) (passed (fs_limiter demo_fan) (served demo_events)))"
    by (simp add: demo_fan_def demo_events_def demo_entry_def wants_def subs_rel_def subs_of_def demo_registry_eq frame_for_def or_empty_def
        broadcast_message_def decode_payload_def demo_values_def demo_serde_def demo_msg_def)
qed (simp_all add: demo_fan_def demo_registry_eq demo_entry_def demo_store_def)

theorem consumer_delivers_witness:
  "\<exists>res acks fs'. consume_loop demo_values demo_serde demo_events 0 [] demo_fan = (res, acks, fs') \<and>
     queue (byte_chans (fs_chans fs') 10) = [''hi''] \<and> connections (fs_registry fs') 1 \<noteq> None"
proof -
  obtain res acks fs' where r: "consume_loop demo_values demo_serde demo_events 0 [] demo_fan = (res, acks, fs')"
    by (metis prod_cases3)
  from consumer_delivers [OF demo_consumption(1,2) r demo_consumption(3-7)] r demo_consumption(8)
  show ?thesis by (auto simp: demo_entry_def)
qed



end
