(* ===== verification/Replay.thy ===== *)
theory Replay
  imports Nats
begin

text \<open>
  The replay of missed messages (\<open>NatsConsumer::replay_since\<close> in
  \<open>src/src/pubsub/nats.rs\<close>) and the background task that runs it and reports to the client
  (the task spawned by \<open>dispatch_command\<close> in \<open>src/src/connection/handler.rs\<close>).
  The items of the replay consumer are a list; a list that ends is a fetch that times out.
\<close>

section \<open>Replay\<close>

datatype fetch = Fetched nats_message | Fetch_error str | Fetch_end | Fetch_timeout

record replay_env =
  re_stream :: str
  re_values :: value_libs
  re_codec :: codec
  re_tx_ok :: "nat \<Rightarrow> bool"
  re_elapsed :: duration

record replay_state =
  prev_seq :: u64
  count :: nat
  tx_tries :: nat
  first_elapsed :: "duration option"
  frames :: "(u64 \<times> bytes) list"

definition replayed_message :: "replay_env \<Rightarrow> nats_message \<Rightarrow> u64 \<Rightarrow> server_message" where
  "replayed_message env msg sequence =
     ServerMessage (re_stream env) (decode_payload (re_values env) (msg_payload msg)) (Some True) (Some sequence)"

text \<open>The loop ends with an error, or says whether the peer was found gone; the unread items are returned.\<close>

fun replay_loop :: "replay_env \<Rightarrow> fetch list \<Rightarrow> replay_state \<Rightarrow> (replay_error + bool) \<times> replay_state \<times> fetch list" where
  "replay_loop env [] s = (Inr False, s, [])"
| "replay_loop env (f # fs) s =
     (if \<not> count s < MAX_REPLAY_MESSAGES then (Inr False, s, f # fs)
      else case f of
        Fetched msg \<Rightarrow>
          (case extract_stream_sequence msg of
             None \<Rightarrow> (Inl (ReplayJetStream ''replay message missing JetStream stream sequence metadata''), s, fs)
           | Some sequence \<Rightarrow>
               if sequence \<le> prev_seq s then replay_loop env fs s
               else let s1 = s\<lparr>prev_seq := sequence\<rparr> in
                 (case encode (re_codec env) (replayed_message env msg sequence) of
                    Inl e \<Rightarrow> replay_loop env fs s1
                  | Inr encoded \<Rightarrow>
                      if \<not> re_tx_ok env (tx_tries s1) then (Inr True, s1, fs)
                      else replay_loop env fs
                        (s1\<lparr>tx_tries := Suc (tx_tries s1), frames := frames s1 @ [(sequence, encoded)],
                            first_elapsed := (case first_elapsed s1 of None \<Rightarrow> Some (re_elapsed env) | e \<Rightarrow> e),
                            count := count s1 + 1\<rparr>)))
      | Fetch_error e \<Rightarrow> (Inr False, s, fs)
      | Fetch_end \<Rightarrow> (Inr False, s, fs)
      | Fetch_timeout \<Rightarrow> (Inr False, s, fs))"

definition replay_init :: "u64 \<Rightarrow> replay_state" where
  "replay_init lseq = \<lparr>prev_seq = lseq, count = 0, tx_tries = 0, first_elapsed = None, frames = []\<rparr>"

record stream_info =
  si_messages :: u64
  si_first_sequence :: u64

record replay_consumer_config =
  filter_subject :: str
  start_sequence :: u64
  replay_ack_policy :: ack_policy
  inactive_threshold_secs :: nat

record replay_calls =
  rc_get_stream :: "str + unit"
  rc_info :: "str + stream_info"
  rc_create_consumer :: "replay_consumer_config \<Rightarrow> str + unit"
  rc_messages :: "str + unit"

definition window_check :: "str \<Rightarrow> u64 \<Rightarrow> stream_info \<Rightarrow> replay_error option" where
  "window_check stream_name lseq info =
     (let requested_seq = u64_saturating_add lseq 1; oldest_available = si_first_sequence info
      in if si_messages info > 0 \<and> requested_seq < oldest_available
         then Some (WindowExceeded stream_name requested_seq oldest_available)
         else if si_messages info = 0 \<and> lseq > 0
         then Some (WindowExceeded stream_name requested_seq (max oldest_available 1))
         else None)"

definition replay_finish :: "replay_env \<Rightarrow> (replay_error + bool) \<times> replay_state \<times> fetch list \<Rightarrow> replay_error + replay_delivery" where
  "replay_finish env res =
     (case res of
        (Inl e, _, _) \<Rightarrow> Inl e
      | (Inr True, s, _) \<Rightarrow> Inr \<lparr>delivered = count s, peer_gone = True, first_delivery_elapsed = first_elapsed s\<rparr>
      | (Inr False, s, rest) \<Rightarrow>
          let done_ok = Inr \<lparr>delivered = count s, peer_gone = False, first_delivery_elapsed = first_elapsed s\<rparr>
          in if count s = MAX_REPLAY_MESSAGES
             then (case rest of Fetched _ # _ \<Rightarrow> Inl (Truncated (re_stream env) (count s) MAX_REPLAY_MESSAGES) | _ \<Rightarrow> done_ok)
             else done_ok)"

definition replay_consumer :: "str \<Rightarrow> u64 \<Rightarrow> replay_consumer_config" where
  "replay_consumer stream_name lseq =
     \<lparr>filter_subject = SUBJECT_PREFIX @ stream_name, start_sequence = u64_saturating_add lseq 1,
      replay_ack_policy = Ack_none, inactive_threshold_secs = 30\<rparr>"

definition replay_since :: "replay_env \<Rightarrow> replay_calls \<Rightarrow> u64 \<Rightarrow> fetch list \<Rightarrow> (replay_error + replay_delivery) \<times> (u64 \<times> bytes) list" where
  "replay_since env calls lseq fetches =
     (case rc_get_stream calls of
        Inl e \<Rightarrow> (Inl (ReplayJetStream (''get stream for replay: '' @ e)), [])
      | Inr _ \<Rightarrow> (case rc_info calls of
          Inl e \<Rightarrow> (Inl (ReplayJetStream (''stream info: '' @ e)), [])
        | Inr info \<Rightarrow> (case window_check (re_stream env) lseq info of
            Some err \<Rightarrow> (Inl err, [])
          | None \<Rightarrow> (case rc_create_consumer calls (replay_consumer (re_stream env) lseq) of
              Inl e \<Rightarrow> (Inl (ReplayJetStream (''create replay consumer: '' @ e)), [])
            | Inr _ \<Rightarrow> (case rc_messages calls of
                Inl e \<Rightarrow> (Inl (ReplayJetStream (''replay messages stream: '' @ e)), [])
              | Inr _ \<Rightarrow>
                  let res = replay_loop env fetches (replay_init lseq)
                  in (replay_finish env res, frames (fst (snd res))))))))"

section \<open>The replay task\<close>

text \<open>
  The task waits for a permit (\<open>None\<close>: the semaphore was closed), replays, counts the outcome
  and sends at most one last frame: a confirmation into the replay channel after the
  replayed frames, or a disconnect into the urgent channel.
\<close>

datatype task_frame = Last_replay bytes | Last_urgent bytes

definition encoded_frame :: "codec \<Rightarrow> (bytes \<Rightarrow> task_frame) \<Rightarrow> server_message \<Rightarrow> task_frame option" where
  "encoded_frame c f msg = (case encode c msg of Inl _ \<Rightarrow> None | Inr b \<Rightarrow> Some (f b))"

definition observe_first :: "replay_delivery \<Rightarrow> metrics \<Rightarrow> metrics" where
  "observe_first d m =
     (case first_delivery_elapsed d of
        None \<Rightarrow> m | Some _ \<Rightarrow> m\<lparr>replay_first_delivery_secs := replay_first_delivery_secs m + 1\<rparr>)"

definition observe_catch_up :: "metrics \<Rightarrow> metrics" where
  "observe_catch_up m = m\<lparr>replay_catch_up_duration_secs := replay_catch_up_duration_secs m + 1\<rparr>"

definition replay_outcome :: "replay_env \<Rightarrow> replay_error + replay_delivery \<Rightarrow> metrics \<Rightarrow> metrics \<times> task_frame option" where
  "replay_outcome env result m =
     (case result of
        Inr d \<Rightarrow>
          if peer_gone d
          then (observe_first d (observe_catch_up (m\<lparr>replay_aborted_peer_gone_total := replay_aborted_peer_gone_total m + 1\<rparr>)), None)
          else (observe_first d (observe_catch_up (m\<lparr>replay_success_total := replay_success_total m + 1\<rparr>)),
                encoded_frame (re_codec env) Last_replay (ConfirmSubscription (re_stream env)))
      | Inl (WindowExceeded stream requested_seq oldest) \<Rightarrow>
          (observe_catch_up (m\<lparr>replay_window_exceeded_total := replay_window_exceeded_total m + 1\<rparr>),
           encoded_frame (re_codec env) Last_urgent (Disconnect ''replay_window_exceeded'' (Some True)))
      | Inl (Truncated stream n limit) \<Rightarrow>
          (observe_catch_up (m\<lparr>replay_truncated_total := replay_truncated_total m + 1\<rparr>),
           encoded_frame (re_codec env) Last_urgent (Disconnect ''replay_truncated'' (Some True)))
      | Inl (ReplayJetStream e) \<Rightarrow>
          (observe_catch_up (m\<lparr>replay_failure_total := replay_failure_total m + 1\<rparr>),
           encoded_frame (re_codec env) Last_replay (ConfirmSubscription (re_stream env))))"

definition replay_task :: "replay_env \<Rightarrow> bool \<Rightarrow> replay_calls \<Rightarrow> u64 \<Rightarrow> fetch list \<Rightarrow> metrics \<Rightarrow>
    (u64 \<times> bytes) list \<times> task_frame option \<times> metrics" where
  "replay_task env permit calls lseq fetches m =
     (if \<not> permit then ([], None, m)
      else let m1 = m\<lparr>replay_in_flight := replay_in_flight m + 1\<rparr>;
               (result, sent_frames) = replay_since env calls lseq fetches;
               m2 = m1\<lparr>replay_in_flight := replay_in_flight m1 - 1\<rparr>;
               (m3, last_frame) = replay_outcome env result m2
           in (sent_frames, last_frame, m3))"

section \<open>What a replay sends\<close>

definition replay_inv :: "u64 \<Rightarrow> replay_state \<Rightarrow> bool" where
  "replay_inv lseq s \<longleftrightarrow>
     sorted_wrt (<) (lseq # map fst (frames s)) \<and> (\<forall>q \<in> set (lseq # map fst (frames s)). q \<le> prev_seq s) \<and>
     count s = length (frames s) \<and> count s \<le> MAX_REPLAY_MESSAGES"

definition is_replay_of :: "replay_env \<Rightarrow> fetch list \<Rightarrow> u64 \<times> bytes \<Rightarrow> bool" where
  "is_replay_of env fetches fr \<longleftrightarrow>
     (\<exists>msg. Fetched msg \<in> set fetches \<and> extract_stream_sequence msg = Some (fst fr) \<and>
        encode (re_codec env) (replayed_message env msg (fst fr)) = Inr (snd fr))"

lemma replay_inv_init: "replay_inv lseq (replay_init lseq)"
  by (simp add: replay_inv_def replay_init_def)

lemma replay_inv_prev: "replay_inv lseq s \<Longrightarrow> \<not> q \<le> prev_seq s \<Longrightarrow> replay_inv lseq (s\<lparr>prev_seq := q\<rparr>)"
  by (auto simp: replay_inv_def)

lemma replay_inv_send:
  "replay_inv lseq s \<Longrightarrow> \<not> q \<le> prev_seq s \<Longrightarrow> count s < MAX_REPLAY_MESSAGES \<Longrightarrow>
     replay_inv lseq (s\<lparr>prev_seq := q, tx_tries := t, frames := frames s @ [(q, b)], first_elapsed := e, count := Suc (count s)\<rparr>)"
  by (fastforce simp: replay_inv_def sorted_wrt_append)

lemma replay_loop_inv: "replay_inv lseq s \<Longrightarrow> replay_inv lseq (fst (snd (replay_loop env fs s)))"
proof (induction env fs s rule: replay_loop.induct)
  case (2 env f fs s)
  then show ?case
    by (cases f) (auto simp: Let_def replay_inv_prev replay_inv_send split: option.splits sum.splits)
qed simp

lemma replay_loop_source:
  "\<forall>fr \<in> set (frames s). is_replay_of env all fr \<Longrightarrow> set fs \<subseteq> set all \<Longrightarrow>
     \<forall>fr \<in> set (frames (fst (snd (replay_loop env fs s)))). is_replay_of env all fr"
proof (induction env fs s rule: replay_loop.induct)
  case (2 env f fs s)
  show ?case
  proof (cases "count s < MAX_REPLAY_MESSAGES \<and> (\<exists>msg q. f = Fetched msg \<and> extract_stream_sequence msg = Some q)")
    case True
    then obtain msg q where f: "f = Fetched msg" "extract_stream_sequence msg = Some q" "count s < MAX_REPLAY_MESSAGES"
      by blast
    have new: "is_replay_of env all (q, b)" if "encode (re_codec env) (replayed_message env msg q) = Inr b" for b
      using 2 that f by (auto simp: is_replay_of_def)
    show ?thesis using 2 f new by (auto simp: Let_def split: sum.splits)
  next
    case False
    with 2 show ?thesis by (cases f) (auto split: option.splits)
  qed
qed simp

lemma replay_loop_first:
  "(first_elapsed s = None \<longleftrightarrow> frames s = []) \<Longrightarrow>
     first_elapsed (fst (snd (replay_loop env fs s))) = None \<longleftrightarrow> frames (fst (snd (replay_loop env fs s))) = []"
proof (induction env fs s rule: replay_loop.induct)
  case (2 env f fs s)
  then show ?case by (cases f) (auto simp: Let_def split: option.splits sum.splits)
qed simp

text \<open>A replay that meets no obstacle: calls succeed, frames encode, and the channel stays open.\<close>

definition calls_ok :: "replay_env \<Rightarrow> replay_calls \<Rightarrow> u64 \<Rightarrow> bool" where
  "calls_ok env calls lseq \<longleftrightarrow>
     rc_get_stream calls = Inr () \<and> rc_messages calls = Inr () \<and>
     rc_create_consumer calls (replay_consumer (re_stream env) lseq) = Inr () \<and>
     (\<exists>info. rc_info calls = Inr info \<and> window_check (re_stream env) lseq info = None)"

definition path_ok :: "replay_env \<Rightarrow> bool" where
  "path_ok env \<longleftrightarrow> (\<forall>i. re_tx_ok env i) \<and> (\<forall>m. \<exists>b. encode (re_codec env) m = Inr b)"

fun numbered :: "u64 \<Rightarrow> nats_message list \<Rightarrow> bool" where
  "numbered prev [] \<longleftrightarrow> True"
| "numbered prev (m # ms) \<longleftrightarrow>
     (case extract_stream_sequence m of None \<Rightarrow> False | Some q \<Rightarrow> prev < q \<and> numbered q ms)"

definition frame_of :: "replay_env \<Rightarrow> nats_message \<Rightarrow> u64 \<times> bytes" where
  "frame_of env m =
     (let q = (case extract_stream_sequence m of None \<Rightarrow> 0 | Some q \<Rightarrow> q)
      in (q, case encode (re_codec env) (replayed_message env m q) of Inl _ \<Rightarrow> [] | Inr b \<Rightarrow> b))"

lemma replay_loop_complete:
  "path_ok env \<Longrightarrow> numbered (prev_seq s) ms \<Longrightarrow> count s \<le> MAX_REPLAY_MESSAGES \<Longrightarrow>
     \<exists>t. replay_loop env (map Fetched ms) s = (Inr False, t, map Fetched (drop (MAX_REPLAY_MESSAGES - count s) ms)) \<and>
       frames t = frames s @ map (frame_of env) (take (MAX_REPLAY_MESSAGES - count s) ms) \<and>
       count t = count s + length (take (MAX_REPLAY_MESSAGES - count s) ms)"
proof (induction ms arbitrary: s)
  case Nil
  then show ?case by simp
next
  case (Cons m ms)
  show ?case
  proof (cases "count s < MAX_REPLAY_MESSAGES")
    case False
    then show ?thesis using Cons.prems(3) by simp
  next
    case True
    obtain q where q: "extract_stream_sequence m = Some q" "prev_seq s < q" "numbered q ms"
      using Cons.prems(2) by (auto split: option.splits)
    from q(2) have nle: "(q \<le> prev_seq s) = False" by simp
    obtain b where b: "encode (re_codec env) (replayed_message env m q) = Inr b"
      using Cons.prems(1) by (auto simp: path_ok_def)
    define s1 where "s1 = s\<lparr>prev_seq := q, tx_tries := Suc (tx_tries s), frames := frames s @ [(q, b)],
      first_elapsed := (case first_elapsed s of None \<Rightarrow> Some (re_elapsed env) | e \<Rightarrow> e), count := count s + 1\<rparr>"
    have step: "replay_loop env (map Fetched (m # ms)) s = replay_loop env (map Fetched ms) s1"
      using True q b nle Cons.prems(1) by (simp add: s1_def path_ok_def cong: option.case_cong)
    have k: "MAX_REPLAY_MESSAGES - count s = Suc (MAX_REPLAY_MESSAGES - count s1)"
      using True by (simp add: s1_def)
    have fr: "frame_of env m = (q, b)" by (simp add: frame_of_def q(1) b)
    from Cons.IH [of s1] Cons.prems(1) q(3) True
    show ?thesis unfolding step k by (auto simp: s1_def fr)
  qed
qed

lemma replay_loop_error: "replay_loop env fs s = (Inl e, t, rest) \<Longrightarrow> \<exists>msg. e = ReplayJetStream msg"
proof (induction env fs s arbitrary: e t rest rule: replay_loop.induct)
  case (2 env f fs s)
  then show ?case by (cases f) (auto simp: Let_def split: option.splits sum.splits if_splits)
qed simp

section \<open>Outcomes of a replay task\<close>

datatype outcome = Success | Failure | Window | Peer_gone | Trunc

fun outcome_of :: "replay_error + replay_delivery \<Rightarrow> outcome" where
  "outcome_of (Inr d) = (if peer_gone d then Peer_gone else Success)"
| "outcome_of (Inl (WindowExceeded _ _ _)) = Window"
| "outcome_of (Inl (Truncated _ _ _)) = Trunc"
| "outcome_of (Inl (ReplayJetStream _)) = Failure"

definition outcome_counts :: "metrics \<Rightarrow> outcome \<Rightarrow> u64" where
  "outcome_counts m k =
     (case k of Success \<Rightarrow> replay_success_total m | Failure \<Rightarrow> replay_failure_total m
      | Window \<Rightarrow> replay_window_exceeded_total m | Peer_gone \<Rightarrow> replay_aborted_peer_gone_total m
      | Trunc \<Rightarrow> replay_truncated_total m)"

lemma observe_frame [simp]:
  "replay_in_flight (observe_first d m) = replay_in_flight m" "replay_in_flight (observe_catch_up m) = replay_in_flight m"
  "outcome_counts (observe_first d m) = outcome_counts m" "outcome_counts (observe_catch_up m) = outcome_counts m"
  by (auto simp: observe_first_def observe_catch_up_def outcome_counts_def fun_eq_iff split: option.splits outcome.splits)

lemma outcome_counts_upd:
  "outcome_counts (m\<lparr>replay_in_flight := g\<rparr>) = outcome_counts m"
  "outcome_counts (m\<lparr>replay_success_total := x\<rparr>) = (outcome_counts m)(Success := x)"
  "outcome_counts (m\<lparr>replay_failure_total := x\<rparr>) = (outcome_counts m)(Failure := x)"
  "outcome_counts (m\<lparr>replay_window_exceeded_total := x\<rparr>) = (outcome_counts m)(Window := x)"
  "outcome_counts (m\<lparr>replay_aborted_peer_gone_total := x\<rparr>) = (outcome_counts m)(Peer_gone := x)"
  "outcome_counts (m\<lparr>replay_truncated_total := x\<rparr>) = (outcome_counts m)(Trunc := x)"
  by (auto simp: outcome_counts_def fun_eq_iff split: outcome.splits)

lemma replay_outcome_metrics:
  "replay_in_flight (fst (replay_outcome env res m)) = replay_in_flight m"
  "outcome_counts (fst (replay_outcome env res m)) = (outcome_counts m)(outcome_of res := outcome_counts m (outcome_of res) + 1)"
  by (cases res rule: outcome_of.cases;
      simp add: replay_outcome_def outcome_counts_upd; simp add: outcome_counts_def)+

lemma replay_outcome_frame:
  "snd (replay_outcome env res m) = (case outcome_of res of
          Peer_gone \<Rightarrow> None
        | Success \<Rightarrow> encoded_frame (re_codec env) Last_replay (ConfirmSubscription (re_stream env))
        | Failure \<Rightarrow> encoded_frame (re_codec env) Last_replay (ConfirmSubscription (re_stream env))
        | Window \<Rightarrow> encoded_frame (re_codec env) Last_urgent (Disconnect ''replay_window_exceeded'' (Some True))
        | Trunc \<Rightarrow> encoded_frame (re_codec env) Last_urgent (Disconnect ''replay_truncated'' (Some True)))"
  by (cases res rule: outcome_of.cases) (simp_all add: replay_outcome_def)

section \<open>Properties\<close>

text \<open>
  C19. A replay is ordered, bounded and genuine: the frames it sends carry strictly increasing
  sequence numbers, all above the client's last one; there are at most 10000 of them; each is the encoding
  of a fetched message of that sequence marked as replayed; and a successful outcome
  reports exactly how many were sent, with a first-delivery time when there was one.
\<close>

theorem replay_ordered:
  assumes "replay_since env calls lseq fetches = (res, sent_frames)"
  shows "sorted_wrt (<) (lseq # map fst sent_frames) \<and> length sent_frames \<le> MAX_REPLAY_MESSAGES \<and>
    (\<forall>fr \<in> set sent_frames. is_replay_of env fetches fr) \<and>
    (\<forall>d. res = Inr d \<longrightarrow> delivered d = length sent_frames \<and> (first_delivery_elapsed d = None \<longleftrightarrow> sent_frames = []))"
proof -
  let ?s = "fst (snd (replay_loop env fetches (replay_init lseq)))"
  have inv: "replay_inv lseq ?s" by (rule replay_loop_inv [OF replay_inv_init])
  have src: "\<forall>fr \<in> set (frames ?s). is_replay_of env fetches fr"
    by (rule replay_loop_source) (simp_all add: replay_init_def)
  have first: "first_elapsed ?s = None \<longleftrightarrow> frames ?s = []"
    by (rule replay_loop_first) (simp add: replay_init_def)
  have "sent_frames = [] \<and> (\<exists>e. res = Inl e) \<or>
      sent_frames = frames ?s \<and> res = replay_finish env (replay_loop env fetches (replay_init lseq))"
    using assms by (auto simp: replay_since_def Let_def split: sum.splits option.splits)
  moreover have "delivered d = count ?s \<and> first_delivery_elapsed d = first_elapsed ?s"
    if "replay_finish env (replay_loop env fetches (replay_init lseq)) = Inr d" for d
    using that by (auto simp: replay_finish_def Let_def split: prod.splits sum.splits bool.splits if_splits list.splits fetch.splits)
  ultimately show ?thesis using inv src first by (auto simp: replay_inv_def)
qed

definition demo_replay_env :: replay_env where
  "demo_replay_env = \<lparr>re_stream = ''room'', re_values = \<lparr>json_value_from_slice = (\<lambda>b. Some (JString b)), rmp_value_from_slice = (\<lambda>_. None)\<rparr>,
     re_codec = \<lparr>decode = (\<lambda>_. Inl (ProtocolError [])), encode = (\<lambda>m. case m of ServerMessage i (JString b) r q \<Rightarrow> Inr b | _ \<Rightarrow> Inr ''other'')\<rparr>,
     re_tx_ok = (\<lambda>_. True), re_elapsed = 7\<rparr>"

definition demo_replay_calls :: replay_calls where
  "demo_replay_calls = \<lparr>rc_get_stream = Inr (), rc_info = Inr \<lparr>si_messages = 4, si_first_sequence = 3\<rparr>,
     rc_create_consumer = (\<lambda>_. Inr ()), rc_messages = Inr ()\<rparr>"

definition demo_nats_message :: "u64 \<Rightarrow> bytes \<Rightarrow> nats_message" where
  "demo_nats_message q b = \<lparr>subject = ''TURBOCABLE.room'', msg_payload = b, msg_info = Some q\<rparr>"

lemmas demo_replay_simps =
  replay_since_def demo_replay_calls_def window_check_def demo_replay_env_def replay_init_def demo_nats_message_def
  extract_stream_sequence_def replayed_message_def decode_payload_def replay_finish_def MAX_REPLAY_MESSAGES_def
  u64_saturating_add_def u64_max_def

theorem replay_ordered_witness:
  "\<exists>res fs. replay_since demo_replay_env demo_replay_calls 4
       [Fetched (demo_nats_message 5 ''a''), Fetched (demo_nats_message 5 ''dup''), Fetched (demo_nats_message 7 ''b'')] = (res, fs) \<and>
     fs = [(5, ''a''), (7, ''b'')] \<and> sorted_wrt (<) (4 # map fst fs) \<and> length fs \<le> MAX_REPLAY_MESSAGES"
proof -
  obtain res fs where r: "replay_since demo_replay_env demo_replay_calls 4
       [Fetched (demo_nats_message 5 ''a''), Fetched (demo_nats_message 5 ''dup''), Fetched (demo_nats_message 7 ''b'')] = (res, fs)"
    by (metis surj_pair)
  moreover from r have "fs = [(5, ''a''), (7, ''b'')]" by (auto simp: demo_replay_simps)
  ultimately show ?thesis using replay_ordered [OF r] by blast
qed

text \<open>
  C9. A replay is complete up to the cap. When the calls succeed, every frame encodes and the
  connection stays open, a stream of messages with increasing sequence numbers above the client's
  last one is sent in full and in order if there are at most 10000; otherwise the first 10000 are sent
  and the result is the truncation error.
\<close>

theorem replay_complete:
  assumes "calls_ok env calls lseq" and "path_ok env" and "numbered lseq msgs"
  shows "snd (replay_since env calls lseq (map Fetched msgs)) = map (frame_of env) (take MAX_REPLAY_MESSAGES msgs) \<and>
    (if length msgs \<le> MAX_REPLAY_MESSAGES
     then \<exists>d. fst (replay_since env calls lseq (map Fetched msgs)) = Inr d \<and> delivered d = length msgs \<and> \<not> peer_gone d
     else fst (replay_since env calls lseq (map Fetched msgs)) =
       Inl (Truncated (re_stream env) MAX_REPLAY_MESSAGES MAX_REPLAY_MESSAGES))"
proof -
  obtain t where t: "replay_loop env (map Fetched msgs) (replay_init lseq) = (Inr False, t, map Fetched (drop MAX_REPLAY_MESSAGES msgs))"
      "frames t = map (frame_of env) (take MAX_REPLAY_MESSAGES msgs)" "count t = length (take MAX_REPLAY_MESSAGES msgs)"
    using replay_loop_complete [OF assms(2), of "replay_init lseq" msgs] assms(3) by (auto simp: replay_init_def)
  have r: "replay_since env calls lseq (map Fetched msgs) =
      (replay_finish env (Inr False, t, map Fetched (drop MAX_REPLAY_MESSAGES msgs)), frames t)"
    using assms(1) by (auto simp: replay_since_def calls_ok_def t(1))
  show ?thesis
  proof (cases "length msgs \<le> MAX_REPLAY_MESSAGES")
    case True
    then show ?thesis by (simp add: r t replay_finish_def Let_def)
  next
    case False
    then obtain m ms where "drop MAX_REPLAY_MESSAGES msgs = m # ms" by (cases "drop MAX_REPLAY_MESSAGES msgs") auto
    with False show ?thesis by (simp add: r t replay_finish_def)
  qed
qed

theorem replay_complete_witness:
  "let msgs = [demo_nats_message 5 ''a'', demo_nats_message 7 ''b'']
   in snd (replay_since demo_replay_env demo_replay_calls 4 (map Fetched msgs)) = [(5, ''a''), (7, ''b'')]"
proof -
  let ?msgs = "[demo_nats_message 5 ''a'', demo_nats_message 7 ''b'']"
  have "calls_ok demo_replay_env demo_replay_calls 4"
    by (simp add: calls_ok_def demo_replay_calls_def window_check_def u64_saturating_add_def u64_max_def)
  moreover have "path_ok demo_replay_env"
    by (auto simp: path_ok_def demo_replay_env_def split: server_message.splits json_value.splits)
  moreover have "numbered 4 ?msgs" by (simp add: demo_nats_message_def extract_stream_sequence_def)
  ultimately have "snd (replay_since demo_replay_env demo_replay_calls 4 (map Fetched ?msgs)) =
      map (frame_of demo_replay_env) (take MAX_REPLAY_MESSAGES ?msgs)"
    using replay_complete by blast
  then show ?thesis
    by (simp add: MAX_REPLAY_MESSAGES_def frame_of_def demo_nats_message_def extract_stream_sequence_def
        replayed_message_def decode_payload_def demo_replay_env_def)
qed



text \<open>
  C21. Every replay task is accounted for once and answers the client once. With a permit the gauge
  of running replays is back where it was, one of the five outcome counters is one higher and the
  others are as before, and the last frame is decided by the outcome: a confirmation behind the replayed
  frames after success or a transient failure, an urgent disconnect after a lost window or a
  truncation, nothing when the peer is gone. Without a permit nothing happens.
\<close>

theorem replay_task_outcome:
  assumes "replay_task env permit calls lseq fetches m = (sent_frames, last_frame, m')"
  shows "if \<not> permit then sent_frames = [] \<and> last_frame = None \<and> m' = m
    else let res = fst (replay_since env calls lseq fetches) in
      sent_frames = snd (replay_since env calls lseq fetches) \<and>
      replay_in_flight m' = replay_in_flight m \<and>
      outcome_counts m' = (outcome_counts m)(outcome_of res := outcome_counts m (outcome_of res) + 1) \<and>
      last_frame = (case outcome_of res of
          Peer_gone \<Rightarrow> None
        | Success \<Rightarrow> encoded_frame (re_codec env) Last_replay (ConfirmSubscription (re_stream env))
        | Failure \<Rightarrow> encoded_frame (re_codec env) Last_replay (ConfirmSubscription (re_stream env))
        | Window \<Rightarrow> encoded_frame (re_codec env) Last_urgent (Disconnect ''replay_window_exceeded'' (Some True))
        | Trunc \<Rightarrow> encoded_frame (re_codec env) Last_urgent (Disconnect ''replay_truncated'' (Some True)))"
  using assms
  by (auto simp: replay_task_def Let_def split_beta replay_outcome_metrics replay_outcome_frame outcome_counts_upd)

theorem replay_task_outcome_witness:
  "\<exists>fs fr m. replay_task demo_replay_env True demo_replay_calls 1 [] metrics_zero = (fs, fr, m) \<and>
     fs = [] \<and> fr = Some (Last_urgent ''other'') \<and> outcome_counts m Window = 1 \<and> replay_in_flight m = 0"
proof -
  obtain fs fr m where t: "replay_task demo_replay_env True demo_replay_calls 1 [] metrics_zero = (fs, fr, m)"
    by (metis prod_cases3)
  have r: "replay_since demo_replay_env demo_replay_calls 1 [] = (Inl (WindowExceeded ''room'' 2 3), [])"
    by (simp add: demo_replay_simps)
  have e: "encode (re_codec demo_replay_env) (Disconnect a b) = Inr ''other''" for a b
    by (simp add: demo_replay_env_def)
  have z: "outcome_counts metrics_zero k = 0" "replay_in_flight metrics_zero = 0" for k
    by (simp_all add: metrics_zero_def outcome_counts_def split: outcome.splits)
  from replay_task_outcome [OF t] show ?thesis
    using t by (simp add: r Let_def encoded_frame_def e z)
qed

end
