(* ===== verification/Handler.thy ===== *)
theory Handler
  imports Outbound Auth Presence Limiter Config Replay
begin

text \<open>
  The connection handler (\<open>src/src/connection/handler.rs\<close>): protocol negotiation, admission
  and teardown of a connection (\<open>handle_socket\<close>), the inbound loop, and the dispatch of client
  frames. The state shared by all connections is one record; what is fixed for the life of the process
  is another. A command of a client that publishes or starts a replay is recorded: the payload in the list
  of publishes, the task in the list of spawned replays, whose run is in \<open>Replay\<close>. Where the code awaits
  a send on the live channel it does nothing afterwards, so a frame handler returns the frame
  to send and the loop is in its sending place until the channel takes it. A panic is the result \<open>None\<close>.
\<close>

section \<open>Negotiation and stream keys\<close>

fun negotiate_protos :: "str list \<Rightarrow> str" where
  "negotiate_protos [] = SUB_PROTOCOL_JSON"
| "negotiate_protos (proto # protos) =
     (if proto = SUB_PROTOCOL_MSGPACK then SUB_PROTOCOL_MSGPACK
      else if proto = SUB_PROTOCOL_JSON then SUB_PROTOCOL_JSON
      else negotiate_protos protos)"

definition negotiate_protocol :: "str \<Rightarrow> str" where
  "negotiate_protocol header = negotiate_protos (map trim (split_char CHR '','' header))"

text \<open>The protocol chosen by the upgrade, and what the response header offers.\<close>

definition ws_upgrade :: "str option \<Rightarrow> str \<times> str option" where
  "ws_upgrade requested =
     (case requested of
        Some val \<Rightarrow> (let chosen = negotiate_protocol val in (chosen, Some chosen))
      | None \<Rightarrow> (SUB_PROTOCOL_JSON, None))"

definition value_get_str :: "json_value \<Rightarrow> str \<Rightarrow> str option" where
  "value_get_str v key =
     (case v of
        JObject kvs \<Rightarrow> (case map_of kvs key of Some (JString s) \<Rightarrow> Some s | _ \<Rightarrow> None)
      | _ \<Rightarrow> None)"

definition stream_key_from_identifier :: "value_libs \<Rightarrow> str \<Rightarrow> str" where
  "stream_key_from_identifier vl identifier =
     (case json_value_from_slice vl identifier of
        None \<Rightarrow> identifier
      | Some v \<Rightarrow> (case value_get_str v ''stream'' of
          None \<Rightarrow> identifier
        | Some s \<Rightarrow> (case str_find identifier s of
            None \<Rightarrow> identifier
          | Some start \<Rightarrow> take (length s) (drop start identifier))))"

section \<open>State\<close>

datatype connection_state = AwaitingHello | Active

record 'key app_env =
  ae_jwt_libs :: "'key jwt_libs"
  ae_jwt_verifier :: "'key jwt_verifier option"
  ae_serde :: serde_libs
  ae_values :: value_libs
  ae_nats :: bool
  ae_presence :: bool
  ae_ping_interval_secs :: u64
  ae_ws_channel_capacity :: nat
  ae_ws_replay_channel_capacity :: nat
  ae_replay_enforcement :: replay_enforcement

record spawned_replay =
  sr_conn :: u64
  sr_stream :: str
  sr_seq :: u64

record app_state =
  st_registry :: registry
  st_limiter :: connection_limiter
  st_presence :: presence_manager
  st_metrics :: metrics
  st_chans :: chan_store
  st_next_chan :: nat
  st_published :: "(str \<times> bytes) list"
  st_replays :: "spawned_replay list"

record conn_context =
  conn_id :: u64
  ctx_codec :: codec
  live_tx :: nat
  replay_tx :: nat
  urgent_close_tx :: nat
  ctx_allowed_streams :: "str list"
  user_id :: "str option"

datatype in_pc = In_select | In_sending bytes bool | In_stopped

record conn_local =
  conn_state :: connection_state
  replay_capable :: bool
  cur_last_seq :: "u64 option"
  heartbeats :: "(str, nat) hmap"
  in_pc :: in_pc

definition inc_metric :: "((u64 \<Rightarrow> u64) \<Rightarrow> metrics \<Rightarrow> metrics) \<Rightarrow> app_state \<Rightarrow> app_state" where
  "inc_metric upd st = st\<lparr>st_metrics := upd (\<lambda>n. n + 1) (st_metrics st)\<rparr>"

definition encode_opt :: "codec \<Rightarrow> server_message \<Rightarrow> bytes option" where
  "encode_opt c msg = (case encode c msg of Inl _ \<Rightarrow> None | Inr b \<Rightarrow> Some b)"

section \<open>Commands\<close>

definition put_presence :: "'key app_env \<Rightarrow> conn_context \<Rightarrow> str \<Rightarrow> app_state \<Rightarrow> conn_local \<Rightarrow> app_state \<times> conn_local" where
  "put_presence env ctx identifier st loc =
     (case (user_id ctx, ae_presence env) of
        (Some uid, True) \<Rightarrow>
          let pm1 = presence_put (st_presence st) identifier uid;
              (h, pm2) = start_heartbeat pm1 identifier uid;
              pm3 = (case map_of (heartbeats loc) identifier of None \<Rightarrow> pm2 | Some old \<Rightarrow> drop_heartbeat pm2 old)
          in (st\<lparr>st_presence := pm3\<rparr>, loc\<lparr>heartbeats := hm_insert identifier h (heartbeats loc)\<rparr>)
      | _ \<Rightarrow> (st, loc))"

definition remove_presence :: "'key app_env \<Rightarrow> conn_context \<Rightarrow> str \<Rightarrow> app_state \<Rightarrow> conn_local \<Rightarrow> app_state \<times> conn_local" where
  "remove_presence env ctx identifier st loc =
     (case (user_id ctx, ae_presence env) of
        (Some uid, True) \<Rightarrow>
          let pm1 = (case map_of (heartbeats loc) identifier of
                       None \<Rightarrow> st_presence st | Some h \<Rightarrow> drop_heartbeat (st_presence st) h)
          in (st\<lparr>st_presence := presence_delete pm1 identifier uid\<rparr>,
              loc\<lparr>heartbeats := hm_remove identifier (heartbeats loc)\<rparr>)
      | _ \<Rightarrow> (st, loc))"

definition clone_sender :: "nat \<Rightarrow> chan_store \<Rightarrow> chan_store" where
  "clone_sender h cs = cs\<lparr>byte_chans := (byte_chans cs)(h := chan_clone_sender (byte_chans cs h))\<rparr>"

definition confirm_or_replay :: "'key app_env \<Rightarrow> conn_context \<Rightarrow> str \<Rightarrow> app_state \<Rightarrow> conn_local \<Rightarrow> app_state \<times> bytes option" where
  "confirm_or_replay env ctx identifier st loc =
     (case (cur_last_seq loc, ae_nats env) of
        (Some seq, True) \<Rightarrow>
          (st\<lparr>st_chans := clone_sender (urgent_close_tx ctx) (clone_sender (replay_tx ctx) (st_chans st)),
              st_replays := st_replays st @ [\<lparr>sr_conn = conn_id ctx, sr_stream = identifier, sr_seq = seq\<rparr>]\<rparr>, None)
      | _ \<Rightarrow> (st, encode_opt (ctx_codec ctx) (ConfirmSubscription identifier)))"

definition dispatch_subscribe :: "'key app_env \<Rightarrow> conn_context \<Rightarrow> str \<Rightarrow> app_state \<Rightarrow> conn_local \<Rightarrow> app_state \<times> conn_local \<times> bytes option" where
  "dispatch_subscribe env ctx identifier st loc =
     (if rejects_non_replay_subscribe (ae_replay_enforcement env) \<and> \<not> replay_capable loc
      then (inc_metric handshake_rejected_non_replay_capable_total_update st, loc,
            encode_opt (ctx_codec ctx) (RejectSubscription identifier))
      else let st1 = (if ae_replay_enforcement env = SoftEnforce \<and> \<not> replay_capable loc
                      then inc_metric handshake_soft_non_replay_subscribe_allowed_total_update st else st)
           in if \<not> is_allowed (ctx_allowed_streams ctx) identifier
              then (st1, loc, encode_opt (ctx_codec ctx) (RejectSubscription identifier))
              else let stream_key = stream_key_from_identifier (ae_values env) identifier;
                       st2 = st1\<lparr>st_registry := subscribe (st_registry st1) (conn_id ctx) stream_key\<rparr>;
                       (st3, loc1) = put_presence env ctx identifier st2 loc;
                       (st4, frame) = confirm_or_replay env ctx identifier st3 loc1
                   in (st4, loc1, frame))"

definition dispatch_unsubscribe :: "'key app_env \<Rightarrow> conn_context \<Rightarrow> str \<Rightarrow> app_state \<Rightarrow> conn_local \<Rightarrow> app_state \<times> conn_local" where
  "dispatch_unsubscribe env ctx identifier st loc =
     (let stream_key = stream_key_from_identifier (ae_values env) identifier;
          st1 = st\<lparr>st_registry := unsubscribe (st_registry st) (conn_id ctx) stream_key\<rparr>
      in remove_presence env ctx identifier st1 loc)"

text \<open>The results of the publish are only logged.\<close>

definition dispatch_message :: "'key app_env \<Rightarrow> str \<Rightarrow> bytes \<Rightarrow> app_state \<Rightarrow> app_state" where
  "dispatch_message env identifier payload st =
     (if ae_nats env then st\<lparr>st_published := st_published st @ [fst (publish identifier payload (Inr ()) (Inr ()))]\<rparr> else st)"

fun dispatch_command :: "client_command \<Rightarrow> 'key app_env \<Rightarrow> conn_context \<Rightarrow> app_state \<Rightarrow> conn_local \<Rightarrow> app_state \<times> conn_local \<times> bytes option" where
  "dispatch_command (Subscribe identifier) env ctx st loc = dispatch_subscribe env ctx identifier st loc"
| "dispatch_command (Unsubscribe identifier) env ctx st loc =
     (let (st1, loc1) = dispatch_unsubscribe env ctx identifier st loc in (st1, loc1, None))"
| "dispatch_command (Message identifier data) env ctx st loc = (dispatch_message env identifier data st, loc, None)"

definition handle_hello :: "hello_command \<Rightarrow> app_state \<Rightarrow> conn_local \<Rightarrow> app_state \<times> conn_local" where
  "handle_hello hello st loc =
     (let loc1 = loc\<lparr>cur_last_seq := last_seq hello, replay_capable := is_replay_capable hello, conn_state := Active\<rparr>;
          st1 = (case last_seq hello of
                   Some q \<Rightarrow> if q > 0 then inc_metric client_reconnect_handshake_total_update st else st
                 | None \<Rightarrow> st);
          st2 = (if is_replay_capable hello then inc_metric handshake_ok_replay_capable_total_update st1
                 else inc_metric handshake_ok_legacy_total_update st1)
      in (st2, loc1))"

definition early_reject :: "conn_context \<Rightarrow> client_command \<Rightarrow> bytes option" where
  "early_reject ctx cmd =
     (case cmd of Subscribe identifier \<Rightarrow> encode_opt (ctx_codec ctx) (RejectSubscription identifier) | _ \<Rightarrow> None)"

definition handle_client_frame :: "bytes \<Rightarrow> 'key app_env \<Rightarrow> conn_context \<Rightarrow> app_state \<Rightarrow> conn_local \<Rightarrow> app_state \<times> conn_local \<times> bytes option" where
  "handle_client_frame data env ctx st loc =
     (case decode (ctx_codec ctx) data of
        Inl _ \<Rightarrow> (st, loc, None)
      | Inr (Hello hello) \<Rightarrow> (let (st1, loc1) = handle_hello hello st loc in (st1, loc1, None))
      | Inr (Command cmd) \<Rightarrow>
          if conn_state loc = AwaitingHello then
            if requires_hello_first (ae_replay_enforcement env)
            then (inc_metric handshake_rejected_total_update st, loc, early_reject ctx cmd)
            else dispatch_command cmd env ctx (inc_metric handshake_legacy_warn_total_update st) (loc\<lparr>conn_state := Active\<rparr>)
          else dispatch_command cmd env ctx st loc)"

section \<open>The inbound loop\<close>

datatype in_event =
  In_message ws_message | In_end | In_error str | In_tick u64 | In_shutdown

definition after_frame :: "app_state \<times> conn_local \<times> bytes option \<Rightarrow> app_state \<times> conn_local" where
  "after_frame res =
     (case res of
        (st, loc, None) \<Rightarrow> (st, loc\<lparr>in_pc := In_select\<rparr>)
      | (st, loc, Some b) \<Rightarrow> (st, loc\<lparr>in_pc := In_sending b False\<rparr>))"

fun inbound_event :: "'key app_env \<Rightarrow> conn_context \<Rightarrow> in_event \<Rightarrow> app_state \<Rightarrow> conn_local \<Rightarrow> app_state \<times> conn_local" where
  "inbound_event env ctx (In_message (Text s)) st loc = after_frame (handle_client_frame s env ctx st loc)"
| "inbound_event env ctx (In_message (Binary b)) st loc = after_frame (handle_client_frame b env ctx st loc)"
| "inbound_event env ctx (In_message (Ping_frame _)) st loc = (st, loc)"
| "inbound_event env ctx (In_message (Pong_frame _)) st loc = (st, loc)"
| "inbound_event env ctx (In_message (Close_frame _)) st loc = (st, loc\<lparr>in_pc := In_stopped\<rparr>)"
| "inbound_event env ctx In_end st loc = (st, loc\<lparr>in_pc := In_stopped\<rparr>)"
| "inbound_event env ctx (In_error e) st loc = (st, loc\<lparr>in_pc := In_stopped\<rparr>)"
| "inbound_event env ctx (In_tick ts) st loc =
     (case encode_opt (ctx_codec ctx) (Ping ts) of
        None \<Rightarrow> (st, loc)
      | Some ping \<Rightarrow> (st, loc\<lparr>in_pc := In_sending ping True\<rparr>))"
| "inbound_event env ctx In_shutdown st loc = (st, loc\<lparr>in_pc := In_stopped\<rparr>)"

text \<open>One attempt to complete the send the loop is waiting in.\<close>

definition inbound_send :: "conn_context \<Rightarrow> app_state \<Rightarrow> conn_local \<Rightarrow> app_state \<times> conn_local" where
  "inbound_send ctx st loc =
     (case in_pc loc of
        In_sending b is_ping \<Rightarrow>
          (case chan_send (byte_chans (st_chans st) (live_tx ctx)) b of
             Sent c \<Rightarrow> (st\<lparr>st_chans := (st_chans st)\<lparr>byte_chans := (byte_chans (st_chans st))(live_tx ctx := c)\<rparr>\<rparr>,
                        loc\<lparr>in_pc := In_select\<rparr>)
           | Send_err \<Rightarrow> (st, loc\<lparr>in_pc := (if is_ping then In_stopped else In_select)\<rparr>)
           | Must_wait \<Rightarrow> (st, loc))
      | _ \<Rightarrow> (st, loc))"

definition delete_presence :: "'key app_env \<Rightarrow> conn_context \<Rightarrow> app_state \<Rightarrow> conn_local \<Rightarrow> presence_manager" where
  "delete_presence env ctx st loc =
     (case (user_id ctx, ae_presence env) of
        (Some uid, True) \<Rightarrow> fold (\<lambda>stream pm. presence_delete pm stream uid) (hm_keys (heartbeats loc)) (st_presence st)
      | _ \<Rightarrow> st_presence st)"

text \<open>What \<open>inbound_loop\<close> does on its way out: presence is deleted, then the handles are dropped.\<close>

definition inbound_exit :: "'key app_env \<Rightarrow> conn_context \<Rightarrow> app_state \<Rightarrow> conn_local \<Rightarrow> app_state" where
  "inbound_exit env ctx st loc =
     st\<lparr>st_presence := fold (\<lambda>h pm. drop_heartbeat pm h) (map snd (heartbeats loc)) (delete_presence env ctx st loc)\<rparr>"

section \<open>Admission\<close>

record conn =
  cn_ip :: ip_addr
  cn_binary :: bool
  cn_ctx :: conn_context
  cn_local :: conn_local
  cn_disconnect_frame :: bytes

datatype admission = Rejected nat str | Accepted conn

definition count_rejected :: "app_state \<Rightarrow> app_state" where
  "count_rejected st = inc_metric connections_rejected_update st"

text \<open>The streams and the user of the connection, or the reason to close it.\<close>

definition authenticate :: "'key app_env \<Rightarrow> str option \<Rightarrow> app_state \<Rightarrow> (str + (str list \<times> str option)) \<times> app_state" where
  "authenticate env token st =
     (case ae_jwt_verifier env of
        None \<Rightarrow> (Inr ([''*''], None), st)
      | Some verifier \<Rightarrow>
          (case token of
             None \<Rightarrow> (Inl ''auth failed'', count_rejected st)
           | Some t \<Rightarrow>
               if t = [] then (Inl ''auth failed'', count_rejected st)
               else let st1 = inc_metric auth_duration_secs_update st
                    in (case verify (ae_jwt_libs env) verifier t of
                          Inr c \<Rightarrow> (Inr (allowed_streams c, Some (sub_claim c)), st1)
                        | Inl e \<Rightarrow> (Inl (str_replace ''auth failed: '' [] (gateway_error_to_string e)), count_rejected st1))))"

definition new_chans :: "bytes chan \<Rightarrow> bytes chan \<Rightarrow> bytes chan \<Rightarrow> unit chan \<Rightarrow> app_state \<Rightarrow> app_state" where
  "new_chans live replay urgent evict st =
     (let h = st_next_chan st; cs = st_chans st
      in st\<lparr>st_chans := cs\<lparr>byte_chans := (byte_chans cs)(h := live, h + 1 := replay, h + 2 := urgent),
                           unit_chans := (unit_chans cs)(h := evict)\<rparr>,
            st_next_chan := h + 3\<rparr>)"

definition open_channels :: "'key app_env \<Rightarrow> app_state \<Rightarrow> app_state option" where
  "open_channels env st =
     (case (chan_new (ae_ws_channel_capacity env), chan_new (ae_ws_replay_channel_capacity env), chan_new 1, chan_new 1) of
        (Some live, Some replay, Some urgent, Some evict) \<Rightarrow> Some (new_chans live replay urgent evict st)
      | _ \<Rightarrow> None)"

definition init_local :: conn_local where
  "init_local = \<lparr>conn_state = AwaitingHello, replay_capable = False, cur_last_seq = None, heartbeats = [], in_pc = In_select\<rparr>"

definition send_welcome :: "codec \<Rightarrow> nat \<Rightarrow> app_state \<Rightarrow> app_state" where
  "send_welcome c h st =
     (case encode_opt c Welcome of
        None \<Rightarrow> st
      | Some b \<Rightarrow>
          (case chan_send (byte_chans (st_chans st) h) b of
             Sent ch \<Rightarrow> st\<lparr>st_chans := (st_chans st)\<lparr>byte_chans := (byte_chans (st_chans st))(h := ch)\<rparr>\<rparr>
           | _ \<Rightarrow> st))"

definition disconnect_frame_for :: "codec \<Rightarrow> bytes" where
  "disconnect_frame_for c =
     (case encode c (Disconnect ''backpressure_reconnect_required'' (Some True)) of Inl _ \<Rightarrow> [] | Inr b \<Rightarrow> b)"

definition accept :: "'key app_env \<Rightarrow> ip_addr \<Rightarrow> str \<Rightarrow> str list \<times> str option \<Rightarrow> app_state \<Rightarrow> (conn \<times> app_state) option" where
  "accept env ip protocol who st =
     (case codec_for_protocol (ae_serde env) protocol of
        None \<Rightarrow> None
      | Some c \<Rightarrow>
          let is_bin = (protocol = SUB_PROTOCOL_MSGPACK);
              (cid, r1) = allocate_id (st_registry st);
              h = st_next_chan st
          in (case open_channels env (st\<lparr>st_registry := r1\<rparr>) of
                None \<Rightarrow> None
              | Some st1 \<Rightarrow>
                  let st2 = st1\<lparr>st_registry := register (st_registry st1) cid h is_bin h,
                                st_chans := clone_sender h (st_chans st1)\<rparr>;
                      st3 = inc_metric connections_total_update st2;
                      m = st_metrics st3;
                      st4 = st3\<lparr>st_metrics := m\<lparr>connections_active := connections_active m + 1\<rparr>\<rparr>;
                      st5 = send_welcome c h st4
                  in if ae_ping_interval_secs env = 0 then None
                     else Some (\<lparr>cn_ip = ip, cn_binary = is_bin,
                                 cn_ctx = \<lparr>conn_id = cid, ctx_codec = c, live_tx = h, replay_tx = h + 1, urgent_close_tx = h + 2,
                                           ctx_allowed_streams = fst who, user_id = snd who\<rparr>,
                                 cn_local = init_local, cn_disconnect_frame = disconnect_frame_for c\<rparr>, st5)))"

text \<open>The first part of \<open>handle_socket\<close>, up to the start of the two loops. A rejection is the close frame sent.\<close>

definition handle_socket_start :: "'key app_env \<Rightarrow> str \<Rightarrow> str option \<Rightarrow> ip_addr \<Rightarrow> app_state \<Rightarrow> (admission \<times> app_state) option" where
  "handle_socket_start env protocol token ip st =
     (let (ok, l1) = try_acquire (st_limiter st) ip; st1 = st\<lparr>st_limiter := l1\<rparr>
      in if \<not> ok then Some (Rejected 1008 ''too many connections from this IP'', count_rejected st1)
         else (case authenticate env token st1 of
                 (Inl reason, st2) \<Rightarrow>
                   Some (Rejected WS_CLOSE_AUTH_FAILED reason, st2\<lparr>st_limiter := release (st_limiter st2) ip\<rparr>)
               | (Inr who, st2) \<Rightarrow>
                   (case accept env ip protocol who st2 of
                      None \<Rightarrow> None
                    | Some (cn, st3) \<Rightarrow> Some (Accepted cn, st3))))"

section \<open>Teardown\<close>

definition drop_sender :: "nat \<Rightarrow> chan_store \<Rightarrow> chan_store" where
  "drop_sender h cs = cs\<lparr>byte_chans := (byte_chans cs)(h := chan_drop_sender (byte_chans cs h))\<rparr>"

text \<open>The last part of \<open>handle_socket\<close>, once the inbound loop has stopped, up to the wait for the outbound task.\<close>

definition handle_socket_end :: "'key app_env \<Rightarrow> conn \<Rightarrow> app_state \<Rightarrow> app_state" where
  "handle_socket_end env cn st =
     (let ctx = cn_ctx cn;
          st1 = inbound_exit env ctx st (cn_local cn);
          (r1, gone) = deregister (st_registry st1) (conn_id ctx);
          st2 = st1\<lparr>st_registry := r1,
                     st_chans := (case gone of None \<Rightarrow> st_chans st1 | Some e \<Rightarrow> drop_entry e (st_chans st1))\<rparr>;
          m = st_metrics st2;
          st3 = st2\<lparr>st_metrics := m\<lparr>connections_active := connections_active m - 1\<rparr>\<rparr>;
          st4 = st3\<lparr>st_limiter := release (st_limiter st3) (cn_ip cn)\<rparr>
      in st4\<lparr>st_chans := drop_sender (urgent_close_tx ctx) (drop_sender (replay_tx ctx) (drop_sender (live_tx ctx) (st_chans st4)))\<rparr>)"

text \<open>The outbound task of a connection starts on the receiving ends of its channels.\<close>

definition outbound_start :: "conn \<Rightarrow> bool \<Rightarrow> app_state \<Rightarrow> out_state" where
  "outbound_start cn shut st =
     outbound_init (byte_chans (st_chans st) (live_tx (cn_ctx cn))) (byte_chans (st_chans st) (replay_tx (cn_ctx cn)))
       (byte_chans (st_chans st) (urgent_close_tx (cn_ctx cn))) (unit_chans (st_chans st) (live_tx (cn_ctx cn)))
       shut (cn_binary cn) (cn_disconnect_frame cn)"

section \<open>What commands change\<close>

lemma inc_metric_frame [simp]:
  "st_registry (inc_metric u st) = st_registry st" "st_limiter (inc_metric u st) = st_limiter st"
  "st_presence (inc_metric u st) = st_presence st" "st_chans (inc_metric u st) = st_chans st"
  "st_next_chan (inc_metric u st) = st_next_chan st" "st_published (inc_metric u st) = st_published st"
  "st_replays (inc_metric u st) = st_replays st" "st_metrics (inc_metric u st) = u (\<lambda>n. n + 1) (st_metrics st)"
  by (simp_all add: inc_metric_def)

lemma put_presence_frame [simp]:
  "st_registry (fst (put_presence env ctx i st loc)) = st_registry st"
  "st_limiter (fst (put_presence env ctx i st loc)) = st_limiter st"
  "st_metrics (fst (put_presence env ctx i st loc)) = st_metrics st"
  "st_chans (fst (put_presence env ctx i st loc)) = st_chans st"
  "st_next_chan (fst (put_presence env ctx i st loc)) = st_next_chan st"
  "st_published (fst (put_presence env ctx i st loc)) = st_published st"
  "st_replays (fst (put_presence env ctx i st loc)) = st_replays st"
  "cur_last_seq (snd (put_presence env ctx i st loc)) = cur_last_seq loc"
  "conn_state (snd (put_presence env ctx i st loc)) = conn_state loc"
  "replay_capable (snd (put_presence env ctx i st loc)) = replay_capable loc"
  by (simp_all add: put_presence_def split_beta Let_def split: option.splits bool.splits)

lemma remove_presence_frame [simp]:
  "st_registry (fst (remove_presence env ctx i st loc)) = st_registry st"
  "st_limiter (fst (remove_presence env ctx i st loc)) = st_limiter st"
  "st_metrics (fst (remove_presence env ctx i st loc)) = st_metrics st"
  "st_chans (fst (remove_presence env ctx i st loc)) = st_chans st"
  "st_next_chan (fst (remove_presence env ctx i st loc)) = st_next_chan st"
  "st_published (fst (remove_presence env ctx i st loc)) = st_published st"
  "st_replays (fst (remove_presence env ctx i st loc)) = st_replays st"
  by (simp_all add: remove_presence_def split_beta Let_def split: option.splits bool.splits)

lemma confirm_or_replay_frame [simp]:
  "st_registry (fst (confirm_or_replay env ctx i st loc)) = st_registry st"
  "st_limiter (fst (confirm_or_replay env ctx i st loc)) = st_limiter st"
  "st_metrics (fst (confirm_or_replay env ctx i st loc)) = st_metrics st"
  "st_presence (fst (confirm_or_replay env ctx i st loc)) = st_presence st"
  "st_next_chan (fst (confirm_or_replay env ctx i st loc)) = st_next_chan st"
  "st_published (fst (confirm_or_replay env ctx i st loc)) = st_published st"
  by (simp_all add: confirm_or_replay_def split: option.splits bool.splits)

text \<open>When a subscribe command goes through.\<close>

definition subscribe_admitted :: "'key app_env \<Rightarrow> conn_context \<Rightarrow> conn_local \<Rightarrow> str \<Rightarrow> bool" where
  "subscribe_admitted env ctx loc i \<longleftrightarrow>
     (requires_hello_first (ae_replay_enforcement env) \<longrightarrow> conn_state loc = Active) \<and>
     (rejects_non_replay_subscribe (ae_replay_enforcement env) \<longrightarrow> replay_capable loc) \<and>
     is_allowed (ctx_allowed_streams ctx) i"

definition reg_effect :: "'key app_env \<Rightarrow> conn_context \<Rightarrow> conn_local \<Rightarrow> client_frame \<Rightarrow> registry \<Rightarrow> registry" where
  "reg_effect env ctx loc frame r =
     (case frame of
        Command (Subscribe i) \<Rightarrow>
          if subscribe_admitted env ctx loc i
          then subscribe r (conn_id ctx) (stream_key_from_identifier (ae_values env) i) else r
      | Command (Unsubscribe i) \<Rightarrow>
          if requires_hello_first (ae_replay_enforcement env) \<and> conn_state loc = AwaitingHello then r
          else unsubscribe r (conn_id ctx) (stream_key_from_identifier (ae_values env) i)
      | _ \<Rightarrow> r)"

lemma dispatch_subscribe_registry:
  "st_registry (fst (dispatch_subscribe env ctx i st loc)) =
     (if (rejects_non_replay_subscribe (ae_replay_enforcement env) \<longrightarrow> replay_capable loc) \<and> is_allowed (ctx_allowed_streams ctx) i
      then subscribe (st_registry st) (conn_id ctx) (stream_key_from_identifier (ae_values env) i) else st_registry st)"
  by (simp add: dispatch_subscribe_def split_beta Let_def)

lemma dispatch_unsubscribe_registry:
  "st_registry (fst (dispatch_unsubscribe env ctx i st loc)) =
     unsubscribe (st_registry st) (conn_id ctx) (stream_key_from_identifier (ae_values env) i)"
  by (simp add: dispatch_unsubscribe_def Let_def)

lemma connection_state_cases: "s = AwaitingHello \<or> s = Active"
  by (cases s) auto

lemma handle_frame_registry:
  "st_registry (fst (handle_client_frame data env ctx st loc)) =
     (case decode (ctx_codec ctx) data of Inl _ \<Rightarrow> st_registry st | Inr frame \<Rightarrow> reg_effect env ctx loc frame (st_registry st))"
proof (cases "decode (ctx_codec ctx) data")
  case (Inr frame)
  show ?thesis
  proof (cases frame)
    case (Command cmd)
    then show ?thesis
      using connection_state_cases [of "conn_state loc"]
      by (cases cmd) (auto simp: Inr handle_client_frame_def reg_effect_def subscribe_admitted_def split_beta Let_def
          dispatch_subscribe_registry dispatch_unsubscribe_registry dispatch_message_def)
  qed (simp add: Inr handle_client_frame_def reg_effect_def handle_hello_def split_beta Let_def split: option.splits)
qed (simp add: handle_client_frame_def)

lemma reg_effect_inv [inv_intros]: "reg_inv r \<Longrightarrow> reg_inv (reg_effect env ctx loc frame r)"
  by (auto simp: reg_effect_def reg_inv_subscribe reg_inv_unsubscribe split: client_frame.splits client_command.splits)

lemma negotiate_protos_find:
  "negotiate_protos ps =
     (case find (\<lambda>p. p = SUB_PROTOCOL_MSGPACK \<or> p = SUB_PROTOCOL_JSON) ps of Some p \<Rightarrow> p | None \<Rightarrow> SUB_PROTOCOL_JSON)"
  by (induction ps) auto

lemma negotiate_protos_cases: "negotiate_protos ps = SUB_PROTOCOL_MSGPACK \<or> negotiate_protos ps = SUB_PROTOCOL_JSON"
  by (induction ps) auto

lemma str_find_None_iff: "str_find s p = None \<longleftrightarrow> \<not> sublist p s"
proof (cases "str_find s p")
  case None
  then show ?thesis by (auto simp: sublist_def str_find_None)
next
  case (Some i)
  then have "take (length p) (drop i s) = p" by (simp add: str_find_slice)
  then have "sublist p s" by (metis append_take_drop_id sublist_appendI)
  with Some show ?thesis by simp
qed

section \<open>Properties\<close>

text \<open>
  Negotiation always ends in a protocol the server has a codec for, so the lookup that follows
  cannot panic: the first supported protocol the client lists, and JSON when there is none or no header.
\<close>

theorem negotiated_protocol_supported:
  "codec_for_protocol libs (fst (ws_upgrade req)) \<noteq> None \<and>
   fst (ws_upgrade req) = (case req of None \<Rightarrow> SUB_PROTOCOL_JSON
      | Some header \<Rightarrow> (case find (\<lambda>p. codec_for_protocol libs p \<noteq> None) (map trim (split_char CHR '','' header)) of
           Some p \<Rightarrow> p | None \<Rightarrow> SUB_PROTOCOL_JSON))"
proof -
  have sup: "codec_for_protocol libs p \<noteq> None \<longleftrightarrow> p = SUB_PROTOCOL_MSGPACK \<or> p = SUB_PROTOCOL_JSON" for p
    by (simp add: codec_for_protocol_def)
  show ?thesis
    unfolding sup using negotiate_protos_cases
    by (cases req) (simp_all add: ws_upgrade_def Let_def negotiate_protocol_def negotiate_protos_find [symmetric])
qed

text \<open>
  The stream key of an identifier is the string in its \<open>stream\<close> field when the identifier is a JSON
  object that has one and spells it without escapes; in every other case it is the identifier itself.
\<close>

theorem stream_key_correct:
  "stream_key_from_identifier vl identifier =
     (case json_value_from_slice vl identifier of
        Some v \<Rightarrow> (case value_get_str v ''stream'' of
            Some s \<Rightarrow> if sublist s identifier then s else identifier
          | None \<Rightarrow> identifier)
      | None \<Rightarrow> identifier)"
  by (auto simp: stream_key_from_identifier_def str_find_slice split: option.splits)
     (metis str_find_None_iff option.distinct(1))+

text \<open>
  C12. No subscription without authorisation. Whatever bytes a client sends, in whatever state its
  connection is, the only subscription that can appear is its own, for the stream key of an identifier
  that one of its token's patterns allows, after a hello where the enforcement mode requires one, and with the
  replay capability where the mode requires it; and the registry invariant and the set of registered
  connections are kept.
\<close>

theorem frame_subscribes_only_if_allowed:
  assumes "reg_inv (st_registry st)" and "handle_client_frame data env ctx st loc = (st', loc', frame)"
  shows "reg_inv (st_registry st') \<and> members (st_registry st') = members (st_registry st) \<and>
    (\<forall>c s. (c, s) \<in> subs_rel (st_registry st') \<longrightarrow> (c, s) \<in> subs_rel (st_registry st) \<or>
       c = conn_id ctx \<and> (\<exists>i. decode (ctx_codec ctx) data = Inr (Command (Subscribe i)) \<and>
          subscribe_admitted env ctx loc i \<and> s = stream_key_from_identifier (ae_values env) i))"
proof (cases "decode (ctx_codec ctx) data")
  case (Inl e)
  then show ?thesis using assms handle_frame_registry [of data env ctx st loc] by simp
next
  case (Inr f)
  have r: "st_registry st' = reg_effect env ctx loc f (st_registry st)"
    using assms(2) handle_frame_registry [of data env ctx st loc] Inr by simp
  show ?thesis
    unfolding r using assms(1)
    by (cases f rule: client_frame.exhaust; cases "case f of Command c \<Rightarrow> c" rule: client_command.exhaust)
       (auto simp: Inr reg_effect_def inv_intros regt.mem_sub regt.mem_unsub regt.rel_sub regt.rel_unsub split: if_splits)
qed

definition demo_env :: "nat app_env" where
  "demo_env = \<lparr>ae_jwt_libs = demo_jwt, ae_jwt_verifier = None,
     ae_serde = \<lparr>json_from_slice = (\<lambda>b. if b = ''sub'' then Inr (Command (Subscribe ''room''))
                                       else if b = ''pub'' then Inr (Command (Message ''secret'' ''x'')) else Inl ''bad''),
                json_to_vec = (\<lambda>m. Inr ''frame''), rmp_from_slice = (\<lambda>_. Inl ''bad''), rmp_to_vec_named = (\<lambda>m. Inr ''frame'')\<rparr>,
     ae_values = \<lparr>json_value_from_slice = (\<lambda>_. None), rmp_value_from_slice = (\<lambda>_. None)\<rparr>,
     ae_nats = True, ae_presence = True, ae_ping_interval_secs = 30, ae_ws_channel_capacity = 4,
     ae_ws_replay_channel_capacity = 4, ae_replay_enforcement = Compat\<rparr>"

definition demo_ctx :: "str list \<Rightarrow> conn_context" where
  "demo_ctx allowed = \<lparr>conn_id = 1, ctx_codec = json_codec (ae_serde demo_env), live_tx = 10, replay_tx = 12, urgent_close_tx = 13,
     ctx_allowed_streams = allowed, user_id = Some ''u''\<rparr>"

definition demo_app :: app_state where
  "demo_app = \<lparr>st_registry = demo_registry, st_limiter = limiter_new 2, st_presence = presence_new, st_metrics = metrics_zero,
     st_chans = demo_store, st_next_chan = 30, st_published = [], st_replays = []\<rparr>"

theorem frame_subscribes_only_if_allowed_witness:
  "\<exists>st' loc' frame. handle_client_frame ''sub'' demo_env (demo_ctx [''chat_*'']) demo_app init_local = (st', loc', frame) \<and>
     reg_inv (st_registry st') \<and> (\<forall>s. (1, s) \<in> subs_rel (st_registry st') \<longrightarrow> (1, s) \<in> subs_rel demo_registry)"
proof -
  obtain st' loc' frame where h:
    "handle_client_frame ''sub'' demo_env (demo_ctx [''chat_*'']) demo_app init_local = (st', loc', frame)" by (metis prod_cases3)
  have inv: "reg_inv (st_registry demo_app)" using demo_registry_inv by (simp add: demo_app_def)
  have dec: "decode (ctx_codec (demo_ctx [''chat_*''])) ''sub'' = Inr (Command (Subscribe ''room''))"
    by (simp add: demo_ctx_def json_codec_def demo_env_def)
  have no: "\<not> is_allowed [''chat_*''] ''room''" by code_simp
  have allowed: "ctx_allowed_streams (demo_ctx [''chat_*'']) = [''chat_*'']" by (simp add: demo_ctx_def)
  from frame_subscribes_only_if_allowed [OF inv h] h show ?thesis
    using no by (auto simp: dec subscribe_admitted_def allowed demo_app_def)
qed

text \<open>
  C18. A subscribe command is answered once. If it is not admitted the answer is a rejection and neither the registry,
  nor the presence entries, nor the replays change; if it is admitted the answer is a confirmation,
  or, when the client resumes and NATS is available, one replay task, which answers in its place.
\<close>

theorem subscribe_answered_once:
  assumes "decode (ctx_codec ctx) data = Inr (Command (Subscribe i))"
    and "handle_client_frame data env ctx st loc = (st', loc', frame)"
  shows "if \<not> subscribe_admitted env ctx loc i
    then frame = encode_opt (ctx_codec ctx) (RejectSubscription i) \<and> st_registry st' = st_registry st \<and>
      st_presence st' = st_presence st \<and> st_replays st' = st_replays st
    else if cur_last_seq loc \<noteq> None \<and> ae_nats env
    then frame = None \<and> (\<exists>q. cur_last_seq loc = Some q \<and>
      st_replays st' = st_replays st @ [\<lparr>sr_conn = conn_id ctx, sr_stream = i, sr_seq = q\<rparr>])
    else frame = encode_opt (ctx_codec ctx) (ConfirmSubscription i) \<and> st_replays st' = st_replays st"
proof -
  have disp: "dispatch_subscribe env ctx i st0 loc0 = (st', loc', frame) \<Longrightarrow>
      if \<not> ((rejects_non_replay_subscribe (ae_replay_enforcement env) \<longrightarrow> replay_capable loc0) \<and> is_allowed (ctx_allowed_streams ctx) i)
      then frame = encode_opt (ctx_codec ctx) (RejectSubscription i) \<and> st_registry st' = st_registry st0 \<and>
        st_presence st' = st_presence st0 \<and> st_replays st' = st_replays st0
      else if cur_last_seq loc0 \<noteq> None \<and> ae_nats env
      then frame = None \<and> (\<exists>q. cur_last_seq loc0 = Some q \<and>
        st_replays st' = st_replays st0 @ [\<lparr>sr_conn = conn_id ctx, sr_stream = i, sr_seq = q\<rparr>])
      else frame = encode_opt (ctx_codec ctx) (ConfirmSubscription i) \<and> st_replays st' = st_replays st0" for st0 loc0
    by (auto simp: dispatch_subscribe_def confirm_or_replay_def split_beta Let_def split: if_splits option.splits bool.splits)
  show ?thesis
    using assms(2) disp [of st loc] disp [of "inc_metric handshake_legacy_warn_total_update st" "loc\<lparr>conn_state := Active\<rparr>"]
      connection_state_cases [of "conn_state loc"]
    by (auto simp: handle_client_frame_def assms(1) early_reject_def subscribe_admitted_def split: if_splits)
qed

theorem subscribe_answered_once_witness:
  "\<exists>st' loc'. handle_client_frame ''sub'' demo_env (demo_ctx [''*'']) demo_app init_local
      = (st', loc', encode_opt (ctx_codec (demo_ctx [''*''])) (ConfirmSubscription ''room''))"
proof -
  obtain st' loc' frame where h:
    "handle_client_frame ''sub'' demo_env (demo_ctx [''*'']) demo_app init_local = (st', loc', frame)" by (metis prod_cases3)
  have dec: "decode (ctx_codec (demo_ctx [''*''])) ''sub'' = Inr (Command (Subscribe ''room''))"
    by (simp add: demo_ctx_def json_codec_def demo_env_def)
  have "is_allowed [''*''] ''room''" by code_simp
  then have "subscribe_admitted demo_env (demo_ctx [''*'']) init_local ''room''"
    by (simp add: subscribe_admitted_def demo_env_def demo_ctx_def requires_hello_first_def rejects_non_replay_subscribe_def)
  with subscribe_answered_once [OF dec h] h show ?thesis by (auto simp: init_local_def)
qed



lemma authenticate_Inl:
  assumes "authenticate env token st = (Inl reason, st')"
  shows "\<exists>v. ae_jwt_verifier env = Some v \<and>
      (token = None \<or> token = Some [] \<or> (\<exists>t e. token = Some t \<and> verify (ae_jwt_libs env) v t = Inl e))"
    and "st_limiter st' = st_limiter st" "st_registry st' = st_registry st" "st_chans st' = st_chans st"
    "st_next_chan st' = st_next_chan st" "st_presence st' = st_presence st"
    "connections_active (st_metrics st') = connections_active (st_metrics st)"
    "connections_rejected (st_metrics st') = connections_rejected (st_metrics st) + 1"
  using assms by (auto simp: authenticate_def count_rejected_def Let_def split: option.splits if_splits sum.splits)

lemma acquire_release_count:
  "fst (try_acquire l ip) \<Longrightarrow> count_for (release (snd (try_acquire l ip)) ip) k = count_for l k"
  using fun_cong [OF lim.acquire_give_back, of l ip k] by (simp add: word_unat_eq_iff)

lemma acquire_refused_count: "\<not> fst (try_acquire l ip) \<Longrightarrow> count_for (snd (try_acquire l ip)) k = count_for l k"
  using fun_cong [OF lim.acquire_used, of l ip k] by (simp add: lim.acquire_iff word_unat_eq_iff)

text \<open>The two ways of being refused: at the limit, or after failed authentication.\<close>

lemma rejected_cases:
  assumes "handle_socket_start env protocol token ip st = Some (Rejected code reason, st')"
  obtains (at_limit) "\<not> fst (try_acquire (st_limiter st) ip)" and "code = 1008"
      and "st' = count_rejected (st\<lparr>st_limiter := snd (try_acquire (st_limiter st) ip)\<rparr>)"
    | (unauthenticated) st2 where "fst (try_acquire (st_limiter st) ip)" and "code = 3000"
      and "authenticate env token (st\<lparr>st_limiter := snd (try_acquire (st_limiter st) ip)\<rparr>) = (Inl reason, st2)"
      and "st' = st2\<lparr>st_limiter := release (st_limiter st2) ip\<rparr>"
  using assms
  by (cases "authenticate env token (st\<lparr>st_limiter := snd (try_acquire (st_limiter st) ip)\<rparr>)")
    (auto simp: handle_socket_start_def split_beta Let_def WS_CLOSE_AUTH_FAILED_def split: if_splits sum.splits option.splits)

text \<open>
  C34. A refused connection leaves no trace. When admission ends in a rejection, every address holds as many slots
  as before, the registry, its identifier counter, the channels and the gauge of open connections are untouched,
  exactly one rejection is counted, and the close code is 1008 when the address was at its limit and 3000 after a
  missing, empty or invalid token otherwise.
\<close>

theorem rejected_leaves_no_trace:
  assumes "handle_socket_start env protocol token ip st = Some (Rejected code reason, st')"
  shows "(\<forall>k. count_for (st_limiter st') k = count_for (st_limiter st) k) \<and>
    st_registry st' = st_registry st \<and> st_chans st' = st_chans st \<and> st_next_chan st' = st_next_chan st \<and>
    st_presence st' = st_presence st \<and> connections_active (st_metrics st') = connections_active (st_metrics st) \<and>
    connections_rejected (st_metrics st') = connections_rejected (st_metrics st) + 1 \<and>
    (if max_per_ip (st_limiter st) \<le> count_for (st_limiter st) ip then code = 1008
     else code = 3000 \<and> (\<exists>v. ae_jwt_verifier env = Some v \<and>
       (token = None \<or> token = Some [] \<or> (\<exists>t e. token = Some t \<and> verify (ae_jwt_libs env) v t = Inl e))))"
  using assms
proof (cases rule: rejected_cases)
  case at_limit
  then have "max_per_ip (st_limiter st) \<le> count_for (st_limiter st) ip"
    by (simp add: lim.acquire_iff word_le_nat_alt not_less)
  with at_limit show ?thesis by (simp add: count_rejected_def acquire_refused_count)
next
  case (unauthenticated st2)
  then have "\<not> max_per_ip (st_limiter st) \<le> count_for (st_limiter st) ip"
    by (simp add: lim.acquire_iff word_le_nat_alt not_less)
  with unauthenticated(2,4) authenticate_Inl [OF unauthenticated(3)] acquire_release_count [OF unauthenticated(1)]
  show ?thesis by simp
qed

theorem rejected_leaves_no_trace_witness:
  "\<exists>st' reason. handle_socket_start (demo_env\<lparr>ae_jwt_verifier := Some \<lparr>vkey = rw_lock_new 1, vpem = rw_lock_new [],
       vvalidation = \<lparr>val_algorithm = RS256, required_spec_claims = []\<rparr>\<rparr>\<rparr>) SUB_PROTOCOL_JSON None (V4 1) demo_app
     = Some (Rejected 3000 reason, st') \<and> st_registry st' = st_registry demo_app \<and> (\<forall>k. count_for (st_limiter st') k = 0)"
proof -
  let ?env = "demo_env\<lparr>ae_jwt_verifier := Some \<lparr>vkey = rw_lock_new 1, vpem = rw_lock_new [],
       vvalidation = \<lparr>val_algorithm = RS256, required_spec_claims = []\<rparr>\<rparr>\<rparr>"
  have "\<exists>st'. handle_socket_start ?env SUB_PROTOCOL_JSON None (V4 1) demo_app = Some (Rejected 3000 ''auth failed'', st')"
    by (simp add: handle_socket_start_def demo_app_def try_acquire_def limiter_new_def authenticate_def WS_CLOSE_AUTH_FAILED_def Let_def)
  then obtain st' where h: "handle_socket_start ?env SUB_PROTOCOL_JSON None (V4 1) demo_app = Some (Rejected 3000 ''auth failed'', st')"
    by blast
  have "count_for (st_limiter demo_app) k = 0" for k by (simp add: demo_app_def limiter_new_def count_for_def)
  with rejected_leaves_no_trace [OF h] h show ?thesis by auto
qed

end
