(* ===== verification/Gateway.thy ===== *)
theory Gateway
  imports Handler
begin

text \<open>
  The gateway as a system: the shared state, the live connections, and one step per operation of
  any of its tasks (admission, a client event, a pending send, the end of a connection, a consumed broadcast,
  a heartbeat, a replay task), in any order. The outbound and replay tasks change channels in
  ways the invariant does not depend on, so their steps leave the new contents of the channels open.
  The last section is what holds in every reachable state.
\<close>

section \<open>The system\<close>

record gateway =
  app :: app_state
  rate :: "stream_rate_limiter option"
  conns :: "u64 \<rightharpoonup> conn"

definition gateway_init :: "u64 \<Rightarrow> stream_rate_limiter option \<Rightarrow> gateway" where
  "gateway_init limit rl =
     \<lparr>app = \<lparr>st_registry = registry_new, st_limiter = limiter_new limit, st_presence = presence_new, st_metrics = metrics_zero,
             st_chans = \<lparr>byte_chans = (\<lambda>_. \<lparr>queue = [], capacity = 0, senders = 0, rx_alive = False\<rparr>),
                        unit_chans = (\<lambda>_. \<lparr>queue = [], capacity = 0, senders = 0, rx_alive = False\<rparr>)\<rparr>,
             st_next_chan = 0, st_published = [], st_replays = []\<rparr>,
      rate = rl, conns = Map.empty\<rparr>"

definition to_fan :: "gateway \<Rightarrow> fan_state" where
  "to_fan g = \<lparr>fs_registry = st_registry (app g), fs_chans = st_chans (app g), fs_limiter = rate g, fs_metrics = st_metrics (app g)\<rparr>"

definition from_fan :: "gateway \<Rightarrow> fan_state \<Rightarrow> gateway" where
  "from_fan g fs = g\<lparr>app := (app g)\<lparr>st_registry := fs_registry fs, st_chans := fs_chans fs, st_metrics := fs_metrics fs\<rparr>, rate := fs_limiter fs\<rparr>"

definition set_local :: "gateway \<Rightarrow> u64 \<Rightarrow> conn \<Rightarrow> app_state \<times> conn_local \<Rightarrow> gateway" where
  "set_local g c cn res = g\<lparr>app := fst res, conns := (conns g)(c \<mapsto> cn\<lparr>cn_local := snd res\<rparr>)\<rparr>"

inductive gw_step :: "'key app_env \<Rightarrow> gateway \<Rightarrow> gateway \<Rightarrow> bool" for env where
  gw_reject: "handle_socket_start env protocol token ip (app g) = Some (Rejected code reason, st) \<Longrightarrow>
     gw_step env g (g\<lparr>app := st\<rparr>)"
| gw_accept: "unat (next_id (st_registry (app g))) + 1 < 2 ^ 64 \<Longrightarrow>
     handle_socket_start env protocol token ip (app g) = Some (Accepted cn, st) \<Longrightarrow>
     gw_step env g (g\<lparr>app := st, conns := (conns g)(conn_id (cn_ctx cn) \<mapsto> cn)\<rparr>)"
| gw_event: "conns g c = Some cn \<Longrightarrow> in_pc (cn_local cn) = In_select \<Longrightarrow>
     gw_step env g (set_local g c cn (inbound_event env (cn_ctx cn) ev (app g) (cn_local cn)))"
| gw_send: "conns g c = Some cn \<Longrightarrow>
     gw_step env g (set_local g c cn (inbound_send (cn_ctx cn) (app g) (cn_local cn)))"
| gw_end: "conns g c = Some cn \<Longrightarrow> in_pc (cn_local cn) = In_stopped \<Longrightarrow>
     gw_step env g (g\<lparr>app := handle_socket_end env cn (app g), conns := (conns g)(c := None)\<rparr>)"
| gw_broadcast: "gw_step env g (from_fan g (process_nats_message (ae_values env) (ae_serde env) now msg (to_fan g)))"
| gw_heartbeat: "gw_step env g (g\<lparr>app := (app g)\<lparr>st_presence := heartbeat_tick (st_presence (app g)) h\<rparr>\<rparr>)"
| gw_replay: "gw_step env g (g\<lparr>app := (app g)\<lparr>st_metrics := snd (snd (replay_task renv permit calls lseq fetches (st_metrics (app g)))),
     st_chans := cs\<rparr>\<rparr>)"
| gw_outbound: "gw_step env g (g\<lparr>app := (app g)\<lparr>st_chans := cs\<rparr>\<rparr>)"

inductive gw_reach :: "'key app_env \<Rightarrow> u64 \<Rightarrow> stream_rate_limiter option \<Rightarrow> gateway \<Rightarrow> bool" for env limit rl where
  gw_start: "gw_reach env limit rl (gateway_init limit rl)"
| gw_next: "gw_reach env limit rl g \<Longrightarrow> gw_step env g g' \<Longrightarrow> gw_reach env limit rl g'"

section \<open>Heartbeats and their owners\<close>

text \<open>
  \<open>owns c\<close> maps the identifiers connection \<open>c\<close> has a heartbeat for to the heartbeat's task:
  the running tasks are exactly the owned ones, and no task has two owners.
\<close>

definition hb_inv :: "(nat \<rightharpoonup> str \<times> str) \<Rightarrow> nat \<Rightarrow> (u64 \<Rightarrow> str \<rightharpoonup> nat) \<Rightarrow> bool" where
  "hb_inv tasks n owns \<longleftrightarrow>
     (\<forall>c i h. owns c i = Some h \<longrightarrow> tasks h \<noteq> None \<and> h < n) \<and>
     (\<forall>c i c' i' h. owns c i = Some h \<longrightarrow> owns c' i' = Some h \<longrightarrow> c = c' \<and> i = i') \<and>
     (\<forall>h. tasks h \<noteq> None \<longrightarrow> (\<exists>c i. owns c i = Some h))"

lemma hb_invD:
  assumes "hb_inv tasks n owns"
  shows "owns c i = Some h \<Longrightarrow> tasks h \<noteq> None" and "owns c i = Some h \<Longrightarrow> h < n"
    and "owns c i = Some h \<Longrightarrow> owns c' i' = Some h \<Longrightarrow> c = c'" and "owns c i = Some h \<Longrightarrow> owns c' i' = Some h \<Longrightarrow> i = i'"
    and "tasks h \<noteq> None \<Longrightarrow> \<exists>c i. owns c i = Some h"
  using assms unfolding hb_inv_def by blast+

definition drop_task :: "nat option \<Rightarrow> (nat \<rightharpoonup> str \<times> str) \<Rightarrow> (nat \<rightharpoonup> str \<times> str)" where
  "drop_task old tasks = (case old of None \<Rightarrow> tasks | Some h \<Rightarrow> tasks(h := None))"

lemma hb_inv_remove:
  assumes "hb_inv tasks n owns"
  shows "hb_inv (drop_task (owns c i) tasks) n (owns(c := (owns c)(i := None)))"
proof -
  note d = hb_invD [OF assms]
  show ?thesis
    unfolding hb_inv_def
  proof (intro conjI allI impI)
    fix c' i' h
    assume "(owns(c := (owns c)(i := None))) c' i' = Some h"
    then have o: "owns c' i' = Some h" "\<not> (c' = c \<and> i' = i)" by (auto split: if_splits)
    then have "owns c i \<noteq> Some h" using d(3,4) by blast
    then show "drop_task (owns c i) tasks h \<noteq> None"
      using d(1) [OF o(1)] by (auto simp: drop_task_def split: option.splits)
    show "h < n" using d(2) [OF o(1)] .
  next
    fix c1 i1 c2 i2 h
    assume "(owns(c := (owns c)(i := None))) c1 i1 = Some h" "(owns(c := (owns c)(i := None))) c2 i2 = Some h"
    then have "owns c1 i1 = Some h" "owns c2 i2 = Some h" by (auto split: if_splits)
    then show "c1 = c2" "i1 = i2" using d(3,4) by blast+
  next
    fix h
    assume "drop_task (owns c i) tasks h \<noteq> None"
    then have "tasks h \<noteq> None" "owns c i \<noteq> Some h" by (auto simp: drop_task_def split: option.splits if_splits)
    then obtain c' i' where "owns c' i' = Some h" using d(5) by blast
    with \<open>owns c i \<noteq> Some h\<close> have "(owns(c := (owns c)(i := None))) c' i' = Some h" by (auto split: if_splits)
    then show "\<exists>c' i'. (owns(c := (owns c)(i := None))) c' i' = Some h" by blast
  qed
qed

lemma hb_inv_add:
  assumes "hb_inv tasks n owns" and "owns c i = None"
  shows "hb_inv (tasks(n \<mapsto> t)) (Suc n) (owns(c := (owns c)(i \<mapsto> n)))"
proof -
  note d = hb_invD [OF assms(1)]
  have fresh: "owns c' i' \<noteq> Some n" for c' i' using d(2) by blast
  show ?thesis
    unfolding hb_inv_def
  proof (intro conjI allI impI)
    fix c' i' h
    assume "(owns(c := (owns c)(i \<mapsto> n))) c' i' = Some h"
    then have "h = n \<or> owns c' i' = Some h" by (auto split: if_splits)
    then show "(tasks(n \<mapsto> t)) h \<noteq> None" "h < Suc n" using d(1,2) by (auto simp: less_SucI)
  next
    fix c1 i1 c2 i2 h
    assume "(owns(c := (owns c)(i \<mapsto> n))) c1 i1 = Some h" "(owns(c := (owns c)(i \<mapsto> n))) c2 i2 = Some h"
    then show "c1 = c2" "i1 = i2" using d(3,4) fresh by (auto split: if_splits)
  next
    fix h
    assume "(tasks(n \<mapsto> t)) h \<noteq> None"
    then consider "h = n" | "tasks h \<noteq> None" by (auto split: if_splits)
    then show "\<exists>c' i'. (owns(c := (owns c)(i \<mapsto> n))) c' i' = Some h"
    proof cases
      case 1
      then show ?thesis by (intro exI [of _ c] exI [of _ i]) simp
    next
      case 2
      then obtain c' i' where o: "owns c' i' = Some h" using d(5) by blast
      with assms(2) have "(owns(c := (owns c)(i \<mapsto> n))) c' i' = Some h" by auto
      then show ?thesis by blast
    qed
  qed
qed

lemma hb_inv_exit:
  assumes "hb_inv tasks n owns"
  shows "hb_inv (\<lambda>h. if h \<in> ran (owns c) then None else tasks h) n (owns(c := Map.empty))"
proof -
  note d = hb_invD [OF assms]
  have other: "h \<notin> ran (owns c)" if "owns c' i' = Some h" "c' \<noteq> c" for c' i' h
    using that d(3) by (auto simp: ran_def)
  show ?thesis
    unfolding hb_inv_def
  proof (intro conjI allI impI)
    fix c' i' h
    assume "(owns(c := Map.empty)) c' i' = Some h"
    then have "owns c' i' = Some h" "c' \<noteq> c" by (auto split: if_splits)
    then show "(if h \<in> ran (owns c) then None else tasks h) \<noteq> None" "h < n" using other d(1,2) by auto
  next
    fix c1 i1 c2 i2 h
    assume "(owns(c := Map.empty)) c1 i1 = Some h" "(owns(c := Map.empty)) c2 i2 = Some h"
    then show "c1 = c2" "i1 = i2" using d(3,4) by (auto split: if_splits)
  next
    fix h
    assume "(if h \<in> ran (owns c) then None else tasks h) \<noteq> None"
    then have t: "h \<notin> ran (owns c)" "tasks h \<noteq> None" by (auto split: if_splits)
    then obtain c' i' where o: "owns c' i' = Some h" using d(5) by blast
    with t have "c' \<noteq> c" by (auto simp: ran_def)
    with o show "\<exists>c' i'. (owns(c := Map.empty)) c' i' = Some h" by (intro exI [of _ c'] exI [of _ i']) simp
  qed
qed

definition hb_effect :: "presence_manager \<Rightarrow> (str, nat) hmap \<Rightarrow> presence_manager \<Rightarrow> (str, nat) hmap \<Rightarrow> bool" where
  "hb_effect pm hb pm' hb' \<longleftrightarrow>
     (hb_tasks pm' = hb_tasks pm \<and> hb_next pm' = hb_next pm \<and> hb' = hb) \<or>
     (\<exists>i t. hb_tasks pm' = drop_task (map_of hb i) ((hb_tasks pm)(hb_next pm \<mapsto> t)) \<and>
        hb_next pm' = Suc (hb_next pm) \<and> hb' = hm_insert i (hb_next pm) hb) \<or>
     (\<exists>i. hb_tasks pm' = drop_task (map_of hb i) (hb_tasks pm) \<and> hb_next pm' = hb_next pm \<and> hb' = hm_remove i hb)"

lemma hb_effect_same [simp]: "hb_effect pm hb pm hb"
  by (simp add: hb_effect_def)

lemma hb_effect_ok: "hb_effect pm hb pm' hb' \<Longrightarrow> hm_ok hb \<Longrightarrow> hm_ok hb'"
  by (auto simp: hb_effect_def)

lemma hb_effect_inv:
  assumes "hb_inv (hb_tasks pm) (hb_next pm) owns" and "owns c = map_of hb" and "hb_effect pm hb pm' hb'"
  shows "hb_inv (hb_tasks pm') (hb_next pm') (owns(c := map_of hb'))"
  using assms(3) unfolding hb_effect_def
proof (elim disjE exE conjE)
  assume "hb_tasks pm' = hb_tasks pm" "hb_next pm' = hb_next pm" "hb' = hb"
  then show ?thesis using assms(1) by (simp add: assms(2) [symmetric])
next
  fix i t
  assume e: "hb_tasks pm' = drop_task (map_of hb i) ((hb_tasks pm)(hb_next pm \<mapsto> t))"
    "hb_next pm' = Suc (hb_next pm)" "hb' = hm_insert i (hb_next pm) hb"
  note rem = hb_inv_remove [OF assms(1), of c i]
  have "hb_inv ((drop_task (owns c i) (hb_tasks pm))(hb_next pm \<mapsto> t)) (Suc (hb_next pm))
      ((owns(c := (owns c)(i := None)))(c := ((owns(c := (owns c)(i := None))) c)(i \<mapsto> hb_next pm)))"
    by (rule hb_inv_add [OF rem]) simp
  moreover have "drop_task (owns c i) ((hb_tasks pm)(hb_next pm \<mapsto> t)) = (drop_task (owns c i) (hb_tasks pm))(hb_next pm \<mapsto> t)"
    using hb_invD(2) [OF assms(1), of c i] by (auto simp: drop_task_def fun_upd_twist split: option.splits)
  ultimately show ?thesis using e by (simp add: assms(2) map_of_hm_insert)
next
  fix i
  assume "hb_tasks pm' = drop_task (map_of hb i) (hb_tasks pm)" "hb_next pm' = hb_next pm" "hb' = hm_remove i hb"
  then show ?thesis using hb_inv_remove [OF assms(1), of c i] by (simp add: assms(2) map_of_hm_remove)
qed

section \<open>What the operations of a connection change\<close>

lemma put_presence_effect:
  "hb_effect (st_presence st) (heartbeats loc) (st_presence (fst (put_presence env ctx i st loc)))
     (heartbeats (snd (put_presence env ctx i st loc)))"
proof (cases "user_id ctx = None \<or> \<not> ae_presence env")
  case True
  then show ?thesis by (auto simp: put_presence_def split: option.splits bool.splits)
next
  case False
  then obtain u where u: "user_id ctx = Some u" "ae_presence env" by auto
  show ?thesis
    unfolding hb_effect_def
    by (intro disjI2 disjI1 exI [of _ i] exI [of _ "(i, u)"])
       (auto simp: put_presence_def u split_beta Let_def drop_task_def split: option.splits)
qed

lemma remove_presence_effect:
  "hb_effect (st_presence st) (heartbeats loc) (st_presence (fst (remove_presence env ctx i st loc)))
     (heartbeats (snd (remove_presence env ctx i st loc)))"
proof (cases "user_id ctx = None \<or> \<not> ae_presence env")
  case True
  then show ?thesis by (auto simp: remove_presence_def split: option.splits bool.splits)
next
  case False
  then obtain u where u: "user_id ctx = Some u" "ae_presence env" by auto
  show ?thesis
    unfolding hb_effect_def
    by (intro disjI2 exI [of _ i]) (auto simp: remove_presence_def u Let_def drop_task_def split: option.splits)
qed

text \<open>The parts of the shared state that commands do not touch.\<close>

definition same_books :: "app_state \<Rightarrow> app_state \<Rightarrow> bool" where
  "same_books st st' \<longleftrightarrow>
     st_limiter st' = st_limiter st \<and> st_next_chan st' = st_next_chan st \<and>
     connections_active (st_metrics st') = connections_active (st_metrics st) \<and>
     connections (st_registry st') = connections (st_registry st) \<and> next_id (st_registry st') = next_id (st_registry st) \<and>
     (reg_inv (st_registry st) \<longrightarrow> reg_inv (st_registry st'))"

definition frame_effect :: "app_state \<Rightarrow> conn_local \<Rightarrow> app_state \<Rightarrow> conn_local \<Rightarrow> bool" where
  "frame_effect st loc st' loc' \<longleftrightarrow>
     same_books st st' \<and> hb_effect (st_presence st) (heartbeats loc) (st_presence st') (heartbeats loc')"

lemma frame_effect_dispatch:
  "dispatch_command cmd env ctx st loc = (st', loc', fr) \<Longrightarrow> frame_effect st loc st' loc'"
proof (cases cmd)
  case (Subscribe i)
  assume d: "dispatch_command cmd env ctx st loc = (st', loc', fr)"
  show ?thesis
  proof (cases "subscribe_admitted env ctx (loc\<lparr>conn_state := Active\<rparr>) i")
    case True
    define st1 where "st1 = (if ae_replay_enforcement env = SoftEnforce \<and> \<not> replay_capable loc
        then inc_metric handshake_soft_non_replay_subscribe_allowed_total_update st else st)"
    define st2 where "st2 = st1\<lparr>st_registry := subscribe (st_registry st1) (conn_id ctx) (stream_key_from_identifier (ae_values env) i)\<rparr>"
    have r: "st' = fst (confirm_or_replay env ctx i (fst (put_presence env ctx i st2 loc)) (snd (put_presence env ctx i st2 loc)))"
      "loc' = snd (put_presence env ctx i st2 loc)"
      using d Subscribe True
      by (auto simp: dispatch_subscribe_def st1_def st2_def subscribe_admitted_def split_beta Let_def split: if_splits)
    have "st_presence st2 = st_presence st" "st_limiter st2 = st_limiter st" "st_next_chan st2 = st_next_chan st"
      "connections_active (st_metrics st2) = connections_active (st_metrics st)"
      "st_registry st2 = subscribe (st_registry st) (conn_id ctx) (stream_key_from_identifier (ae_values env) i)"
      by (simp_all add: st2_def st1_def)
    then show ?thesis
      using put_presence_effect [of st2 loc env ctx i]
      by (simp add: r frame_effect_def same_books_def frame_simps inv_intros)
  next
    case False
    then show ?thesis
      using d Subscribe
      by (auto simp: dispatch_subscribe_def subscribe_admitted_def frame_effect_def same_books_def Let_def split: if_splits)
  qed
next
  case (Unsubscribe i)
  assume d: "dispatch_command cmd env ctx st loc = (st', loc', fr)"
  define st1 where "st1 = st\<lparr>st_registry := unsubscribe (st_registry st) (conn_id ctx) (stream_key_from_identifier (ae_values env) i)\<rparr>"
  have r: "st' = fst (remove_presence env ctx i st1 loc)" "loc' = snd (remove_presence env ctx i st1 loc)"
    using d Unsubscribe by (simp_all add: dispatch_unsubscribe_def st1_def split_beta Let_def)
  show ?thesis
    using remove_presence_effect [of st1 loc env ctx i]
    by (simp add: r frame_effect_def same_books_def) (simp add: st1_def frame_simps inv_intros)
next
  case (Message i payload)
  assume "dispatch_command cmd env ctx st loc = (st', loc', fr)"
  then show ?thesis using Message by (auto simp: dispatch_message_def frame_effect_def same_books_def split: if_splits)
qed

lemma frame_effect_trans_metric:
  "frame_effect (inc_metric u st) (loc\<lparr>conn_state := s\<rparr>) st' loc' \<Longrightarrow>
     connections_active (u (\<lambda>n. n + 1) (st_metrics st)) = connections_active (st_metrics st) \<Longrightarrow> frame_effect st loc st' loc'"
  by (simp add: frame_effect_def same_books_def)

lemma frame_effect_handle:
  assumes "handle_client_frame data env ctx st loc = (st', loc', fr)"
  shows "frame_effect st loc st' loc'"
proof (cases "decode (ctx_codec ctx) data")
  case (Inl e)
  then show ?thesis using assms by (simp add: handle_client_frame_def frame_effect_def same_books_def)
next
  case (Inr f)
  show ?thesis
  proof (cases f)
    case (Hello hello)
    then show ?thesis
      using assms Inr
      by (auto simp: handle_client_frame_def handle_hello_def Let_def frame_effect_def same_books_def split: option.splits if_splits)
  next
    case (Command cmd)
    consider "dispatch_command cmd env ctx st loc = (st', loc', fr)"
      | "dispatch_command cmd env ctx (inc_metric handshake_legacy_warn_total_update st) (loc\<lparr>conn_state := Active\<rparr>) = (st', loc', fr)"
      | "st' = inc_metric handshake_rejected_total_update st" "loc' = loc"
      using assms Inr Command by (auto simp: handle_client_frame_def split: if_splits)
    then show ?thesis
    proof cases
      case 1
      then show ?thesis by (rule frame_effect_dispatch)
    next
      case 2
      then show ?thesis by (rule frame_effect_dispatch [THEN frame_effect_trans_metric]) simp
    next
      case 3
      then show ?thesis by (simp add: frame_effect_def same_books_def)
    qed
  qed
qed

lemma frame_effect_after:
  "frame_effect st loc (fst res) (fst (snd res)) \<Longrightarrow> frame_effect st loc (fst (after_frame res)) (snd (after_frame res))"
  by (cases res) (auto simp: after_frame_def frame_effect_def split: option.splits)

lemma frame_effect_same [simp]: "frame_effect st loc st (loc\<lparr>in_pc := p\<rparr>)" "frame_effect st loc st loc"
  by (simp_all add: frame_effect_def same_books_def)

lemma frame_effect_event: "frame_effect st loc (fst (inbound_event env ctx ev st loc)) (snd (inbound_event env ctx ev st loc))"
proof -
  have frame: "frame_effect st loc (fst (after_frame (handle_client_frame d env ctx st loc))) (snd (after_frame (handle_client_frame d env ctx st loc)))" for d
    by (rule frame_effect_after) (metis frame_effect_handle prod.collapse)
  show ?thesis
  proof (cases ev)
    case (In_message m)
    then show ?thesis by (cases m) (simp_all add: frame)
  qed (simp_all split: option.splits)
qed

lemma frame_effect_send: "frame_effect st loc (fst (inbound_send ctx st loc)) (snd (inbound_send ctx st loc))"
  by (auto simp: inbound_send_def frame_effect_def same_books_def split: in_pc.splits send_result.splits)

lemma send_welcome_frame [simp]:
  "st_registry (send_welcome c h st) = st_registry st" "st_limiter (send_welcome c h st) = st_limiter st"
  "st_presence (send_welcome c h st) = st_presence st" "st_metrics (send_welcome c h st) = st_metrics st"
  "st_next_chan (send_welcome c h st) = st_next_chan st"
  by (simp_all add: send_welcome_def split: option.splits send_result.splits)

lemma authenticate_frame:
  assumes "authenticate env token st = (who, st')"
  shows "st_limiter st' = st_limiter st" "st_registry st' = st_registry st" "st_presence st' = st_presence st"
    "st_next_chan st' = st_next_chan st" "connections_active (st_metrics st') = connections_active (st_metrics st)"
  using assms by (auto simp: authenticate_def count_rejected_def Let_def split: option.splits if_splits sum.splits)

lemma accept_effect:
  assumes "accept env ip protocol who st = Some (cn, st')"
  shows "cn_ip cn = ip \<and> conn_id (cn_ctx cn) = next_id (st_registry st) \<and> cn_local cn = init_local \<and>
    st_limiter st' = st_limiter st \<and> st_presence st' = st_presence st \<and> st_next_chan st' = st_next_chan st + 3 \<and>
    connections_active (st_metrics st') = connections_active (st_metrics st) + 1 \<and>
    (\<exists>b. st_registry st' = register (snd (allocate_id (st_registry st))) (next_id (st_registry st)) (st_next_chan st) b (st_next_chan st))"
  using assms
  by (auto simp: accept_def allocate_id_def open_channels_def new_chans_def Let_def split: option.splits if_splits)

lemma admission_effect:
  assumes "handle_socket_start env protocol token ip st = Some (Accepted cn, st')"
  shows "fst (try_acquire (st_limiter st) (cn_ip cn)) \<and> st_limiter st' = snd (try_acquire (st_limiter st) (cn_ip cn)) \<and>
    conn_id (cn_ctx cn) = next_id (st_registry st) \<and> cn_local cn = init_local \<and>
    st_presence st' = st_presence st \<and> st_next_chan st' = st_next_chan st + 3 \<and>
    connections_active (st_metrics st') = connections_active (st_metrics st) + 1 \<and>
    (\<exists>b. st_registry st' = register (snd (allocate_id (st_registry st))) (next_id (st_registry st)) (st_next_chan st) b (st_next_chan st))"
proof -
  let ?st = "st\<lparr>st_limiter := snd (try_acquire (st_limiter st) ip)\<rparr>"
  obtain who st2 where a: "fst (try_acquire (st_limiter st) ip)" "authenticate env token ?st = (Inr who, st2)"
    "accept env ip protocol who st2 = Some (cn, st')"
    using assms
    by (auto simp: handle_socket_start_def split_beta Let_def split: if_splits sum.splits option.splits) (metis prod.collapse)
  show ?thesis using a(1) authenticate_frame [OF a(2)] accept_effect [OF a(3)] by auto
qed

lemma admission_ip: "handle_socket_start env protocol token ip st = Some (Accepted cn, st') \<Longrightarrow> cn_ip cn = ip"
  by (auto simp: handle_socket_start_def split_beta Let_def split: if_splits sum.splits option.splits dest!: accept_effect)

lemma accept_None_iff:
  assumes "codec_for_protocol (ae_serde env) protocol = Some c"
  shows "accept env ip protocol who st = None \<longleftrightarrow>
    ae_ws_channel_capacity env \<notin> {1..MAX_PERMITS} \<or> ae_ws_replay_channel_capacity env \<notin> {1..MAX_PERMITS} \<or>
    ae_ping_interval_secs env = 0"
proof -
  have one: "(1 :: nat) \<in> {1..MAX_PERMITS}" by (simp add: MAX_PERMITS_ge)
  have "\<exists>u. (chan_new 1 :: bytes chan option) = Some u" "\<exists>e. (chan_new 1 :: unit chan option) = Some e"
    using one chan_new_None_iff [of 1] by (metis option.exhaust)+
  then show ?thesis
    using assms chan_new_None_iff [where ?'a = bytes, of "ae_ws_channel_capacity env"]
      chan_new_None_iff [where ?'a = bytes, of "ae_ws_replay_channel_capacity env"]
    by (auto simp: accept_def allocate_id_def open_channels_def Let_def split: option.splits)
qed

lemma accept_not_None:
  "codec_for_protocol (ae_serde env) protocol \<noteq> None \<Longrightarrow> ae_ws_channel_capacity env \<in> {1..MAX_PERMITS} \<Longrightarrow>
     ae_ws_replay_channel_capacity env \<in> {1..MAX_PERMITS} \<Longrightarrow> ae_ping_interval_secs env \<noteq> 0 \<Longrightarrow> accept env ip protocol who st \<noteq> None"
  using accept_None_iff [of env protocol] by (cases "codec_for_protocol (ae_serde env) protocol") auto

lemma drop_heartbeats_tasks:
  "hb_tasks (fold (\<lambda>h pm. drop_heartbeat pm h) hs pm) = (\<lambda>h. if h \<in> set hs then None else hb_tasks pm h)"
  "hb_next (fold (\<lambda>h pm. drop_heartbeat pm h) hs pm) = hb_next pm"
  by (induction hs arbitrary: pm) (auto simp: fun_eq_iff)

lemma delete_presence_tasks:
  "hb_tasks (delete_presence env ctx st loc) = hb_tasks (st_presence st)"
  "hb_next (delete_presence env ctx st loc) = hb_next (st_presence st)"
proof -
  have "hb_tasks (fold (\<lambda>s pm. presence_delete pm s u) l pm) = hb_tasks pm \<and>
      hb_next (fold (\<lambda>s pm. presence_delete pm s u) l pm) = hb_next pm" for u l pm
    by (induction l arbitrary: pm) simp_all
  then show "hb_tasks (delete_presence env ctx st loc) = hb_tasks (st_presence st)"
    "hb_next (delete_presence env ctx st loc) = hb_next (st_presence st)"
    by (simp_all add: delete_presence_def split: option.splits bool.splits)
qed

lemma end_effect:
  "st_limiter (handle_socket_end env cn st) = release (st_limiter st) (cn_ip cn)"
  "st_registry (handle_socket_end env cn st) = fst (deregister (st_registry st) (conn_id (cn_ctx cn)))"
  "connections_active (st_metrics (handle_socket_end env cn st)) = connections_active (st_metrics st) - 1"
  "st_next_chan (handle_socket_end env cn st) = st_next_chan st"
  "hb_tasks (st_presence (handle_socket_end env cn st)) =
     (\<lambda>h. if h \<in> snd ` set (heartbeats (cn_local cn)) then None else hb_tasks (st_presence st) h)"
  "hb_next (st_presence (handle_socket_end env cn st)) = hb_next (st_presence st)"
  by (simp_all add: handle_socket_end_def inbound_exit_def split_beta Let_def drop_heartbeats_tasks delete_presence_tasks
      cong: if_cong)

lemma deregister_all_next_id: "next_id (fst (deregister_all r l)) = next_id r"
  by (induction l arbitrary: r) (auto simp: split_beta Let_def deregister_frame)

lemma process_registry:
  obtains ev where "fs_registry (process_nats_message vl sl now msg fs) = fst (deregister_all (fs_registry fs) ev)"
proof (cases "fst (rate_gate now (extract_stream_name (subject msg)) fs)")
  case True
  then show ?thesis
    using that by (simp add: process_nats_message_def deliver_def fanout_encoded_def split_beta Let_def)
next
  case False
  then have "fs_registry (process_nats_message vl sl now msg fs) = fst (deregister_all (fs_registry fs) [])"
    by (simp add: process_nats_message_def split_beta Let_def)
  then show ?thesis by (rule that)
qed

lemma process_effect:
  assumes "fs' = process_nats_message vl sl now msg fs" and "fan_ok fs"
  shows "fan_ok fs'" "\<And>c e. connections (fs_registry fs') c = Some e \<Longrightarrow> connections (fs_registry fs) c = Some e"
    "next_id (fs_registry fs') = next_id (fs_registry fs)"
    "connections_active (fs_metrics fs') = connections_active (fs_metrics fs)"
proof -
  let ?g = "snd (rate_gate now (extract_stream_name (subject msg)) fs)"
  have gate: "connections_active (fs_metrics ?g) = connections_active (fs_metrics fs)"
    by (simp add: rate_gate_def split_beta Let_def split: option.splits)
  obtain ev where r: "fs_registry fs' = fst (deregister_all (fs_registry fs) ev)"
    unfolding assms(1) by (rule process_registry)
  show "fan_ok fs'" using assms(2) by (simp add: fan_ok_def r deregister_all_inv senders_distinct_deregister_all)
  show "connections (fs_registry fs) c = Some e" if "connections (fs_registry fs') c = Some e" for c e
    using that by (simp add: r deregister_all_connections split: if_splits)
  show "next_id (fs_registry fs') = next_id (fs_registry fs)" by (simp add: r deregister_all_next_id)
  show "connections_active (fs_metrics fs') = connections_active (fs_metrics fs)"
    using gate by (simp add: assms(1) process_nats_message_def deliver_def split_beta Let_def)
qed

lemma try_acquire_max [simp]: "max_per_ip (snd (try_acquire l ip)) = max_per_ip l"
  using lim.acquire_slots [of l ip] by (simp add: word_unat_eq_iff)

lemma release_max [simp]: "max_per_ip (release l ip) = max_per_ip l"
  using lim.give_back_slots [of l ip] by (simp add: word_unat_eq_iff)

lemma rejection_effect:
  assumes "handle_socket_start env protocol token ip st = Some (Rejected code reason, st')"
  shows "max_per_ip (st_limiter st') = max_per_ip (st_limiter st) \<and>
    (\<forall>k. count_for (st_limiter st') k = count_for (st_limiter st) k) \<and>
    st_registry st' = st_registry st \<and> st_next_chan st' = st_next_chan st \<and>
    st_presence st' = st_presence st \<and> connections_active (st_metrics st') = connections_active (st_metrics st)"
  using assms
proof (cases rule: rejected_cases)
  case at_limit
  then show ?thesis by (simp add: count_rejected_def acquire_refused_count)
next
  case (unauthenticated st2)
  with authenticate_Inl [OF unauthenticated(3)] acquire_release_count [OF unauthenticated(1)] show ?thesis by simp
qed

section \<open>The invariant\<close>

definition owns_of :: "(u64 \<rightharpoonup> conn) \<Rightarrow> u64 \<Rightarrow> str \<rightharpoonup> nat" where
  "owns_of cs c = (case cs c of None \<Rightarrow> Map.empty | Some cn \<Rightarrow> map_of (heartbeats (cn_local cn)))"

definition conns_from :: "(u64 \<rightharpoonup> conn) \<Rightarrow> ip_addr \<Rightarrow> u64 set" where
  "conns_from cs ip = {c. \<exists>cn. cs c = Some cn \<and> cn_ip cn = ip}"

definition conns_ok :: "registry \<Rightarrow> (u64 \<rightharpoonup> conn) \<Rightarrow> bool" where
  "conns_ok r cs \<longleftrightarrow> finite (dom cs) \<and>
     (\<forall>c cn. cs c = Some cn \<longrightarrow> conn_id (cn_ctx cn) = c \<and> c < next_id r \<and> hm_ok (heartbeats (cn_local cn)))"

definition slots_ok :: "u64 \<Rightarrow> connection_limiter \<Rightarrow> (u64 \<rightharpoonup> conn) \<Rightarrow> bool" where
  "slots_ok limit l cs \<longleftrightarrow> max_per_ip l = limit \<and>
     (\<forall>ip. unat (count_for l ip) = card (conns_from cs ip) \<and> card (conns_from cs ip) \<le> unat limit)"

definition registry_ok :: "registry \<Rightarrow> nat \<Rightarrow> (u64 \<rightharpoonup> conn) \<Rightarrow> bool" where
  "registry_ok r n cs \<longleftrightarrow> reg_inv r \<and> senders_distinct r \<and>
     (\<forall>c e. connections r c = Some e \<longrightarrow> sender e < n \<and> cs c \<noteq> None)"

lemma registry_okD: "registry_ok r n cs \<Longrightarrow> connections r c = Some e \<Longrightarrow> sender e < n \<and> cs c \<noteq> None"
  by (simp add: registry_ok_def)

definition gw_inv :: "u64 \<Rightarrow> gateway \<Rightarrow> bool" where
  "gw_inv limit g \<longleftrightarrow>
     conns_ok (st_registry (app g)) (conns g) \<and>
     slots_ok limit (st_limiter (app g)) (conns g) \<and>
     connections_active (st_metrics (app g)) = int (card (dom (conns g))) \<and>
     registry_ok (st_registry (app g)) (st_next_chan (app g)) (conns g) \<and>
     hb_inv (hb_tasks (st_presence (app g))) (hb_next (st_presence (app g))) (owns_of (conns g))"

lemma conns_from_finite: "finite (dom cs) \<Longrightarrow> finite (conns_from cs ip)"
  by (rule finite_subset [of _ "dom cs"]) (auto simp: conns_from_def)

lemma gw_inv_init: "gw_inv limit (gateway_init limit rl)"
  by (simp add: gw_inv_def gateway_init_def conns_ok_def slots_ok_def registry_ok_def hb_inv_def owns_of_def
      conns_from_def limiter_new_def count_for_def presence_new_def metrics_zero_def senders_distinct_def inv_intros)
     (simp add: registry_new_def)

text \<open>A step of a live connection that keeps its address.\<close>

lemma conns_update:
  assumes "cs c = Some cn"
  shows "dom (cs(c \<mapsto> cn\<lparr>cn_local := loc\<rparr>)) = dom cs"
    "conns_from (cs(c \<mapsto> cn\<lparr>cn_local := loc\<rparr>)) = conns_from cs"
    "owns_of (cs(c \<mapsto> cn\<lparr>cn_local := loc\<rparr>)) = (owns_of cs)(c := map_of (heartbeats loc))"
  using assms by (auto simp: conns_from_def owns_of_def fun_eq_iff split: if_splits)

lemma gw_inv_local:
  assumes "gw_inv limit g" and "conns g c = Some cn"
    and "frame_effect (app g) (cn_local cn) (fst res) (snd res)"
  shows "gw_inv limit (set_local g c cn res)"
proof -
  note u = conns_update [of "conns g" c cn "snd res", OF assms(2)]
  have e: "same_books (app g) (fst res)"
    "hb_effect (st_presence (app g)) (heartbeats (cn_local cn)) (st_presence (fst res)) (heartbeats (snd res))"
    using assms(3) by (simp_all add: frame_effect_def)
  have hb: "hb_inv (hb_tasks (st_presence (fst res))) (hb_next (st_presence (fst res)))
      ((owns_of (conns g))(c := map_of (heartbeats (snd res))))"
    using assms(1,2) by (intro hb_effect_inv [OF _ _ e(2)]) (simp_all add: gw_inv_def owns_of_def)
  have "conns_ok (st_registry (fst res)) ((conns g)(c \<mapsto> cn\<lparr>cn_local := snd res\<rparr>))"
    using assms(1,2) e(1) hb_effect_ok [OF e(2)] by (auto simp: gw_inv_def conns_ok_def same_books_def)
  moreover have "registry_ok (st_registry (fst res)) (st_next_chan (fst res)) ((conns g)(c \<mapsto> cn\<lparr>cn_local := snd res\<rparr>))"
    using assms(1) e(1) by (auto simp: gw_inv_def registry_ok_def same_books_def senders_distinct_def)
  moreover have "slots_ok limit (st_limiter (fst res)) ((conns g)(c \<mapsto> cn\<lparr>cn_local := snd res\<rparr>))"
    using assms(1) e(1) by (simp add: gw_inv_def slots_ok_def same_books_def u(2))
  moreover have "connections_active (st_metrics (fst res)) = int (card (dom ((conns g)(c \<mapsto> cn\<lparr>cn_local := snd res\<rparr>))))"
    using assms(1) e(1) u(1) by (simp add: gw_inv_def same_books_def)
  ultimately show ?thesis using hb by (simp add: gw_inv_def set_local_def u(3))
qed

lemma gw_inv_reject:
  assumes "gw_inv limit g" and "handle_socket_start env protocol token ip (app g) = Some (Rejected code reason, st)"
  shows "gw_inv limit (g\<lparr>app := st\<rparr>)"
  using assms(1) rejection_effect [OF assms(2)] by (simp add: gw_inv_def slots_ok_def)

text \<open>A new connection gets an identifier that no live connection and no registry entry has.\<close>

lemma conns_new:
  assumes "cs c = None" and "heartbeats (cn_local cn) = []"
  shows "conns_from (cs(c \<mapsto> cn)) ip = (if ip = cn_ip cn then insert c (conns_from cs ip) else conns_from cs ip)"
    "c \<notin> conns_from cs ip" "owns_of (cs(c \<mapsto> cn)) = owns_of cs"
  using assms by (auto simp: conns_from_def owns_of_def fun_eq_iff split: if_splits)

lemma conns_gone:
  assumes "cs c = Some cn"
  shows "conns_from (cs(c := None)) ip = (if ip = cn_ip cn then conns_from cs ip - {c} else conns_from cs ip)"
    "c \<in> conns_from cs (cn_ip cn)" "owns_of (cs(c := None)) = (owns_of cs)(c := Map.empty)"
  using assms by (auto simp: conns_from_def owns_of_def fun_eq_iff split: if_splits)

lemma slots_accept:
  assumes "slots_ok limit l cs" and "finite (dom cs)" and "cs c = None" and "heartbeats (cn_local cn) = []"
    and "fst (try_acquire l (cn_ip cn))"
  shows "slots_ok limit (snd (try_acquire l (cn_ip cn))) (cs(c \<mapsto> cn))"
proof -
  note new = conns_new [of cs c cn, OF assms(3,4)]
  have less: "unat (count_for l (cn_ip cn)) < unat (max_per_ip l)" using assms(5) by (simp add: lim.acquire_iff)
  have cnt: "unat (count_for (snd (try_acquire l (cn_ip cn))) ip) =
      (if ip = cn_ip cn then Suc (unat (count_for l ip)) else unat (count_for l ip))" for ip
    using fun_cong [OF lim.acquire_used, of l "cn_ip cn" ip] less by (auto split: if_splits)
  show ?thesis
    using assms(1) less by (auto simp: slots_ok_def cnt new(1) card_insert_disjoint [OF conns_from_finite [OF assms(2)] new(2)])
qed

lemma slots_end:
  assumes "slots_ok limit l cs" and "finite (dom cs)" and "cs c = Some cn"
  shows "slots_ok limit (release l (cn_ip cn)) (cs(c := None))"
proof -
  note gone = conns_gone [of cs c cn, OF assms(3)]
  have cnt: "unat (count_for (release l (cn_ip cn)) ip) =
      (if ip = cn_ip cn then unat (count_for l ip) - 1 else unat (count_for l ip))" for ip
    using fun_cong [OF lim.give_back_used, of l "cn_ip cn" ip] by auto
  have "card (conns_from cs (cn_ip cn) - {c}) = card (conns_from cs (cn_ip cn)) - 1"
    using conns_from_finite [OF assms(2)] gone(2) by simp
  then show ?thesis
    using assms(1) by (auto simp: slots_ok_def cnt gone(1) intro: diff_le_self [THEN order_trans])
qed

lemma registry_ok_register:
  assumes ok: "registry_ok r n cs" and new: "cs (next_id r) = None"
    and reg: "r' = register (snd (allocate_id r)) (next_id r) n x n"
  shows "registry_ok r' (n + 3) (cs(next_id r \<mapsto> cn))"
proof -
  have unreg: "connections r (next_id r) = None" using ok new unfolding registry_ok_def by (metis not_None_eq)
  have "reg_inv r'"
    unfolding reg using ok unreg by (intro reg_inv_register reg_inv_allocate_id) (simp_all add: registry_ok_def allocate_id_def)
  moreover have "senders_distinct r'"
    using ok unfolding reg registry_ok_def senders_distinct_def
    by (auto simp: register_def allocate_id_def split: if_splits)
  moreover have "sender e < n + 3 \<and> (cs(next_id r \<mapsto> cn)) c \<noteq> None" if "connections r' c = Some e" for c e
    using that registry_okD [OF ok, of c e] by (auto simp: reg register_def allocate_id_def split: if_splits)
  ultimately show ?thesis by (simp add: registry_ok_def)
qed

lemma gw_inv_accept:
  assumes "gw_inv limit g" and "unat (next_id (st_registry (app g))) + 1 < 2 ^ 64"
    and "handle_socket_start env protocol token ip (app g) = Some (Accepted cn, st)"
  shows "gw_inv limit (g\<lparr>app := st, conns := (conns g)(conn_id (cn_ctx cn) \<mapsto> cn)\<rparr>)"
proof -
  let ?r = "st_registry (app g)" and ?c = "next_id (st_registry (app g))" and ?n = "st_next_chan (app g)"
  note e = admission_effect [OF assms(3)]
  obtain b where reg: "st_registry st = register (snd (allocate_id ?r)) ?c ?n b ?n" using e by blast
  have inv: "conns_ok ?r (conns g)" "slots_ok limit (st_limiter (app g)) (conns g)" "registry_ok ?r ?n (conns g)"
    "connections_active (st_metrics (app g)) = int (card (dom (conns g)))"
    using assms(1) by (simp_all add: gw_inv_def)
  have new: "conns g ?c = None" using inv(1) by (cases "conns g ?c") (auto simp: conns_ok_def)
  have loc: "heartbeats (cn_local cn) = []" using e by (simp add: init_local_def)
  have fin: "finite (dom (conns g))" using inv(1) by (simp add: conns_ok_def)
  have above: "c < ?c + 1" if "c \<le> ?c" for c
    using that unat_u64_inc [OF assms(2)] by (simp add: word_less_nat_alt word_le_nat_alt)
  have "conns_ok (st_registry st) ((conns g)(?c \<mapsto> cn))"
    using inv(1) e loc above by (auto simp: conns_ok_def reg register_def allocate_id_def less_imp_le)
  moreover have "slots_ok limit (st_limiter st) ((conns g)(?c \<mapsto> cn))"
    using slots_accept [OF inv(2) fin new loc] e by simp
  moreover have "registry_ok (st_registry st) (st_next_chan st) ((conns g)(?c \<mapsto> cn))"
    using registry_ok_register [OF inv(3) new reg] e by simp
  moreover have "connections_active (st_metrics st) = int (card (dom ((conns g)(?c \<mapsto> cn))))"
    using e inv(4) new fin by (simp add: card_insert_if domIff)
  ultimately show ?thesis
    using assms(1) e conns_new(3) [of "conns g" ?c cn, OF new loc] by (simp add: gw_inv_def)
qed

lemma ran_map_of: "hm_ok m \<Longrightarrow> ran (map_of m) = snd ` set m"
  by (auto simp: hm_ok_def hm_keys_def ran_distinct)

lemma gw_inv_end:
  assumes "gw_inv limit g" and "conns g c = Some cn"
  shows "gw_inv limit (g\<lparr>app := handle_socket_end env cn (app g), conns := (conns g)(c := None)\<rparr>)"
proof -
  let ?r = "st_registry (app g)"
  have inv: "conns_ok ?r (conns g)" "slots_ok limit (st_limiter (app g)) (conns g)" "registry_ok ?r (st_next_chan (app g)) (conns g)"
    "connections_active (st_metrics (app g)) = int (card (dom (conns g)))"
    "hb_inv (hb_tasks (st_presence (app g))) (hb_next (st_presence (app g))) (owns_of (conns g))"
    using assms(1) by (simp_all add: gw_inv_def)
  have cn: "conn_id (cn_ctx cn) = c" "hm_ok (heartbeats (cn_local cn))" "finite (dom (conns g))"
    using inv(1) assms(2) by (auto simp: conns_ok_def)
  have "conns_ok (fst (deregister ?r c)) ((conns g)(c := None))"
    using inv(1) by (auto simp: conns_ok_def deregister_frame split: if_splits)
  moreover have "registry_ok (fst (deregister ?r c)) (st_next_chan (app g)) ((conns g)(c := None))"
    using inv(3) unfolding registry_ok_def senders_distinct_def
    by (auto simp: deregister_frame inv_intros split: if_splits)
  moreover have "int (card (dom (conns g))) - 1 = int (card (dom ((conns g)(c := None))))"
  proof -
    have "0 < card (dom (conns g))" using assms(2) cn(3) by (auto simp: card_gt_0_iff)
    moreover have "c \<in> dom (conns g)" using assms(2) by blast
    ultimately show ?thesis using cn(3) by (simp add: card_Diff_singleton)
  qed
  moreover have "hb_inv (\<lambda>h. if h \<in> snd ` set (heartbeats (cn_local cn)) then None else hb_tasks (st_presence (app g)) h)
      (hb_next (st_presence (app g))) ((owns_of (conns g))(c := Map.empty))"
    using hb_inv_exit [OF inv(5), of c] assms(2) ran_map_of [OF cn(2)] by (simp add: owns_of_def)
  ultimately show ?thesis
    using inv(4) slots_end [OF inv(2) cn(3) assms(2)] conns_gone(3) [of "conns g" c cn, OF assms(2)]
    by (simp add: gw_inv_def end_effect cn(1))
qed

lemma gw_inv_broadcast:
  assumes "gw_inv limit g"
  shows "gw_inv limit (from_fan g (process_nats_message vl sl now msg (to_fan g)))"
proof -
  have ok: "fan_ok (to_fan g)" using assms by (simp add: fan_ok_def to_fan_def gw_inv_def registry_ok_def)
  note e = process_effect [OF refl ok, of vl sl now msg]
  have t: "fs_registry (to_fan g) = st_registry (app g)" "fs_metrics (to_fan g) = st_metrics (app g)"
    by (simp_all add: to_fan_def)
  let ?fs = "process_nats_message vl sl now msg (to_fan g)"
  have old: "registry_ok (st_registry (app g)) (st_next_chan (app g)) (conns g)" using assms by (simp add: gw_inv_def)
  have "registry_ok (fs_registry ?fs) (st_next_chan (app g)) (conns g)"
    using e(1) registry_okD [OF old] e(2) unfolding registry_ok_def fan_ok_def t by blast
  then show ?thesis
    using assms e(3,4) by (simp add: gw_inv_def from_fan_def t conns_ok_def)
qed

lemma replay_task_active:
  "connections_active (snd (snd (replay_task renv permit calls lseq fetches m))) = connections_active m"
proof -
  have "connections_active (fst (replay_outcome renv res m')) = connections_active m'" for res m'
    by (cases res rule: outcome_of.cases)
       (simp_all add: replay_outcome_def observe_first_def observe_catch_up_def split: option.splits)
  then show ?thesis by (simp add: replay_task_def split_beta Let_def)
qed

lemma heartbeat_tick_tasks [simp]:
  "hb_tasks (heartbeat_tick pm h) = hb_tasks pm" "hb_next (heartbeat_tick pm h) = hb_next pm"
  by (simp_all add: heartbeat_tick_def split: option.splits)

lemma gw_inv_step: "gw_step env g g' \<Longrightarrow> gw_inv limit g \<Longrightarrow> gw_inv limit g'"
proof (induction rule: gw_step.induct)
  case (gw_reject protocol token ip g code reason st)
  then show ?case by (intro gw_inv_reject)
next
  case (gw_accept g protocol token ip cn st)
  then show ?case by (intro gw_inv_accept)
next
  case (gw_event g c cn ev)
  then show ?case by (intro gw_inv_local frame_effect_event)
next
  case (gw_send g c cn)
  then show ?case by (intro gw_inv_local frame_effect_send)
next
  case (gw_end g c cn)
  then show ?case by (intro gw_inv_end)
next
  case (gw_broadcast g now msg)
  then show ?case by (rule gw_inv_broadcast)
qed (simp_all add: gw_inv_def replay_task_active)

lemma gw_inv_reach: "gw_reach env limit rl g \<Longrightarrow> gw_inv limit g"
  by (induction rule: gw_reach.induct) (auto simp: gw_inv_init intro: gw_inv_step)

lemma idle_registry:
  assumes "gw_inv limit g" and "conns g = Map.empty"
  shows "connections (st_registry (app g)) = Map.empty" and "streams (st_registry (app g)) = Map.empty"
    and "connection_count (st_registry (app g)) = 0"
proof -
  let ?r = "st_registry (app g)"
  have ok: "registry_ok ?r (st_next_chan (app g)) (conns g)" using assms(1) by (simp add: gw_inv_def)
  have inv_r: "reg_inv ?r" using ok by (simp add: registry_ok_def)
  have none: "connections ?r c = None" for c
    using registry_okD [OF ok, of c] assms(2) by (cases "connections ?r c") auto
  have "subs_rel ?r = {}" using subs_rel_members [OF inv_r] none by (auto simp: members_def)
  then have "c \<notin> set (subs_of ?r s)" for c s by (auto simp: subs_rel_def)
  then have empty: "subs_of ?r s = []" for s by (metis list.set_intros(1) neq_Nil_conv)
  have "streams ?r s = None" for s
  proof (cases "streams ?r s")
    case (Some l)
    then have "streams ?r s = Some []" using empty [of s] by (simp add: subs_of_def)
    with inv_r show ?thesis by (simp add: reg_inv_def)
  qed
  then show "streams ?r = Map.empty" by (simp add: fun_eq_iff)
  show "connections ?r = Map.empty" using none by (simp add: fun_eq_iff)
  then show "connection_count ?r = 0" using inv_r by (simp add: connection_count_def reg_inv_def)
qed

section \<open>Properties\<close>

text \<open>
  C1. The books of the gateway balance in every reachable state, whatever the interleaving of admissions,
  client events, broadcasts with their evictions, heartbeats and ends of connections: each address
  holds exactly one slot per live connection and never more than the limit; the gauge of open connections is
  their number; the registry satisfies its invariant, holds live connections only, and gives each its own channel;
  and the running heartbeat tasks are exactly those some live connection owns.
\<close>

theorem gateway_books_balance:
  assumes "gw_reach env limit rl g"
  shows "(\<forall>ip. unat (count_for (st_limiter (app g)) ip) = card (conns_from (conns g) ip) \<and>
       card (conns_from (conns g) ip) \<le> unat limit) \<and>
    connections_active (st_metrics (app g)) = int (card (dom (conns g))) \<and>
    reg_inv (st_registry (app g)) \<and> senders_distinct (st_registry (app g)) \<and>
    members (st_registry (app g)) \<subseteq> dom (conns g) \<and>
    dom (hb_tasks (st_presence (app g))) = {h. \<exists>c i. owns_of (conns g) c i = Some h}"
proof -
  have inv: "gw_inv limit g" using assms by (rule gw_inv_reach)
  then have ok: "registry_ok (st_registry (app g)) (st_next_chan (app g)) (conns g)"
    and hb: "hb_inv (hb_tasks (st_presence (app g))) (hb_next (st_presence (app g))) (owns_of (conns g))"
    by (simp_all add: gw_inv_def)
  have "members (st_registry (app g)) \<subseteq> dom (conns g)"
    using registry_okD [OF ok] by (force simp: members_def)
  moreover have "dom (hb_tasks (st_presence (app g))) = {h. \<exists>c i. owns_of (conns g) c i = Some h}"
    using hb_invD(1,5) [OF hb] by blast
  ultimately show ?thesis using inv by (simp add: gw_inv_def slots_ok_def registry_ok_def)
qed

text \<open>A run in which one client connects, the server shuts the connection down, and it ends.\<close>

lemma demo_accept:
  "\<exists>cn st. handle_socket_start demo_env SUB_PROTOCOL_JSON None (V4 1) (app (gateway_init 2 None)) = Some (Accepted cn, st)"
proof -
  let ?st = "app (gateway_init 2 None)"
  let ?st1 = "?st\<lparr>st_limiter := snd (try_acquire (st_limiter ?st) (V4 1))\<rparr>"
  have ok: "fst (try_acquire (st_limiter ?st) (V4 1))"
    by (simp add: lim.acquire_iff gateway_init_def limiter_new_def count_for_def)
  have auth: "authenticate demo_env None ?st1 = (Inr ([''*''], None), ?st1)"
    by (simp add: authenticate_def demo_env_def)
  have "accept demo_env (V4 1) SUB_PROTOCOL_JSON ([''*''], None) ?st1 \<noteq> None"
    by (rule accept_not_None) (simp_all add: codec_for_protocol_def demo_env_def MAX_PERMITS_ge)
  with ok auth show ?thesis by (auto simp: handle_socket_start_def split_beta Let_def split: option.splits)
qed

lemma demo_reach_open:
  "\<exists>g cn. gw_reach demo_env 2 None g \<and> conns g = [1 \<mapsto> cn] \<and> cn_ip cn = V4 1 \<and> cn_local cn = init_local"
proof -
  obtain cn st where a: "handle_socket_start demo_env SUB_PROTOCOL_JSON None (V4 1) (app (gateway_init 2 None)) = Some (Accepted cn, st)"
    using demo_accept by blast
  have c: "cn_ip cn = V4 1" "cn_local cn = init_local" "conn_id (cn_ctx cn) = 1"
    using admission_effect [OF a] admission_ip [OF a] by (simp_all add: gateway_init_def registry_new_def)
  have "unat (next_id (st_registry (app (gateway_init 2 None)))) + 1 < 2 ^ 64"
    by (simp add: gateway_init_def registry_new_def)
  from gw_accept [OF this a]
  have "gw_reach demo_env 2 None ((gateway_init 2 None)\<lparr>app := st, conns := (conns (gateway_init 2 None))(1 \<mapsto> cn)\<rparr>)"
    using gw_next [OF gw_start] by (simp add: c(3))
  moreover have "conns ((gateway_init 2 None)\<lparr>app := st, conns := (conns (gateway_init 2 None))(1 \<mapsto> cn)\<rparr>) = [1 \<mapsto> cn]"
    by (simp add: gateway_init_def)
  ultimately show ?thesis using c by blast
qed

lemma demo_reach_closed: "\<exists>g. gw_reach demo_env 2 None g \<and> conns g = Map.empty \<and> next_id (st_registry (app g)) \<noteq> 0"
proof -
  obtain g cn where g: "gw_reach demo_env 2 None g" "conns g = [1 \<mapsto> cn]" "cn_local cn = init_local" using demo_reach_open by blast
  have inv: "gw_inv 2 g" using g(1) by (rule gw_inv_reach)
  then have lt: "1 < next_id (st_registry (app g))" using g(2) by (simp add: gw_inv_def conns_ok_def)
  define g1 where "g1 = set_local g 1 cn (inbound_event demo_env (cn_ctx cn) In_shutdown (app g) (cn_local cn))"
  have s1: "gw_step demo_env g g1" unfolding g1_def using g(2,3) by (intro gw_event) (simp_all add: init_local_def)
  define cn1 where "cn1 = cn\<lparr>cn_local := (cn_local cn)\<lparr>in_pc := In_stopped\<rparr>\<rparr>"
  have c1: "conns g1 1 = Some cn1" "app g1 = app g" "conns g1 = [1 \<mapsto> cn1]" by (simp_all add: g1_def set_local_def cn1_def g(2))
  define g2 where "g2 = g1\<lparr>app := handle_socket_end demo_env cn1 (app g1), conns := (conns g1)(1 := None)\<rparr>"
  have s2: "gw_step demo_env g1 g2" unfolding g2_def using c1(1) by (rule gw_end) (simp add: cn1_def)
  have "gw_reach demo_env 2 None g2" using g(1) s1 s2 by (blast intro: gw_next)
  moreover have "conns g2 = Map.empty" by (simp add: g2_def c1(3))
  moreover have "next_id (st_registry (app g2)) \<noteq> 0" using lt by (auto simp: g2_def end_effect deregister_frame c1(2))
  ultimately show ?thesis by blast
qed

theorem gateway_books_balance_witness:
  "\<exists>g. gw_reach demo_env 2 None g \<and> dom (conns g) = {1} \<and> unat (count_for (st_limiter (app g)) (V4 1)) = 1 \<and>
     connections_active (st_metrics (app g)) = 1"
proof -
  obtain g cn where g: "gw_reach demo_env 2 None g" "conns g = [1 \<mapsto> cn]" "cn_ip cn = V4 1" using demo_reach_open by blast
  have "conns_from (conns g) (V4 1) = {1}" using g(2,3) by (auto simp: conns_from_def split: if_splits)
  with gateway_books_balance [OF g(1)] g show ?thesis by (intro exI [of _ g]) simp
qed

text \<open>
  An idle gateway is clean. In every reachable state without live connections no address holds a slot, the gauge
  of open connections is zero, no connection is registered, no stream has a subscriber or even an entry, and no
  heartbeat task is running.
\<close>

theorem idle_gateway_clean:
  assumes "gw_reach env limit rl g" and "conns g = Map.empty"
  shows "(\<forall>ip. count_for (st_limiter (app g)) ip = 0) \<and> connections_active (st_metrics (app g)) = 0 \<and>
    connections (st_registry (app g)) = Map.empty \<and> streams (st_registry (app g)) = Map.empty \<and>
    connection_count (st_registry (app g)) = 0 \<and> hb_tasks (st_presence (app g)) = Map.empty"
proof -
  have inv: "gw_inv limit g" using assms(1) by (rule gw_inv_reach)
  then have hb: "hb_inv (hb_tasks (st_presence (app g))) (hb_next (st_presence (app g))) (owns_of (conns g))"
    by (simp add: gw_inv_def)
  have "hb_tasks (st_presence (app g)) h = None" for h
    using hb_invD(5) [OF hb, of h] assms(2) by (cases "hb_tasks (st_presence (app g)) h") (auto simp: owns_of_def)
  moreover have "count_for (st_limiter (app g)) ip = 0" for ip
    using inv assms(2) by (auto simp: gw_inv_def slots_ok_def conns_from_def word_unat_eq_iff)
  ultimately show ?thesis
    using inv assms(2) idle_registry [OF inv assms(2)] by (simp add: gw_inv_def fun_eq_iff)
qed

theorem idle_gateway_clean_witness:
  "\<exists>g. gw_reach demo_env 2 None g \<and> (\<forall>ip. count_for (st_limiter (app g)) ip = 0) \<and> streams (st_registry (app g)) = Map.empty"
proof -
  obtain g where g: "gw_reach demo_env 2 None g" "conns g = Map.empty" using demo_reach_closed by blast
  from idle_gateway_clean [OF g] g show ?thesis by (intro exI [of _ g]) simp
qed

end
