(* ===== verification/Server.thy ===== *)
theory Server
  imports Gateway
begin

text \<open>
  Start-up, HTTP handlers and shutdown of the server (\<open>src/src/server.rs\<close>), the descriptor limit
  (\<open>src/src/main.rs\<close>) and the load-test publisher (\<open>src/src/bin/publish.rs\<close>). The results of the
  calls that leave the process (reading the key file, NATS, binding the listener) are arguments. The clock and the
  connection counts that the drain loop reads are functions of the number of the poll.
\<close>

section \<open>Start-up\<close>

datatype 'a startup = Exit_process nat | Panicked | Started 'a

definition build_rate_limiter :: "config \<Rightarrow> stream_rate_limiter option" where
  "build_rate_limiter cfg =
     (let ovr = parse_stream_rate_overrides cfg;
          rl = rate_limiter_new (stream_rate_limit_rps cfg) (stream_rate_limit_burst cfg) ovr
      in if is_disabled rl then None else Some rl)"

record server_calls =
  sv_read_file :: "str \<Rightarrow> str + bytes"
  sv_key_kv :: kv_outcomes
  sv_nats_connect :: "str + unit"
  sv_nats_stream :: "stream_config \<Rightarrow> str + unit"
  sv_presence_connect :: "str + unit"
  sv_presence_get :: "str + unit"
  sv_presence_create :: "str + unit"
  sv_listener :: "16 word \<Rightarrow> str + unit"
  sv_local_addr :: "str + unit"

text \<open>Whether pub/sub is available; the fan-out loop is started when it is.\<close>

definition init_nats_consumer :: "server_calls \<Rightarrow> config \<Rightarrow> bool" where
  "init_nats_consumer calls cfg =
     (case nats_connect (sv_nats_connect calls) (sv_nats_stream calls) (nats_stream_replicas cfg) of
        Inr _ \<Rightarrow> True | Inl _ \<Rightarrow> False)"

text \<open>The loop it starts runs under the node's name; one element of \<open>rounds\<close> per life of the consumer.\<close>

definition start_fanout_loop ::
  "value_libs \<Rightarrow> serde_libs \<Rightarrow> config \<Rightarrow> (consumer_setup \<times> consumer_event list) list \<Rightarrow> fan_state \<Rightarrow> nats_message list \<times> fan_state" where
  "start_fanout_loop vl sl cfg rounds fs =
     nats_fanout_loop vl sl (node_id cfg) (config.max_ack_pending cfg) rounds [] fs"

definition init_presence :: "server_calls \<Rightarrow> bool" where
  "init_presence calls =
     (case presence_connect (sv_presence_connect calls) (sv_presence_get calls) (sv_presence_create calls) of
        Inr _ \<Rightarrow> True | Inl _ \<Rightarrow> False)"

text \<open>The verifier, and the items of the key watcher when one was started.\<close>

definition init_jwt_verifier ::
  "'key jwt_libs \<Rightarrow> server_calls \<Rightarrow> config \<Rightarrow> ('key jwt_verifier \<times> (str + bytes) list) option startup" where
  "init_jwt_verifier libs calls cfg =
     (case jwt_public_key_path cfg of
        Some path \<Rightarrow>
          (case sv_read_file calls path of
             Inl _ \<Rightarrow> Exit_process 1
           | Inr pem \<Rightarrow> (case from_rsa_pem libs pem of
               Inl _ \<Rightarrow> Exit_process 1
             | Inr verifier \<Rightarrow>
                 (case start_nats_key_watcher (sv_key_kv calls) of
                    Inl _ \<Rightarrow> Started (Some (verifier, []))
                  | Inr watcher \<Rightarrow> Started (Some (verifier, watcher)))))
      | None \<Rightarrow>
          (case load_and_watch_from_nats libs (sv_key_kv calls) of
             Inr v \<Rightarrow> Started (Some v)
           | Inl _ \<Rightarrow> Started None))"

definition make_env :: "'key jwt_libs \<Rightarrow> serde_libs \<Rightarrow> value_libs \<Rightarrow> config \<Rightarrow> 'key jwt_verifier option \<Rightarrow> bool \<Rightarrow> bool \<Rightarrow> 'key app_env" where
  "make_env libs sl vl cfg verifier nats pres =
     \<lparr>ae_jwt_libs = libs, ae_jwt_verifier = verifier, ae_serde = sl, ae_values = vl, ae_nats = nats, ae_presence = pres,
      ae_ping_interval_secs = ping_interval_secs cfg, ae_ws_channel_capacity = ws_channel_capacity cfg,
      ae_ws_replay_channel_capacity = ws_replay_channel_capacity cfg, ae_replay_enforcement = replay_enforcement cfg\<rparr>"

text \<open>
  What \<open>run\<close> and \<open>start\<close> share after the verifier: the limiters, pub/sub, presence, the semaphore of the replays
  (which panics above its largest size), and the listener, whose failure is \<open>no_listener\<close>.
\<close>

definition build_state ::
  "'key jwt_libs \<Rightarrow> serde_libs \<Rightarrow> value_libs \<Rightarrow> server_calls \<Rightarrow> config \<Rightarrow> 'key jwt_verifier option \<Rightarrow>
     ('key app_env \<times> gateway) startup \<Rightarrow> ('key app_env \<times> gateway) startup" where
  "build_state libs sl vl calls cfg verifier no_listener =
     (let rl = build_rate_limiter cfg;
          nats = init_nats_consumer calls cfg;
          pres = init_presence calls;
          env = make_env libs sl vl cfg verifier nats pres;
          g = gateway_init (max_connections_per_ip cfg) (if nats then rl else None)
      in if max_replay_concurrency cfg > MAX_PERMITS then Panicked
         else (case sv_listener calls (port cfg) of
                 Inl _ \<Rightarrow> no_listener
               | Inr _ \<Rightarrow> (case sv_local_addr calls of Inl _ \<Rightarrow> Panicked | Inr _ \<Rightarrow> Started (env, g))))"

text \<open>\<open>run\<close> up to the point where it serves.\<close>

definition run_startup :: "'key jwt_libs \<Rightarrow> serde_libs \<Rightarrow> value_libs \<Rightarrow> server_calls \<Rightarrow> config \<Rightarrow> ('key app_env \<times> gateway) startup" where
  "run_startup libs sl vl calls cfg =
     (case init_jwt_verifier libs calls cfg of
        Exit_process n \<Rightarrow> Exit_process n
      | Panicked \<Rightarrow> Panicked
      | Started jwt \<Rightarrow> build_state libs sl vl calls cfg (map_option fst jwt) (Exit_process 1))"

text \<open>\<open>start\<close>: a key file only, and panics instead of exits.\<close>

definition start_startup :: "'key jwt_libs \<Rightarrow> serde_libs \<Rightarrow> value_libs \<Rightarrow> server_calls \<Rightarrow> config \<Rightarrow> ('key app_env \<times> gateway) startup" where
  "start_startup libs sl vl calls cfg =
     (case jwt_public_key_path cfg of
        None \<Rightarrow> build_state libs sl vl calls cfg None Panicked
      | Some path \<Rightarrow>
          (case sv_read_file calls path of
             Inl _ \<Rightarrow> Panicked
           | Inr pem \<Rightarrow>
               (case from_rsa_pem libs pem of
                  Inl _ \<Rightarrow> Panicked
                | Inr v \<Rightarrow> build_state libs sl vl calls cfg (Some v) Panicked)))"

section \<open>HTTP handlers\<close>

record http_response =
  resp_status :: nat
  resp_content_type :: "str option"
  resp_body :: str

text \<open>The fields in the order of their names, which is that of the library's map.\<close>

definition health :: "str \<Rightarrow> registry \<Rightarrow> bool option \<Rightarrow> json_value" where
  "health version r nats_consumer =
     JObject [(''connections'', u64_value (connection_count r)),
              (''nats_connected'', JBool (case nats_consumer of None \<Rightarrow> False | Some is_connected \<Rightarrow> is_connected)),
              (''status'', JString ''ok''), (''version'', JString version)]"

text \<open>\<open>Metrics::render\<close>, given the text of the encoder, if it succeeds.\<close>

definition metrics_render :: "str option \<Rightarrow> str" where
  "metrics_render encoded = (case encoded of None \<Rightarrow> [] | Some text \<Rightarrow> text)"

definition metrics_handler :: "str option \<Rightarrow> http_response" where
  "metrics_handler encoded =
     \<lparr>resp_status = 200, resp_content_type = Some ''text/plain; version=0.0.4; charset=utf-8'',
      resp_body = metrics_render encoded\<rparr>"

definition pubkey_handler :: "'key app_env \<Rightarrow> http_response" where
  "pubkey_handler env =
     (case ae_jwt_verifier env of
        Some verifier \<Rightarrow>
          (let pem = current_pem verifier
           in if utf8_valid pem then \<lparr>resp_status = 200, resp_content_type = Some ''application/x-pem-file'', resp_body = pem\<rparr>
              else \<lparr>resp_status = 500, resp_content_type = None, resp_body = []\<rparr>)
      | None \<Rightarrow> \<lparr>resp_status = 404, resp_content_type = None, resp_body = []\<rparr>)"

section \<open>Drain\<close>

definition DRAIN_TIMEOUT_SECS :: nat where
  "DRAIN_TIMEOUT_SECS = 30"

text \<open>In milliseconds, like the clock.\<close>

definition DRAIN_POLL_INTERVAL :: nat where
  "DRAIN_POLL_INTERVAL = 100"

datatype drain_result = Drained nat | Drain_timeout nat u64

partial_function (option) drain_loop :: "(nat \<Rightarrow> u64) \<Rightarrow> (nat \<Rightarrow> nat) \<Rightarrow> nat \<Rightarrow> nat \<Rightarrow> drain_result option" where
  "drain_loop remaining_at clock deadline i =
     (let remaining = remaining_at i
      in if remaining = 0 then Some (Drained i)
         else if clock i \<ge> deadline then Some (Drain_timeout i remaining)
         else drain_loop remaining_at clock deadline (Suc i))"

definition drain :: "(nat \<Rightarrow> u64) \<Rightarrow> (nat \<Rightarrow> nat) \<Rightarrow> nat \<Rightarrow> drain_result option" where
  "drain remaining_at clock start = drain_loop remaining_at clock (start + DRAIN_TIMEOUT_SECS * 1000) 0"

text \<open>The rest of \<open>run\<close>: the end of serving, the drain, and the flush when there is a consumer.\<close>

datatype run_end = Serve_failed nat | Shutdown_complete drain_result "(gateway_error + unit) option"

definition run_finish ::
  "str + unit \<Rightarrow> (nat \<Rightarrow> u64) \<Rightarrow> (nat \<Rightarrow> nat) \<Rightarrow> nat \<Rightarrow> bool \<Rightarrow> str + unit \<Rightarrow> run_end option" where
  "run_finish serve_result remaining_at clock start nats flushed =
     (case serve_result of
        Inl _ \<Rightarrow> Some (Serve_failed 1)
      | Inr _ \<Rightarrow> map_option (\<lambda>d. Shutdown_complete d (if nats then Some (nats_flush flushed) else None)) (drain remaining_at clock start))"

section \<open>Descriptor limit and publisher\<close>

text \<open>The pair that is set, if any, given the soft and the hard limit.\<close>

definition raise_fd_limit :: "u64 \<Rightarrow> (u64 \<times> u64) option \<Rightarrow> (u64 \<times> u64) option" where
  "raise_fd_limit target limits =
     (case limits of
        None \<Rightarrow> None
      | Some (soft, hard) \<Rightarrow> if soft < target then Some (min target hard, hard) else None)"

definition publish_interval :: "u64 \<Rightarrow> nat" where
  "publish_interval rt = 1000000000 div unat (max rt 1)"

definition publish_payload :: "u64 \<Rightarrow> u64 \<Rightarrow> str \<Rightarrow> str" where
  "publish_payload seq sent_at stream =
     ''{\"seq\":'' @ show_nat (unat seq) @ '',\"sent_at\":'' @ show_nat (unat sent_at) @ '',\"stream\":\"'' @ stream @ ''\"}''"

text \<open>
  One element per tick of the ticker: the clock after it, the time stamp, and the result of the publish, an error
  of which ends the run. The result is the number of messages or the error, and every payload handed to the client;
  the first is \<open>None\<close> when the ticks given do not reach the end of the run.
\<close>

fun publish_loop :: "str \<Rightarrow> nat \<Rightarrow> (nat \<times> u64 \<times> (str + unit)) list \<Rightarrow> u64 \<Rightarrow> (str + u64) option \<times> str list" where
  "publish_loop stream end_time [] seq = (None, [])"
| "publish_loop stream end_time ((now, sent_at, res) # ticks) seq =
     (if now \<ge> end_time then (Some (Inr seq), [])
      else let payload = publish_payload seq sent_at stream
           in (case res of
                 Inl e \<Rightarrow> (Some (Inl (''publish error at seq='' @ show_nat (unat seq) @ '': '' @ e)), [payload])
               | Inr _ \<Rightarrow> (let (r, out) = publish_loop stream end_time ticks (seq + 1) in (r, payload # out))))"

datatype publish_result = Publish_panicked | Publish_connect_error str | Publish_ran "(str + u64) option" "str list"

text \<open>The ticker panics on a zero interval; an error of the final flush is the result of a complete run.\<close>

definition publish_main ::
  "str + unit \<Rightarrow> u64 \<Rightarrow> str \<Rightarrow> nat \<Rightarrow> (nat \<times> u64 \<times> (str + unit)) list \<Rightarrow> str + unit \<Rightarrow> publish_result" where
  "publish_main connect_result rt stream end_time ticks flush_result =
     (case connect_result of
        Inl e \<Rightarrow> Publish_connect_error e
      | Inr _ \<Rightarrow>
          if publish_interval rt = 0 then Publish_panicked
          else (case publish_loop stream end_time ticks 0 of
                  (Some (Inr n), out) \<Rightarrow>
                    Publish_ran (Some (case flush_result of Inl e \<Rightarrow> Inl e | Inr _ \<Rightarrow> Inr n)) out
                | (r, out) \<Rightarrow> Publish_ran r out))"

section \<open>Shutting down the connections\<close>

text \<open>The inbound task of one connection sees the shutdown signal and the connection ends.\<close>

definition shutdown_conn :: "'key app_env \<Rightarrow> u64 \<Rightarrow> gateway \<Rightarrow> gateway" where
  "shutdown_conn env c g =
     (case conns g c of
        None \<Rightarrow> g
      | Some cn \<Rightarrow>
          let res = inbound_event env (cn_ctx cn) In_shutdown (app g) (cn_local cn);
              g1 = set_local g c cn res
          in g1\<lparr>app := handle_socket_end env (cn\<lparr>cn_local := snd res\<rparr>) (app g1), conns := (conns g1)(c := None)\<rparr>)"

definition shutdown_all :: "'key app_env \<Rightarrow> u64 list \<Rightarrow> gateway \<Rightarrow> gateway" where
  "shutdown_all env ids g = fold (shutdown_conn env) ids g"

section \<open>The drain loop\<close>

lemma drain_loop_unfold:
  "drain_loop remaining_at clock deadline i =
     (if remaining_at i = 0 then Some (Drained i)
      else if clock i \<ge> deadline then Some (Drain_timeout i (remaining_at i))
      else drain_loop remaining_at clock deadline (Suc i))"
  by (subst drain_loop.simps) (simp add: Let_def)

lemma drain_loop_first:
  assumes "remaining_at (i + k) = 0 \<or> clock (i + k) \<ge> deadline"
    and "\<forall>j<k. remaining_at (i + j) \<noteq> 0 \<and> clock (i + j) < deadline"
  shows "drain_loop remaining_at clock deadline i =
    Some (if remaining_at (i + k) = 0 then Drained (i + k) else Drain_timeout (i + k) (remaining_at (i + k)))"
  using assms
proof (induction k arbitrary: i)
  case 0
  then show ?case by (subst drain_loop_unfold) auto
next
  case (Suc k)
  have now: "remaining_at i \<noteq> 0" "\<not> deadline \<le> clock i" using Suc.prems(2) by (force dest: spec [of _ 0])+
  have "\<forall>j<k. remaining_at (Suc i + j) \<noteq> 0 \<and> clock (Suc i + j) < deadline"
    using Suc.prems(2) by (metis Suc_less_eq add_Suc_right add_Suc_shift)
  with Suc.IH [of "Suc i"] Suc.prems(1) now show ?case by (subst drain_loop_unfold) simp
qed

lemma clock_advances:
  assumes "\<forall>i. clock i + DRAIN_POLL_INTERVAL \<le> clock (Suc i)"
  shows "clock 0 + i * DRAIN_POLL_INTERVAL \<le> clock i"
proof (induction i)
  case (Suc i)
  with assms [rule_format, of i] show ?case by simp
qed simp

lemma drain_first_stop:
  assumes "\<forall>i. clock i + DRAIN_POLL_INTERVAL \<le> clock (Suc i)" and "start \<le> clock 0"
  shows "\<exists>i\<le>300. (\<forall>j<i. remaining_at j \<noteq> 0 \<and> clock j < start + 30000) \<and> (remaining_at i = 0 \<or> clock i \<ge> start + 30000) \<and>
    drain remaining_at clock start = Some (if remaining_at i = 0 then Drained i else Drain_timeout i (remaining_at i))"
proof -
  define stop where "stop i \<longleftrightarrow> remaining_at i = 0 \<or> clock i \<ge> start + 30000" for i
  have "clock 0 + 300 * 100 \<le> clock 300" using clock_advances [OF assms(1), of 300] by (simp add: DRAIN_POLL_INTERVAL_def)
  then have "stop 300" using assms(2) by (simp add: stop_def)
  define i where "i = (LEAST i. stop i)"
  have "stop i" "i \<le> 300" "\<forall>j<i. \<not> stop j"
    unfolding i_def using \<open>stop 300\<close> by (auto intro: LeastI Least_le dest: not_less_Least)
  with drain_loop_first [where i = 0 and k = i and deadline = "start + 30000"] show ?thesis
    by (intro exI [of _ i]) (auto simp: stop_def drain_def DRAIN_TIMEOUT_SECS_def not_le)
qed

section \<open>Shutting down\<close>

lemma shutdown_conn_step:
  assumes "gw_reach env limit rl g" and "\<forall>cn. conns g c = Some cn \<longrightarrow> in_pc (cn_local cn) = In_select"
  shows "gw_reach env limit rl (shutdown_conn env c g)"
proof (cases "conns g c")
  case (Some cn)
  let ?res = "inbound_event env (cn_ctx cn) In_shutdown (app g) (cn_local cn)"
  let ?g1 = "set_local g c cn ?res"
  have "gw_step env g ?g1" using Some assms(2) by (intro gw_event) auto
  moreover have "conns ?g1 c = Some (cn\<lparr>cn_local := snd ?res\<rparr>)" by (simp add: set_local_def)
  from gw_end [OF this] have "gw_step env ?g1 (shutdown_conn env c g)"
    by (simp add: shutdown_conn_def Some Let_def)
  ultimately show ?thesis using assms(1) by (blast intro: gw_next)
qed (simp add: shutdown_conn_def assms)

lemma drop_queue [simp]:
  "queue (byte_chans (drop_sender h cs) k) = queue (byte_chans cs k)"
  "queue (byte_chans (drop_entry e cs) k) = queue (byte_chans cs k)"
  by (simp_all add: drop_sender_def drop_entry_def chan_drop_sender_def)

lemma shutdown_conn_effect:
  "conns (shutdown_conn env c g) = (conns g)(c := None)"
  "queue (byte_chans (st_chans (app (shutdown_conn env c g))) h) = queue (byte_chans (st_chans (app g)) h)"
  by (auto simp: shutdown_conn_def set_local_def handle_socket_end_def inbound_exit_def Let_def split_beta
      split: option.splits)

lemma shutdown_all_effect:
  "conns (shutdown_all env ids g) = (\<lambda>c. if c \<in> set ids then None else conns g c)"
  "queue (byte_chans (st_chans (app (shutdown_all env ids g))) h) = queue (byte_chans (st_chans (app g)) h)"
  unfolding shutdown_all_def by (induction ids arbitrary: g) (auto simp: shutdown_conn_effect fun_eq_iff)

lemma shutdown_all_reach:
  assumes "gw_reach env limit rl g" and "\<forall>c cn. conns g c = Some cn \<longrightarrow> in_pc (cn_local cn) = In_select"
  shows "gw_reach env limit rl (shutdown_all env ids g)"
  using assms unfolding shutdown_all_def
proof (induction ids arbitrary: g)
  case (Cons c ids)
  have "gw_reach env limit rl (shutdown_conn env c g)" using Cons.prems by (intro shutdown_conn_step) auto
  moreover have "\<forall>d cn. conns (shutdown_conn env c g) d = Some cn \<longrightarrow> in_pc (cn_local cn) = In_select"
    using Cons.prems(2) by (auto simp: shutdown_conn_effect)
  ultimately show ?case using Cons.IH by simp
qed simp

section \<open>Start-up\<close>

lemma build_state_env:
  assumes "build_state libs sl vl calls cfg verifier no_listener = Started (env, g)" and "no_listener = Exit_process n \<or> no_listener = Panicked"
  shows "env = make_env libs sl vl cfg verifier (init_nats_consumer calls cfg) (init_presence calls)"
    and "g = gateway_init (max_connections_per_ip cfg) (if init_nats_consumer calls cfg then build_rate_limiter cfg else None)"
  using assms by (auto simp: build_state_def Let_def split: if_splits sum.splits)

lemma run_startup_env:
  assumes "run_startup libs sl vl calls cfg = Started (env, g)"
  obtains jwt where "init_jwt_verifier libs calls cfg = Started jwt"
    and "env = make_env libs sl vl cfg (map_option fst jwt) (init_nats_consumer calls cfg) (init_presence calls)"
    and "g = gateway_init (max_connections_per_ip cfg) (if init_nats_consumer calls cfg then build_rate_limiter cfg else None)"
  using assms by (auto simp: run_startup_def split: startup.splits dest: build_state_env)

lemma from_rsa_pem_pem: "from_rsa_pem libs pem = Inr v \<Longrightarrow> current_pem v = pem"
  by (auto simp: from_rsa_pem_def current_pem_def rw_lock_new_def split: sum.splits)

lemma init_jwt_from_file:
  assumes "init_jwt_verifier libs calls cfg = Started jwt" and "jwt_public_key_path cfg = Some path"
  shows "\<exists>pem v watcher. sv_read_file calls path = Inr pem \<and> from_rsa_pem libs pem = Inr v \<and> jwt = Some (v, watcher)"
  using assms by (auto simp: init_jwt_verifier_def split: sum.splits)

lemma no_token_rejected:
  assumes "ae_jwt_verifier env = Some v" and "token = None \<or> token = Some []"
  shows "handle_socket_start env protocol token ip st \<noteq> Some (Accepted cn, st')"
  using assms by (auto simp: handle_socket_start_def authenticate_def split_beta Let_def split: if_splits option.splits)

lemma accepted_verified:
  assumes "handle_socket_start env protocol token ip st = Some (Accepted cn, st')" and "ae_jwt_verifier env = Some v"
  shows "\<exists>t c. token = Some t \<and> t \<noteq> [] \<and> verify (ae_jwt_libs env) v t = Inr c \<and>
    ctx_allowed_streams (cn_ctx cn) = allowed_streams c \<and> user_id (cn_ctx cn) = Some (sub_claim c)"
proof -
  obtain who st2 where auth: "authenticate env token (st\<lparr>st_limiter := snd (try_acquire (st_limiter st) ip)\<rparr>) = (Inr who, st2)"
    and acc: "accept env ip protocol who st2 = Some (cn, st')"
    using assms(1) by (cases "authenticate env token (st\<lparr>st_limiter := snd (try_acquire (st_limiter st) ip)\<rparr>)")
      (auto simp: handle_socket_start_def split_beta Let_def split: if_splits sum.splits option.splits)
  have "ctx_allowed_streams (cn_ctx cn) = fst who" "user_id (cn_ctx cn) = snd who"
    using acc by (auto simp: accept_def split_beta Let_def split: if_splits option.splits)
  moreover have "\<exists>t c. token = Some t \<and> t \<noteq> [] \<and> verify (ae_jwt_libs env) v t = Inr c \<and> who = (allowed_streams c, Some (sub_claim c))"
    using auth assms(2) by (auto simp: authenticate_def Let_def split: if_splits sum.splits option.splits)
  ultimately show ?thesis by auto
qed

lemma ws_upgrade_codec: "\<exists>c. codec_for_protocol sl (fst (ws_upgrade requested)) = Some c"
proof -
  have "negotiate_protos ps \<in> {SUB_PROTOCOL_JSON, SUB_PROTOCOL_MSGPACK}" for ps
    by (induction ps) auto
  then show ?thesis
    by (auto simp: ws_upgrade_def negotiate_protocol_def codec_for_protocol_def Let_def split: option.splits)
qed

text \<open>The settings under which admitting a connection does not panic.\<close>

definition admission_config_ok :: "config \<Rightarrow> bool" where
  "admission_config_ok cfg \<longleftrightarrow>
     ws_channel_capacity cfg \<in> {1..MAX_PERMITS} \<and> ws_replay_channel_capacity cfg \<in> {1..MAX_PERMITS} \<and> ping_interval_secs cfg \<noteq> 0"

section \<open>The publisher\<close>

lemma publish_loop_out:
  "publish_loop stream end_time ticks seq = (r, out) \<Longrightarrow>
     length out \<le> length ticks \<and>
     (\<forall>k<length out. out ! k = publish_payload (seq + of_nat k) (fst (snd (ticks ! k))) stream \<and> fst (ticks ! k) < end_time) \<and>
     (\<forall>n. r = Some (Inr n) \<longrightarrow> n = seq + of_nat (length out))"
proof (induction ticks arbitrary: seq out)
  case (Cons t ticks)
  obtain now sent_at res where t: "t = (now, sent_at, res)" by (cases t)
  show ?case
  proof (cases "end_time \<le> now")
    case False
    show ?thesis
    proof (cases res)
      case (Inr u)
      obtain out' where o: "publish_loop stream end_time ticks (seq + 1) = (r, out')" "out = publish_payload seq sent_at stream # out'"
        using Cons.prems False by (auto simp: t Inr Let_def split: prod.splits)
      from Cons.IH [OF o(1)] o(2) False show ?thesis
        by (auto simp: t less_Suc_eq_0_disj algebra_simps nth_Cons split: nat.splits)
    qed (use Cons.prems False in \<open>auto simp: t Let_def\<close>)
  qed (use Cons.prems in \<open>auto simp: t\<close>)
qed simp

lemma publish_interval_zero: "publish_interval rt = 0 \<longleftrightarrow> unat rt > 1000000000"
proof -
  have "unat (max rt 1) = max (unat rt) 1" by (simp add: max_def word_le_nat_alt)
  then show ?thesis by (auto simp: publish_interval_def div_eq_0_iff)
qed

lemma publish_panics_iff:
  "publish_main (Inr ()) rt stream end_time ticks flush_result = Publish_panicked \<longleftrightarrow> unat rt > 1000000000"
  using publish_interval_zero [of rt] by (auto simp: publish_main_def split: option.splits sum.splits prod.splits)

section \<open>The descriptor limit\<close>

lemma raise_fd_limit_bounds:
  "raise_fd_limit target (Some (soft, hard)) = Some (new, hard') \<Longrightarrow>
     hard' = hard \<and> new \<le> hard \<and> new \<le> target \<and> (soft \<le> hard \<longrightarrow> soft \<le> new)"
  by (auto simp: raise_fd_limit_def min_def split: if_splits)

section \<open>Properties\<close>

text \<open>
  C28. Draining ends, and ends for the right reason: with a clock that advances by at least the poll interval between two polls, the loop returns
  after at most 301 polls, at the first poll that sees no connection or is past the deadline; it reports a timeout only
  when connections remain at a poll past the deadline.
\<close>

theorem drain_returns:
  assumes "\<forall>i. clock i + DRAIN_POLL_INTERVAL \<le> clock (Suc i)" and "start \<le> clock 0"
  shows "\<exists>i\<le>300. (\<forall>j<i. remaining_at j \<noteq> 0 \<and> clock j < start + 30000) \<and>
    (remaining_at i = 0 \<and> drain remaining_at clock start = Some (Drained i) \<or>
     remaining_at i \<noteq> 0 \<and> clock i \<ge> start + 30000 \<and> drain remaining_at clock start = Some (Drain_timeout i (remaining_at i)))"
proof -
  obtain i where "i \<le> 300" "\<forall>j<i. remaining_at j \<noteq> 0 \<and> clock j < start + 30000" "remaining_at i = 0 \<or> clock i \<ge> start + 30000"
    "drain remaining_at clock start = Some (if remaining_at i = 0 then Drained i else Drain_timeout i (remaining_at i))"
    using drain_first_stop [OF assms, of remaining_at] by blast
  then show ?thesis by (intro exI [of _ i]) auto
qed

theorem drain_returns_witness:
  "drain (\<lambda>i. if i < 2 then 5 else 0) (\<lambda>i. 7 + 100 * i) 7 = Some (Drained 2)"
proof -
  have "\<forall>i. (7 + 100 * i) + DRAIN_POLL_INTERVAL \<le> 7 + 100 * Suc i" "7 \<le> 7 + 100 * (0 :: nat)"
    by (simp_all add: DRAIN_POLL_INTERVAL_def)
  from drain_returns [OF this, of "\<lambda>i. if i < 2 then 5 else 0"]
  obtain i where i: "\<forall>j<i. j < (2 :: nat)" "\<not> i < 2" "drain (\<lambda>i. if i < 2 then 5 else 0) (\<lambda>i. 7 + 100 * i) 7 = Some (Drained i)"
    by (auto split: if_splits)
  then have "i = 2" by (metis less_irrefl linorder_neqE_nat)
  with i(3) show ?thesis by simp
qed

text \<open>
  The publisher numbers its messages from zero without gaps: the payload handed over at tick \<open>k\<close> carries sequence number \<open>k\<close> and
  the time stamp of that tick, none is sent at or after the end of the run, and a run that completes reports
  exactly how many were sent. Rates up to a thousand million per second do not panic.
\<close>

theorem publisher_numbers_messages:
  assumes "unat rt \<le> 1000000000" and "publish_main (Inr ()) rt stream end_time ticks (Inr ()) = Publish_ran r out"
  shows "length out \<le> length ticks \<and>
    (\<forall>k<length out. out ! k = publish_payload (of_nat k) (fst (snd (ticks ! k))) stream \<and> fst (ticks ! k) < end_time) \<and>
    (\<forall>n. r = Some (Inr n) \<longrightarrow> n = of_nat (length out))"
proof -
  have "publish_loop stream end_time ticks 0 = (r, out)"
    using assms publish_interval_zero [of rt] by (auto simp: publish_main_def split: option.splits sum.splits prod.splits)
  from publish_loop_out [OF this] show ?thesis by simp
qed

theorem publisher_numbers_messages_witness:
  "\<exists>out. publish_main (Inr ()) 10 ''b'' 200 [(100, 5, Inr ()), (200, 6, Inr ())] (Inr ()) = Publish_ran (Some (Inr 1)) out \<and>
     length out = 1 \<and> out ! 0 = publish_payload 0 5 ''b''"
proof -
  have i: "publish_interval 10 \<noteq> 0" by (simp add: publish_interval_zero)
  have "publish_main (Inr ()) 10 ''b'' 200 [(100, 5, Inr ()), (200, 6, Inr ())] (Inr ())
      = Publish_ran (Some (Inr 1)) [publish_payload 0 5 ''b'']"
    using i by (simp add: publish_main_def Let_def)
  moreover from publisher_numbers_messages [OF _ this] have "[publish_payload 0 5 ''b''] ! 0 = publish_payload 0 5 ''b''"
    by simp
  ultimately show ?thesis by simp
qed

end
