(* ===== verification/Command_Line.thy ===== *)
theory Command_Line
  imports Config "HOL-Library.Monad_Syntax"
begin

text \<open>
  How \<open>Config::parse\<close> (\<open>src/src/config.rs\<close>) builds the configuration. The attribute of a field names its flag and its
  environment variable, and gives its default; a flag wins over the variable, the variable over the default, and the text is
  then read by the parser of the field's type. What the arguments of the process say of each flag is a map from flags to texts, and
  the environment a map from variables to texts. \<open>None\<close> is a value that its type does not accept, on which the process exits with code 2.
\<close>

section \<open>Reading a field\<close>

type_synonym settings = "str \<Rightarrow> str option"

definition arg_text :: "settings \<Rightarrow> settings \<Rightarrow> str \<Rightarrow> str \<Rightarrow> str option" where
  "arg_text cli vars flag var = (case cli flag of Some t \<Rightarrow> Some t | None \<Rightarrow> vars var)"

definition arg_or :: "settings \<Rightarrow> settings \<Rightarrow> str \<Rightarrow> str \<Rightarrow> str \<Rightarrow> str" where
  "arg_or cli vars flag var d = (case arg_text cli vars flag var of Some t \<Rightarrow> t | None \<Rightarrow> d)"

text \<open>A port is read as an integer and then checked against the range of its type.\<close>

definition port_of_str :: "str \<Rightarrow> 16 word option" where
  "port_of_str t = (case parse_i64 t of None \<Rightarrow> None | Some i \<Rightarrow> if 0 \<le> i \<and> i < 2 ^ 16 then Some (of_int i) else None)"

definition usize_of_str :: "str \<Rightarrow> nat option" where
  "usize_of_str t = map_option unat (parse_u64 t)"

definition replay_enforcement_of_str :: "str \<Rightarrow> replay_enforcement option" where
  "replay_enforcement_of_str t =
     (if t = ''compat'' then Some Compat
      else if t = ''soft_enforce'' then Some SoftEnforce
      else if t = ''hard_enforce'' then Some HardEnforce
      else None)"

section \<open>Reading the configuration\<close>

definition config_parse :: "settings \<Rightarrow> settings \<Rightarrow> str \<Rightarrow> config option" where
  "config_parse cli vars new_node_id = do {
     let arg = arg_or cli vars;
     p \<leftarrow> port_of_str (arg ''port'' ''TURBOCABLE_PORT'' ''9292'');
     let url = arg ''nats-url'' ''TURBOCABLE_NATS_URL'' ''nats://localhost:4222'';
     let node = arg ''node-id'' ''TURBOCABLE_NODE_ID'' new_node_id;
     ping \<leftarrow> parse_u64 (arg ''ping-interval-secs'' ''TURBOCABLE_PING_INTERVAL'' ''30'');
     per_ip \<leftarrow> parse_u64 (arg ''max-connections-per-ip'' ''TURBOCABLE_MAX_CONN_PER_IP'' ''10'');
     ws \<leftarrow> usize_of_str (arg ''ws-channel-capacity'' ''TURBOCABLE_WS_CHANNEL_CAPACITY'' ''4096'');
     wsr \<leftarrow> usize_of_str (arg ''ws-replay-channel-capacity'' ''TURBOCABLE_WS_REPLAY_CHANNEL_CAPACITY'' ''4096'');
     let key = arg_text cli vars ''jwt-public-key-path'' ''TURBOCABLE_JWT_PUBLIC_KEY_PATH'';
     ack \<leftarrow> parse_i64 (arg ''max-ack-pending'' ''TURBOCABLE_MAX_ACK_PENDING'' ''10000'');
     replicas \<leftarrow> usize_of_str (arg ''nats-stream-replicas'' ''TURBOCABLE_NATS_STREAM_REPLICAS'' ''1'');
     phase \<leftarrow> replay_enforcement_of_str (arg ''replay-enforcement'' ''REPLAY_ENFORCEMENT'' ''compat'');
     replays \<leftarrow> usize_of_str (arg ''max-replay-concurrency'' ''TURBOCABLE_MAX_REPLAY_CONCURRENCY'' ''1000'');
     rps \<leftarrow> parse_u64 (arg ''stream-rate-limit-rps'' ''TURBOCABLE_STREAM_RATE_LIMIT_RPS'' ''0'');
     burst \<leftarrow> parse_u64 (arg ''stream-rate-limit-burst'' ''TURBOCABLE_STREAM_RATE_LIMIT_BURST'' ''0'');
     let ovr = arg ''stream-rate-overrides'' ''TURBOCABLE_STREAM_RATE_OVERRIDES'' '''';
     Some \<lparr>port = p, nats_url = url, node_id = node, ping_interval_secs = ping, max_connections_per_ip = per_ip,
       ws_channel_capacity = ws, ws_replay_channel_capacity = wsr, jwt_public_key_path = key, max_ack_pending = ack,
       nats_stream_replicas = replicas, replay_enforcement = phase, max_replay_concurrency = replays,
       stream_rate_limit_rps = rps, stream_rate_limit_burst = burst, stream_rate_overrides = ovr\<rparr>
   }"

section \<open>Writing a configuration\<close>

fun show_replay_enforcement :: "replay_enforcement \<Rightarrow> str" where
  "show_replay_enforcement Compat = ''compat''"
| "show_replay_enforcement SoftEnforce = ''soft_enforce''"
| "show_replay_enforcement HardEnforce = ''hard_enforce''"

text \<open>Flag, variable and text of every field that has a value.\<close>

definition config_settings :: "config \<Rightarrow> (str \<times> str \<times> str) list" where
  "config_settings cfg =
     [(''port'', ''TURBOCABLE_PORT'', show_nat (unat (port cfg))),
      (''nats-url'', ''TURBOCABLE_NATS_URL'', nats_url cfg),
      (''node-id'', ''TURBOCABLE_NODE_ID'', node_id cfg),
      (''ping-interval-secs'', ''TURBOCABLE_PING_INTERVAL'', show_nat (unat (ping_interval_secs cfg))),
      (''max-connections-per-ip'', ''TURBOCABLE_MAX_CONN_PER_IP'', show_nat (unat (max_connections_per_ip cfg))),
      (''ws-channel-capacity'', ''TURBOCABLE_WS_CHANNEL_CAPACITY'', show_nat (ws_channel_capacity cfg)),
      (''ws-replay-channel-capacity'', ''TURBOCABLE_WS_REPLAY_CHANNEL_CAPACITY'', show_nat (ws_replay_channel_capacity cfg)),
      (''max-ack-pending'', ''TURBOCABLE_MAX_ACK_PENDING'', show_i64 (max_ack_pending cfg)),
      (''nats-stream-replicas'', ''TURBOCABLE_NATS_STREAM_REPLICAS'', show_nat (nats_stream_replicas cfg)),
      (''replay-enforcement'', ''REPLAY_ENFORCEMENT'', show_replay_enforcement (replay_enforcement cfg)),
      (''max-replay-concurrency'', ''TURBOCABLE_MAX_REPLAY_CONCURRENCY'', show_nat (max_replay_concurrency cfg)),
      (''stream-rate-limit-rps'', ''TURBOCABLE_STREAM_RATE_LIMIT_RPS'', show_nat (unat (stream_rate_limit_rps cfg))),
      (''stream-rate-limit-burst'', ''TURBOCABLE_STREAM_RATE_LIMIT_BURST'', show_nat (unat (stream_rate_limit_burst cfg))),
      (''stream-rate-overrides'', ''TURBOCABLE_STREAM_RATE_OVERRIDES'', stream_rate_overrides cfg)]"

text \<open>The values that the fields of the source's types can have.\<close>

definition config_typed :: "config \<Rightarrow> bool" where
  "config_typed cfg \<longleftrightarrow>
     list_all (\<lambda>n. n < 2 ^ 64) [ws_channel_capacity cfg, ws_replay_channel_capacity cfg, nats_stream_replicas cfg, max_replay_concurrency cfg] \<and>
     - (2 ^ 63) \<le> max_ack_pending cfg \<and> max_ack_pending cfg < 2 ^ 63"

section \<open>Lemmas\<close>

lemma port_of_str_show [simp]: "port_of_str (show_nat (unat (w :: 16 word))) = Some w"
proof -
  have "port_of_str (show_nat n) = Some (of_int (int n))" if "n < 2 ^ 16" for n
    using that parse_i64_show [of "int n"] by (simp add: show_i64_def port_of_str_def)
  moreover have "unat w < 2 ^ 16" using unsigned_less [of w, where ?'a = nat] by simp
  ultimately have "port_of_str (show_nat (unat w)) = Some (of_int (int (unat w)))" .
  then show ?thesis by simp
qed

lemma usize_of_str_show [simp]: "n < 2 ^ 64 \<Longrightarrow> usize_of_str (show_nat n) = Some n"
  by (simp add: usize_of_str_def parse_u64_show_nat unat_of_nat)

lemma parse_u64_show [simp]: "parse_u64 (show_nat (unat (w :: u64))) = Some w"
  using parse_u64_show_nat [of "unat w"] unat_u64_bound [of w] by simp

lemma replay_enforcement_of_show [simp]: "replay_enforcement_of_str (show_replay_enforcement e) = Some e"
  by (cases e) (simp_all add: replay_enforcement_of_str_def)

lemma arg_or_text [simp]: "arg_text cli vars flag var = Some t \<Longrightarrow> arg_or cli vars flag var d = t"
  by (simp add: arg_or_def)

text \<open>A text out of the range of its type is refused: no port is reduced modulo its width.\<close>

lemma port_too_large: "2 ^ 16 \<le> n \<Longrightarrow> port_of_str (show_nat n) = None"
proof -
  assume n: "2 ^ 16 \<le> n"
  have "CHR ''+'' \<notin> set (show_nat n)" "CHR ''-'' \<notin> set (show_nat n)" by (rule show_nat_no_sign)+
  then show ?thesis using n parse_digits_overflow [of n] parse_digits_show_nat [of n]
    by (cases "n < 2 ^ 64") (auto simp: port_of_str_def parse_i64_def split: list.splits if_splits)
qed

lemma config_parse_port: "port_of_str (arg_or cli vars ''port'' ''TURBOCABLE_PORT'' ''9292'') = None \<Longrightarrow> config_parse cli vars nid = None"
  by (simp add: config_parse_def)

lemma config_parse_defaults: "config_parse Map.empty Map.empty nid = Some (config_default nid)"
  by (simp add: config_parse_def config_default_def arg_or_def arg_text_def port_of_str_def usize_of_str_def parse_i64_def
      parse_u64_def replay_enforcement_of_str_def digit_val_def)

section \<open>Properties\<close>

text \<open>
  C39. A configuration can be given by flags, by environment variables or by both. When every field that has a value is given its text by its flag, or
  has no flag and is given its text by its variable, the process reads exactly that configuration; a variable whose flag is
  given too is ignored. With no flags and no variables it reads the documented defaults.
\<close>

theorem config_parse_exact:
  assumes "config_typed cfg"
    and "\<forall>(flag, var, t) \<in> set (config_settings cfg). cli flag = Some t \<or> cli flag = None \<and> vars var = Some t"
    and "arg_text cli vars ''jwt-public-key-path'' ''TURBOCABLE_JWT_PUBLIC_KEY_PATH'' = jwt_public_key_path cfg"
  shows "config_parse cli vars nid = Some cfg \<and> config_parse Map.empty Map.empty nid = Some (config_default nid)"
proof
  have "\<forall>(flag, var, t) \<in> set (config_settings cfg). arg_text cli vars flag var = Some t"
    using assms(2) by (auto simp: arg_text_def)
  then show "config_parse cli vars nid = Some cfg"
    using assms(1,3) by (simp add: config_settings_def config_parse_def config_typed_def parse_i64_show)
  show "config_parse Map.empty Map.empty nid = Some (config_default nid)" by (rule config_parse_defaults)
qed

theorem config_parse_exact_witness:
  "config_parse [''port'' \<mapsto> ''80''] ((map_of (map snd (config_settings ((config_default ''a'')\<lparr>port := 80\<rparr>))))(''TURBOCABLE_PORT'' \<mapsto> ''x'')) ''b''
     = Some ((config_default ''a'')\<lparr>port := 80\<rparr>)"
proof -
  let ?cfg = "(config_default ''a'')\<lparr>port := 80\<rparr>"
  have "config_typed ?cfg" by (simp add: config_typed_def config_default_def)
  moreover have "show_nat 80 = ''80''" by (simp add: show_nat.simps rust_simps)
  ultimately show ?thesis
    by (intro config_parse_exact [THEN conjunct1]) (simp_all add: config_settings_def arg_text_def config_default_def)
qed

end
