(* ===== verification/Process.thy ===== *)
theory Process
  imports Server Command_Line
begin

text \<open>
  The process: the listener's socket calls and the routes of \<open>server.rs\<close>, its signals, \<open>run\<close> from start-up to the last flush, \<open>main.rs\<close> from the command line on, and the arguments of
  \<open>bin/publish.rs\<close>. The results of the calls to the operating system are arguments.
\<close>

section \<open>The listener\<close>

datatype socket_call =
    Socket_new
  | Set_reuse_address bool
  | Set_reuse_port bool
  | Set_nonblocking bool
  | Bind "nat \<times> nat \<times> nat \<times> nat" "16 word"
  | Listen nat
  | From_std

text \<open>Calls joined by the error operator: the calls made, and the first error or success.\<close>

fun try_all :: "(socket_call \<Rightarrow> str + unit) \<Rightarrow> socket_call list \<Rightarrow> socket_call list \<times> (str + unit)" where
  "try_all os [] = ([], Inr ())"
| "try_all os (c # cs) =
     (case os c of
        Inl e \<Rightarrow> ([c], Inl e)
      | Inr _ \<Rightarrow> let (made, r) = try_all os cs in (c # made, r))"

definition create_listener :: "(socket_call \<Rightarrow> str + unit) \<Rightarrow> 16 word \<Rightarrow> socket_call list \<times> (str + unit)" where
  "create_listener os p =
     try_all os [Socket_new, Set_reuse_address True, Set_reuse_port True, Set_nonblocking True, Bind (0, 0, 0, 0) p, Listen 8192, From_std]"

section \<open>Routes\<close>

datatype endpoint = Health_route | Metrics_route | Pubkey_route | Cable_route

definition routes :: "(str \<times> endpoint) list" where
  "routes = [(''/health'', Health_route), (''/metrics'', Metrics_route), (''/pubkey'', Pubkey_route), (''/cable'', Cable_route)]"

datatype http_reply = Json_reply json_value | Http_reply http_response | Upgrade_reply | Unrouted

text \<open>The answer to a \<open>GET\<close>; the upgrade itself is \<open>ws_upgrade\<close>.\<close>

definition http_get :: "'key app_env \<Rightarrow> str \<Rightarrow> registry \<Rightarrow> bool option \<Rightarrow> str option \<Rightarrow> str \<Rightarrow> http_reply" where
  "http_get env version r nats_consumer encoded path =
     (case map_of routes path of
        None \<Rightarrow> Unrouted
      | Some Health_route \<Rightarrow> Json_reply (health version r nats_consumer)
      | Some Metrics_route \<Rightarrow> Http_reply (metrics_handler encoded)
      | Some Pubkey_route \<Rightarrow> Http_reply (pubkey_handler env)
      | Some Cable_route \<Rightarrow> Upgrade_reply)"

section \<open>Signals\<close>

datatype os_signal = Sigterm | Ctrl_c | Other_signal

text \<open>
  Whether the future has resolved after the signals received, \<open>None\<close> when registering the first handler panics. A failure to listen
  for Ctrl-C resolves it at once, because the branch takes the result whatever it is.
\<close>

definition shutdown_signal :: "str + unit \<Rightarrow> str + unit \<Rightarrow> os_signal list \<Rightarrow> bool option" where
  "shutdown_signal sigterm ctrl_c signals =
     (case sigterm of
        Inl _ \<Rightarrow> None
      | Inr _ \<Rightarrow> Some (case ctrl_c of Inl _ \<Rightarrow> True | Inr _ \<Rightarrow> list_ex (\<lambda>s. s = Sigterm \<or> s = Ctrl_c) signals))"

section \<open>The process\<close>

record process_calls =
  pr_server :: server_calls
  pr_socket :: "socket_call \<Rightarrow> str + unit"
  pr_limits :: "(u64 \<times> u64) option"
  pr_sigterm :: "str + unit"
  pr_ctrl_c :: "str + unit"
  pr_signals :: "os_signal list"
  pr_serve :: "str + unit"
  pr_remaining :: "nat \<Rightarrow> u64"
  pr_clock :: "nat \<Rightarrow> nat"
  pr_drain_start :: nat
  pr_flush :: "str + unit"

datatype process_end = Exited nat | Process_panicked | Finished drain_result "(gateway_error + unit) option"

text \<open>
  \<open>run\<close>. A panic ends the process, as the release profile asks. Serving ends when the signal has come, or with an error; \<open>None\<close> is
  a process that still runs.
\<close>

definition server_run :: "'key jwt_libs \<Rightarrow> serde_libs \<Rightarrow> value_libs \<Rightarrow> process_calls \<Rightarrow> config \<Rightarrow> process_end option" where
  "server_run libs sl vl pr cfg =
     (case run_startup libs sl vl ((pr_server pr)\<lparr>sv_listener := \<lambda>p. snd (create_listener (pr_socket pr) p)\<rparr>) cfg of
        Exit_process n \<Rightarrow> Some (Exited n)
      | Panicked \<Rightarrow> Some Process_panicked
      | Started (env, _) \<Rightarrow>
          (case shutdown_signal (pr_sigterm pr) (pr_ctrl_c pr) (pr_signals pr) of
             None \<Rightarrow> Some Process_panicked
           | Some signalled \<Rightarrow>
               if \<not> signalled \<and> pr_serve pr = Inr () then None
               else (case run_finish (pr_serve pr) (pr_remaining pr) (pr_clock pr) (pr_drain_start pr) (ae_nats env) (pr_flush pr) of
                       None \<Rightarrow> None
                     | Some (Serve_failed n) \<Rightarrow> Some (Exited n)
                     | Some (Shutdown_complete d f) \<Rightarrow> Some (Finished d f))))"

text \<open>The descriptor limits that are set, if any, and the end of the process, given its flags and its environment.\<close>

definition server_main ::
  "'key jwt_libs \<Rightarrow> serde_libs \<Rightarrow> value_libs \<Rightarrow> process_calls \<Rightarrow> settings \<Rightarrow> settings \<Rightarrow> str \<Rightarrow> (u64 \<times> u64) option \<times> process_end option" where
  "server_main libs sl vl pr cli vars uuid =
     (case config_parse cli vars (default_node_id uuid) of
        None \<Rightarrow> (None, Some (Exited 2))
      | Some cfg \<Rightarrow> (raise_fd_limit 2000000 (pr_limits pr), server_run libs sl vl pr cfg))"

section \<open>The publisher's arguments\<close>

record publish_args =
  arg_nats_url :: str
  arg_stream :: str
  arg_rate :: u64
  arg_duration :: u64
  arg_quiet :: bool

definition publish_args_default :: publish_args where
  "publish_args_default =
     \<lparr>arg_nats_url = ''nats://localhost:4222'', arg_stream = ''bench'', arg_rate = 10, arg_duration = 600, arg_quiet = False\<rparr>"

definition publish_subject :: "publish_args \<Rightarrow> str" where
  "publish_subject args = ''TURBOCABLE.'' @ arg_stream args"

text \<open>
  From the arguments to the loop, with the clock in nanoseconds: the end of the run is an addition to an instant, which
  panics when the result is later than the latest instant the platform has.
\<close>

definition publish_process ::
  "nat \<Rightarrow> publish_args \<Rightarrow> (str \<Rightarrow> str + unit) \<Rightarrow> nat \<Rightarrow> (nat \<times> u64 \<times> (str + unit)) list \<Rightarrow> str + unit \<Rightarrow> str \<times> publish_result" where
  "publish_process last_instant args connect now ticks flush_result =
     (let end_time = now + unat (arg_duration args) * 1000000000
      in (publish_subject args,
          case connect (arg_nats_url args) of
            Inl e \<Rightarrow> Publish_connect_error e
          | Inr _ \<Rightarrow>
              if end_time > last_instant then Publish_panicked
              else publish_main (Inr ()) (arg_rate args) (arg_stream args) end_time ticks flush_result))"

section \<open>Lemmas\<close>

lemma try_all_result:
  "snd (try_all os cs) = Inr () \<longleftrightarrow> (\<forall>c \<in> set cs. os c = Inr ())"
  by (induction cs) (auto simp: split_beta Let_def split: sum.splits)

lemma try_all_made:
  "\<exists>rest. cs = fst (try_all os cs) @ rest \<and> (\<forall>c \<in> set (butlast (fst (try_all os cs))). os c = Inr ()) \<and>
     (snd (try_all os cs) = Inr () \<longrightarrow> rest = [])"
proof (induction cs)
  case (Cons c cs)
  then obtain rest where "cs = fst (try_all os cs) @ rest" "\<forall>c \<in> set (butlast (fst (try_all os cs))). os c = Inr ()"
    "snd (try_all os cs) = Inr () \<longrightarrow> rest = []" by blast
  then show ?case by (cases "os c") (auto simp: split_beta Let_def)
qed simp

text \<open>Both reuse options are set before the address is bound, so several processes can share the port.\<close>

lemma reuse_before_bind:
  assumes "Bind (0, 0, 0, 0) p \<in> set (fst (create_listener os p))"
  shows "os (Set_reuse_address True) = Inr () \<and> os (Set_reuse_port True) = Inr ()"
  using assms by (auto simp: create_listener_def split_beta Let_def split: sum.splits)

text \<open>The descriptor limit is never lowered and never set above the hard limit.\<close>

lemma fd_limit_within:
  assumes "raise_fd_limit target (Some (soft, hard)) = Some (new, hard')" and "soft \<le> hard"
  shows "soft \<le> new \<and> new \<le> hard \<and> hard' = hard"
  using assms by (auto simp: raise_fd_limit_def min_def split: if_splits)

text \<open>An error status is answered by the key route only, and says why: no verifier, or a key that is no text.\<close>

lemma http_get_error:
  assumes "http_get env version r nats encoded path = Http_reply resp" and "resp_status resp \<noteq> 200"
  shows "path = ''/pubkey'' \<and>
    (resp_status resp = 404 \<and> ae_jwt_verifier env = None \<or>
     resp_status resp = 500 \<and> (\<exists>v. ae_jwt_verifier env = Some v \<and> \<not> utf8_valid (current_pem v)))"
  using assms by (auto simp: http_get_def routes_def metrics_handler_def pubkey_handler_def Let_def
      split: if_splits option.splits)

text \<open>The publisher's payloads, from its arguments: numbered from zero, for the stream of the subject, before the end.\<close>

lemma publish_process_numbers:
  assumes "publish_process last_instant args connect now ticks (Inr ()) = (subj, Publish_ran r out)" and "k < length out"
  shows "subj = ''TURBOCABLE.'' @ arg_stream args \<and> out ! k = publish_payload (of_nat k) (fst (snd (ticks ! k))) (arg_stream args) \<and>
    fst (ticks ! k) < now + unat (arg_duration args) * 1000000000"
proof -
  let ?stop = "now + unat (arg_duration args) * 1000000000"
  have "publish_loop (arg_stream args) ?stop ticks 0 = (r, out)" and s: "subj = ''TURBOCABLE.'' @ arg_stream args"
    using assms(1) by (auto simp: publish_process_def publish_main_def publish_subject_def Let_def
        split: if_splits option.splits sum.splits prod.splits)
  from publish_loop_out [OF this(1)] assms(2) s show ?thesis by simp
qed

definition key_refused :: "'key jwt_libs \<Rightarrow> server_calls \<Rightarrow> config \<Rightarrow> bool" where
  "key_refused libs calls cfg \<longleftrightarrow>
     (\<exists>path. jwt_public_key_path cfg = Some path \<and>
        (\<forall>pem v. sv_read_file calls path = Inr pem \<longrightarrow> from_rsa_pem libs pem \<noteq> Inr v))"

lemma init_jwt_cases:
  "key_refused libs calls cfg \<Longrightarrow> init_jwt_verifier libs calls cfg = Exit_process 1"
  "\<not> key_refused libs calls cfg \<Longrightarrow> \<exists>jwt. init_jwt_verifier libs calls cfg = Started jwt"
  by (auto simp: key_refused_def init_jwt_verifier_def split: option.splits sum.splits)

lemma init_jwt_listener [simp]: "init_jwt_verifier libs (calls\<lparr>sv_listener := l\<rparr>) cfg = init_jwt_verifier libs calls cfg"
  by (simp add: init_jwt_verifier_def split: option.split sum.split)

lemma init_nats_listener [simp]: "init_nats_consumer (calls\<lparr>sv_listener := l\<rparr>) cfg = init_nats_consumer calls cfg"
  by (simp add: init_nats_consumer_def)

text \<open>How the process must end, from the results of its calls.\<close>

definition expected_end :: "'key jwt_libs \<Rightarrow> process_calls \<Rightarrow> config \<Rightarrow> drain_result \<Rightarrow> process_end" where
  "expected_end libs pr cfg d =
     (if key_refused libs (pr_server pr) cfg then Exited 1
      else if MAX_PERMITS < max_replay_concurrency cfg then Process_panicked
      else if \<exists>c \<in> set (fst (create_listener (pr_socket pr) (port cfg))). pr_socket pr c \<noteq> Inr () then Exited 1
      else if sv_local_addr (pr_server pr) \<noteq> Inr () then Process_panicked
      else if pr_sigterm pr \<noteq> Inr () then Process_panicked
      else if pr_serve pr \<noteq> Inr () then Exited 1
      else Finished d (if init_nats_consumer (pr_server pr) cfg then Some (nats_flush (pr_flush pr)) else None))"

lemma try_all_fails_iff: "(\<exists>c \<in> set (fst (try_all os cs)). os c \<noteq> Inr ()) \<longleftrightarrow> snd (try_all os cs) \<noteq> Inr ()"
  by (induction cs) (auto simp: split_beta Let_def split: sum.splits)

lemmas listener_fails_iff = try_all_fails_iff [where cs = "[Socket_new, Set_reuse_address True, Set_reuse_port True, Set_nonblocking True,
  Bind (0, 0, 0, 0) p, Listen 8192, From_std]" for p, folded create_listener_def]

lemma not_Inr_unit: "r \<noteq> Inr () \<longleftrightarrow> (\<exists>e. r = Inl e)"
  by (cases r) auto

lemma server_run_end:
  assumes "drain (pr_remaining pr) (pr_clock pr) (pr_drain_start pr) = Some d"
    and "Sigterm \<in> set (pr_signals pr) \<or> Ctrl_c \<in> set (pr_signals pr)"
  shows "server_run libs sl vl pr cfg = Some (expected_end libs pr cfg d)"
proof (cases "key_refused libs (pr_server pr) cfg")
  case True
  then show ?thesis by (simp add: server_run_def run_startup_def init_jwt_cases expected_end_def)
next
  case False
  then obtain jwt where "init_jwt_verifier libs (pr_server pr) cfg = Started jwt" using init_jwt_cases(2) by blast
  moreover have "list_ex (\<lambda>s. s = Sigterm \<or> s = Ctrl_c) (pr_signals pr)" using assms(2) by (auto simp: list_ex_iff)
  ultimately show ?thesis
    using False unfolding expected_end_def listener_fails_iff unfolding not_Inr_unit
    by (auto simp: server_run_def run_startup_def build_state_def make_env_def Let_def run_finish_def shutdown_signal_def assms(1)
        split: sum.splits)
qed

section \<open>Properties\<close>


text \<open>A process whose port is taken.\<close>

definition demo_process :: process_calls where
  "demo_process =
     \<lparr>pr_server = \<lparr>sv_read_file = (\<lambda>_. Inl ''none''),
        sv_key_kv = \<lparr>kv_connect = Inl ''refused'', kv_open = Inr (), kv_get = Inr None, kv_watch = Inr []\<rparr>,
        sv_nats_connect = Inr (), sv_nats_stream = (\<lambda>_. Inr ()), sv_presence_connect = Inr (), sv_presence_get = Inr (),
        sv_presence_create = Inr (), sv_listener = (\<lambda>_. Inr ()), sv_local_addr = Inr ()\<rparr>,
      pr_socket = (\<lambda>c. case c of Bind _ _ \<Rightarrow> Inl ''in use'' | _ \<Rightarrow> Inr ()), pr_limits = Some (1024, 4096),
      pr_sigterm = Inr (), pr_ctrl_c = Inr (), pr_signals = [Other_signal, Sigterm], pr_serve = Inr (),
      pr_remaining = (\<lambda>_. 0), pr_clock = (\<lambda>i. 100 * i), pr_drain_start = 0, pr_flush = Inr ()\<rparr>"


end
