(* ===== verification/Access.thy ===== *)
theory Access
  imports Server
begin

text \<open>
  What holds of a node as a whole for those who use it: every subscription in any reachable state is backed by
  the token of a live connection, and a broadcast the consumer takes reaches the sockets.
\<close>

section \<open>Subscriptions and tokens\<close>

definition subs_backed :: "'key app_env \<Rightarrow> registry \<Rightarrow> (u64 \<rightharpoonup> conn) \<Rightarrow> bool" where
  "subs_backed env r cs \<longleftrightarrow>
     (\<forall>c s. (c, s) \<in> subs_rel r \<longrightarrow>
        (\<exists>cn i. cs c = Some cn \<and> is_allowed (ctx_allowed_streams (cn_ctx cn)) i \<and> s = stream_key_from_identifier (ae_values env) i))"

definition conn_verified :: "'key app_env \<Rightarrow> conn_context \<Rightarrow> bool" where
  "conn_verified env ctx \<longleftrightarrow>
     (\<forall>v. ae_jwt_verifier env = Some v \<longrightarrow>
        (\<exists>t claims. verify (ae_jwt_libs env) v t = Inr claims \<and>
           ctx_allowed_streams ctx = allowed_streams claims \<and> user_id ctx = Some (sub_claim claims)))"

text \<open>The invariant, with a predicate that admission establishes of every connection.\<close>

definition conns_all :: "(conn_context \<Rightarrow> bool) \<Rightarrow> (u64 \<rightharpoonup> conn) \<Rightarrow> bool" where
  "conns_all Q cs \<longleftrightarrow> (\<forall>c cn. cs c = Some cn \<longrightarrow> Q (cn_ctx cn))"

definition access_inv :: "(conn_context \<Rightarrow> bool) \<Rightarrow> 'key app_env \<Rightarrow> gateway \<Rightarrow> bool" where
  "access_inv Q env g \<longleftrightarrow> subs_backed env (st_registry (app g)) (conns g) \<and> conns_all Q (conns g)"

lemma subs_backedI:
  assumes "subs_backed env r cs" and "subs_rel r' \<subseteq> subs_rel r"
    and "\<And>c s cn. (c, s) \<in> subs_rel r' \<Longrightarrow> cs c = Some cn \<Longrightarrow> \<exists>cn'. cs' c = Some cn' \<and> cn_ctx cn' = cn_ctx cn"
  shows "subs_backed env r' cs'"
  unfolding subs_backed_def
proof (intro allI impI)
  fix c s
  assume s: "(c, s) \<in> subs_rel r'"
  then obtain cn i where i: "cs c = Some cn" "is_allowed (ctx_allowed_streams (cn_ctx cn)) i" "s = stream_key_from_identifier (ae_values env) i"
    using assms(1,2) unfolding subs_backed_def by blast
  from assms(3) [OF s i(1)] i(2,3)
  show "\<exists>cn i. cs' c = Some cn \<and> is_allowed (ctx_allowed_streams (cn_ctx cn)) i \<and> s = stream_key_from_identifier (ae_values env) i"
    by metis
qed

text \<open>Only a client frame adds a subscription: one of the client's own connection that its patterns allow.\<close>

lemma reg_effect_subs:
  assumes "reg_inv r" and "(c, s) \<in> subs_rel (reg_effect env ctx loc frame r)"
  shows "(c, s) \<in> subs_rel r \<or>
    c = conn_id ctx \<and> (\<exists>i. is_allowed (ctx_allowed_streams ctx) i \<and> s = stream_key_from_identifier (ae_values env) i)"
  using assms
  by (auto simp: reg_effect_def subscribe_admitted_def regt.rel_sub regt.rel_unsub
      split: client_frame.splits client_command.splits if_splits)

lemma after_frame_registry [simp]: "st_registry (fst (after_frame res)) = st_registry (fst res)"
  by (cases res) (auto simp: after_frame_def split: option.splits)

lemma event_subs:
  assumes "reg_inv (st_registry st)" and "(c, s) \<in> subs_rel (st_registry (fst (inbound_event env ctx ev st loc)))"
  shows "(c, s) \<in> subs_rel (st_registry st) \<or>
    c = conn_id ctx \<and> (\<exists>i. is_allowed (ctx_allowed_streams ctx) i \<and> s = stream_key_from_identifier (ae_values env) i)"
proof -
  have frame: ?thesis if "(c, s) \<in> subs_rel (st_registry (fst (handle_client_frame d env ctx st loc)))" for d
    using that reg_effect_subs [OF assms(1), of c s env ctx loc] unfolding handle_frame_registry
    by (cases "decode (ctx_codec ctx) d") auto
  show ?thesis
  proof (cases ev)
    case (In_message m)
    then show ?thesis using assms(2) frame by (cases m) auto
  qed (use assms(2) in \<open>auto split: option.splits\<close>)
qed

lemma accept_subs:
  assumes "handle_socket_start env protocol token ip st = Some (Accepted cn, st')"
  shows "subs_rel (st_registry st') = subs_rel (st_registry st)"
proof -
  obtain b where "st_registry st' = register (snd (allocate_id (st_registry st))) (next_id (st_registry st)) (st_next_chan st) b (st_next_chan st)"
    using admission_effect [OF assms] by blast
  then show ?thesis by (simp add: subs_rel_def subs_of_def register_def allocate_id_def)
qed

lemma broadcast_subs:
  assumes "reg_inv (fs_registry fs)"
  shows "subs_rel (fs_registry (process_nats_message vl sl now msg fs)) \<subseteq> subs_rel (fs_registry fs)"
proof -
  obtain ev where "fs_registry (process_nats_message vl sl now msg fs) = fst (deregister_all (fs_registry fs) ev)"
    by (rule process_registry)
  then show ?thesis using deregister_all_rel [OF assms] by auto
qed

lemma access_inv_local:
  assumes "access_inv Q env g" and "gw_inv limit g" and "conns g c = Some cn"
    and "\<And>c' s. (c', s) \<in> subs_rel (st_registry (fst res)) \<Longrightarrow> (c', s) \<in> subs_rel (st_registry (app g)) \<or>
      c' = conn_id (cn_ctx cn) \<and> (\<exists>i. is_allowed (ctx_allowed_streams (cn_ctx cn)) i \<and> s = stream_key_from_identifier (ae_values env) i)"
  shows "access_inv Q env (set_local g c cn res)"
proof -
  let ?cs = "(conns g)(c \<mapsto> cn\<lparr>cn_local := snd res\<rparr>)"
  have id: "conn_id (cn_ctx cn) = c" using assms(2,3) by (simp add: gw_inv_def conns_ok_def)
  have "subs_backed env (st_registry (fst res)) ?cs"
    unfolding subs_backed_def
  proof (intro allI impI)
    fix c' s
    assume "(c', s) \<in> subs_rel (st_registry (fst res))"
    then consider "(c', s) \<in> subs_rel (st_registry (app g))"
      | i where "c' = c" "is_allowed (ctx_allowed_streams (cn_ctx cn)) i" "s = stream_key_from_identifier (ae_values env) i"
      using assms(4) id by blast
    then show "\<exists>cn i. ?cs c' = Some cn \<and> is_allowed (ctx_allowed_streams (cn_ctx cn)) i \<and> s = stream_key_from_identifier (ae_values env) i"
    proof cases
      case 1
      then obtain cn' i where "conns g c' = Some cn'" "is_allowed (ctx_allowed_streams (cn_ctx cn')) i" "s = stream_key_from_identifier (ae_values env) i"
        using assms(1) unfolding access_inv_def subs_backed_def by blast
      then show ?thesis using assms(3) by (cases "c' = c") auto
    qed auto
  qed
  moreover have "conns_all Q ?cs"
    using assms(1,3) by (auto simp: access_inv_def conns_all_def)
  ultimately show ?thesis by (simp add: access_inv_def set_local_def)
qed

lemma access_inv_accept:
  assumes "access_inv Q env g" and "gw_inv limit g"
    and "handle_socket_start env protocol token ip (app g) = Some (Accepted cn, st)" and "Q (cn_ctx cn)"
  shows "access_inv Q env (g\<lparr>app := st, conns := (conns g)(conn_id (cn_ctx cn) \<mapsto> cn)\<rparr>)"
proof -
  have id: "conn_id (cn_ctx cn) = next_id (st_registry (app g))" using admission_effect [OF assms(3)] by simp
  have ok: "conns_ok (st_registry (app g)) (conns g)" using assms(2) by (simp add: gw_inv_def)
  have new: "conns g (conn_id (cn_ctx cn)) = None"
    using ok unfolding id by (cases "conns g (next_id (st_registry (app g)))") (auto simp: conns_ok_def)
  have "subs_backed env (st_registry st) ((conns g)(conn_id (cn_ctx cn) \<mapsto> cn))"
  proof (rule subs_backedI)
    show "subs_backed env (st_registry (app g)) (conns g)" using assms(1) by (simp add: access_inv_def)
    show "subs_rel (st_registry st) \<subseteq> subs_rel (st_registry (app g))" by (simp add: accept_subs [OF assms(3)])
  qed (use new in auto)
  then show ?thesis using assms(1,4) by (simp add: access_inv_def conns_all_def)
qed

lemma access_inv_end:
  assumes "access_inv Q env g" and "gw_inv limit g" and "conns g c = Some cn"
  shows "access_inv Q env (g\<lparr>app := handle_socket_end env cn (app g), conns := (conns g)(c := None)\<rparr>)"
proof -
  have "conn_id (cn_ctx cn) = c" "reg_inv (st_registry (app g))"
    using assms(2,3) by (simp_all add: gw_inv_def conns_ok_def registry_ok_def)
  then have rel: "subs_rel (st_registry (handle_socket_end env cn (app g))) = {p \<in> subs_rel (st_registry (app g)). fst p \<noteq> c}"
    by (simp add: end_effect regt.rel_dereg)
  have "subs_backed env (st_registry (handle_socket_end env cn (app g))) ((conns g)(c := None))"
  proof (rule subs_backedI)
    show "subs_backed env (st_registry (app g)) (conns g)" using assms(1) by (simp add: access_inv_def)
  qed (auto simp: rel)
  then show ?thesis using assms(1) by (simp add: access_inv_def conns_all_def)
qed

definition admits_only :: "'key app_env \<Rightarrow> (conn_context \<Rightarrow> bool) \<Rightarrow> bool" where
  "admits_only env Q \<longleftrightarrow>
     (\<forall>protocol token ip st cn st'. handle_socket_start env protocol token ip st = Some (Accepted cn, st') \<longrightarrow> Q (cn_ctx cn))"

lemma access_inv_step:
  "gw_step env g g' \<Longrightarrow> gw_inv limit g \<Longrightarrow> access_inv Q env g \<Longrightarrow> admits_only env Q \<Longrightarrow> access_inv Q env g'"
proof (induction rule: gw_step.induct)
  case (gw_reject protocol token ip g code reason st)
  then show ?case using rejection_effect [OF gw_reject(1)] by (simp add: access_inv_def)
next
  case (gw_accept g protocol token ip cn st)
  then show ?case unfolding admits_only_def by (intro access_inv_accept) blast+
next
  case (gw_event g c cn ev)
  have "reg_inv (st_registry (app g))" using gw_event by (simp add: gw_inv_def registry_ok_def)
  from event_subs [OF this] gw_event show ?case by (intro access_inv_local)
next
  case (gw_send g c cn)
  then have "st_registry (fst (inbound_send (cn_ctx cn) (app g) (cn_local cn))) = st_registry (app g)"
    by (auto simp: inbound_send_def split: in_pc.splits send_result.splits)
  with gw_send show ?case by (intro access_inv_local) auto
next
  case (gw_end g c cn)
  then show ?case by (intro access_inv_end)
next
  case (gw_broadcast g now msg)
  then have "reg_inv (fs_registry (to_fan g))" by (simp add: gw_inv_def registry_ok_def to_fan_def)
  from broadcast_subs [OF this, of "ae_values env" "ae_serde env" now msg] gw_broadcast(2) show ?case
    by (auto simp: access_inv_def from_fan_def to_fan_def subs_backed_def)
qed (simp_all add: access_inv_def)

lemma access_inv_init: "access_inv Q env (gateway_init limit rl)"
proof -
  have "subs_rel registry_new = {}" by (simp add: subs_rel_def subs_of_def registry_new_def)
  then show ?thesis by (simp add: access_inv_def subs_backed_def conns_all_def gateway_init_def)
qed

lemma admits_verified: "admits_only env (conn_verified env)"
  unfolding admits_only_def conn_verified_def using accepted_verified by metis

lemma access_inv_reach: "gw_reach env limit rl g \<Longrightarrow> access_inv (conn_verified env) env g"
proof (induction rule: gw_reach.induct)
  case gw_start
  show ?case by (rule access_inv_init)
next
  case (gw_next g g')
  then show ?case by (blast intro: access_inv_step gw_inv_reach admits_verified)
qed

section \<open>Properties\<close>

text \<open>
  C4. From the broadcast to the socket. Take a registered connection whose channel has room for its share of what the consumer
  delivers. When its outbound loop is serving live frames on a healthy socket, then after one step per queued payload the
  socket has received, in order and exactly once, what was queued before and the frame of every consumed message on its streams that the
  rate limiter let through, and nothing else.
\<close>

theorem broadcast_reaches_socket:
  assumes "reg_inv (fs_registry fs)" and "senders_distinct (fs_registry fs)"
    and "consume_loop vl sl evs n acks fs = (res, acks', fs')"
    and "connections (fs_registry fs) c = Some e" and "ch = byte_chans (fs_chans fs) (sender e)"
    and "new = map (frame_for vl sl e) (filter (wants fs c) (passed (fs_limiter fs) (served evs)))"
    and "rx_alive ch" and "length (queue ch) + length new \<le> capacity ch"
    and "serving s" and "live_rx s = byte_chans (fs_chans fs') (sender e)" and "healthy orc"
  shows "wire (out_exec orc s (replicate (length (queue ch) + length new) Own)) =
      wire s @ map (Pair From_live) (rendered (out_binary s) (queue ch @ new)) \<and>
    queue (live_rx (out_exec orc s (replicate (length (queue ch) + length new) Own))) = []"
proof -
  have "fan_ok fs" "live_at fs c e (queue ch) (length new)" using assms by (simp_all add: fan_ok_def live_at_def)
  from consume_delivers [OF this(1) assms(6) this(2) assms(3)]
  have "queue (live_rx s) = queue ch @ new" using assms(10) by (simp add: live_at_def)
  from live_run [OF assms(11,9) this] show ?thesis by simp
qed

theorem broadcast_reaches_socket_witness:
  "\<exists>res acks fs'. consume_loop demo_values demo_serde demo_events 0 [] demo_fan = (res, acks, fs') \<and>
     wire (out_exec (\<lambda>_. True) (outbound_init (byte_chans (fs_chans fs') 10) (demo_chan [] 1) (demo_chan [] 1) (demo_chan [] 1) False False [])
       [Own]) = [(From_live, Text ''hi'')]"
proof -
  obtain res acks fs' where r: "consume_loop demo_values demo_serde demo_events 0 [] demo_fan = (res, acks, fs')"
    by (metis prod_cases3)
  let ?s = "outbound_init (byte_chans (fs_chans fs') 10) (demo_chan [] 1) (demo_chan [] 1) (demo_chan [] 1) False False []"
  have s: "serving ?s" "live_rx ?s = byte_chans (fs_chans fs') (sender demo_entry)" "healthy (\<lambda>_. True)"
    by (simp_all add: serving_def nothing_urgent_def outbound_init_def demo_entry_def healthy_def)
  have "bytes_to_ws_msg ''hi'' False = Some (Text ''hi'')" by code_simp
  with broadcast_reaches_socket [OF demo_consumption(1,2) r demo_consumption(3-7) s] r show ?thesis
    by (simp add: demo_consumption(8) outbound_init_def rendered_def map_filter_def)
qed

end
