(* ===== verification/Node.thy ===== *)
theory Node
  imports Access
begin

text \<open>
  A whole node with its key watcher: the tasks of \<open>gw_step\<close> and the task of \<open>watch_loop\<close> (\<open>auth/key_watcher.rs\<close>)
  share the verifier of \<open>auth/jwt.rs\<close>. While \<open>update_key\<close> holds the write guard of the key, a step that would read the key waits;
  the steps that do not read it are those that are possible whatever the verifier is.
\<close>

section \<open>States and steps\<close>

record 'key node =
  nd_gateway :: gateway
  nd_key :: "'key key_sys"
  nd_watch :: "(str + bytes) list" \<comment> \<open>what the watch stream has still to yield\<close>
  nd_pems :: "bytes list" \<comment> \<open>the keys accepted so far, the one of start-up first\<close>

definition env_with :: "'key app_env \<Rightarrow> 'key jwt_verifier \<Rightarrow> 'key app_env" where
  "env_with env v = env\<lparr>ae_jwt_verifier := Some v\<rparr>"

definition node_init :: "'key jwt_verifier \<Rightarrow> (str + bytes) list \<Rightarrow> gateway \<Rightarrow> 'key node" where
  "node_init v watch g =
     \<lparr>nd_gateway = g, nd_key = \<lparr>kverifier = v, key_guard = None\<rparr>, nd_watch = watch, nd_pems = [current_pem v]\<rparr>"

inductive node_step :: "'key app_env \<Rightarrow> 'key node \<Rightarrow> 'key node \<Rightarrow> bool" for env where
  node_gateway: "key_guard (nd_key n) = None \<Longrightarrow> gw_step (env_with env (kverifier (nd_key n))) (nd_gateway n) g \<Longrightarrow>
    node_step env n (n\<lparr>nd_gateway := g\<rparr>)"
| node_gateway_guarded: "(\<And>v. gw_step (env_with env v) (nd_gateway n) g) \<Longrightarrow> node_step env n (n\<lparr>nd_gateway := g\<rparr>)"
| node_watch_error: "key_guard (nd_key n) = None \<Longrightarrow> nd_watch n = Inl e # items \<Longrightarrow> node_step env n (n\<lparr>nd_watch := items\<rparr>)"
| node_watch_invalid: "key_guard (nd_key n) = None \<Longrightarrow> nd_watch n = Inr pem # items \<Longrightarrow>
    decoding_key_from_rsa_pem (ae_jwt_libs env) pem = Inl e \<Longrightarrow> node_step env n (n\<lparr>nd_watch := items\<rparr>)"
| node_rotate_begin: "key_guard (nd_key n) = None \<Longrightarrow> nd_watch n = Inr pem # items \<Longrightarrow>
    decoding_key_from_rsa_pem (ae_jwt_libs env) pem = Inr k \<Longrightarrow> \<not> poisoned (vkey (kverifier (nd_key n))) \<Longrightarrow>
    node_step env n (n\<lparr>nd_key := \<lparr>kverifier = set_key (kverifier (nd_key n)) k, key_guard = Some pem\<rparr>,
      nd_watch := items, nd_pems := nd_pems n @ [pem]\<rparr>)"
| node_rotate_end: "key_guard (nd_key n) = Some pem \<Longrightarrow>
    node_step env n (n\<lparr>nd_key := \<lparr>kverifier = set_pem (kverifier (nd_key n)) pem, key_guard = None\<rparr>\<rparr>)"

abbreviation node_reach :: "'key app_env \<Rightarrow> 'key node \<Rightarrow> 'key node \<Rightarrow> bool" where
  "node_reach env \<equiv> (node_step env)\<^sup>*\<^sup>*"

section \<open>The invariant of a node\<close>

text \<open>The connection was admitted with a token that the verifier of one of the keys accepts.\<close>

definition admitted_under :: "'key jwt_libs \<Rightarrow> bytes set \<Rightarrow> conn_context \<Rightarrow> bool" where
  "admitted_under libs pems ctx \<longleftrightarrow>
     (\<exists>pem \<in> pems. \<exists>v t claims. from_rsa_pem libs pem = Inr v \<and> verify libs v t = Inr claims \<and>
        ctx_allowed_streams ctx = allowed_streams claims \<and> user_id ctx = Some (sub_claim claims))"

definition coming_pem :: "'key key_sys \<Rightarrow> bytes" where
  "coming_pem k = (case key_guard k of None \<Rightarrow> guarded (vpem (kverifier k)) | Some pem \<Rightarrow> pem)"

lemma coming_pem_simps [simp]:
  "coming_pem \<lparr>kverifier = v, key_guard = Some pem\<rparr> = pem"
  "coming_pem \<lparr>kverifier = v, key_guard = None\<rparr> = guarded (vpem v)"
  by (simp_all add: coming_pem_def)

lemma key_inv_coming: "key_inv libs k \<longleftrightarrow> fresh_for libs (kverifier k) (coming_pem k)"
  by (simp add: key_inv_def coming_pem_def)

definition node_inv :: "'key app_env \<Rightarrow> u64 \<Rightarrow> bytes \<Rightarrow> (str + bytes) list \<Rightarrow> 'key node \<Rightarrow> bool" where
  "node_inv env limit pem0 watch n \<longleftrightarrow>
     gw_inv limit (nd_gateway n) \<and> access_inv (admitted_under (ae_jwt_libs env) (set (nd_pems n))) env (nd_gateway n) \<and>
     key_inv (ae_jwt_libs env) (nd_key n) \<and> nd_pems n \<noteq> [] \<and>
     last (nd_pems n) = coming_pem (nd_key n) \<and>
     nd_pems n @ valid_pems (ae_jwt_libs env) (nd_watch n) = pem0 # valid_pems (ae_jwt_libs env) watch"

lemma admitted_under_mono: "admitted_under libs P ctx \<Longrightarrow> P \<subseteq> P' \<Longrightarrow> admitted_under libs P' ctx"
  unfolding admitted_under_def by blast

lemma access_inv_mono: "access_inv Q env g \<Longrightarrow> (\<And>ctx. Q ctx \<Longrightarrow> Q' ctx) \<Longrightarrow> access_inv Q' env g"
  unfolding access_inv_def conns_all_def by blast

lemma access_inv_env [simp]: "access_inv Q (env_with env v) g = access_inv Q env g"
  by (simp add: access_inv_def subs_backed_def env_with_def)

lemma env_with_simps [simp]: "ae_jwt_libs (env_with env v) = ae_jwt_libs env" "ae_jwt_verifier (env_with env v) = Some v"
  by (simp_all add: env_with_def)

lemma admits_under:
  assumes "from_rsa_pem (ae_jwt_libs env) pem = Inr v" "pem \<in> P"
  shows "admits_only (env_with env v) (admitted_under (ae_jwt_libs env) P)"
  unfolding admits_only_def
proof (intro allI impI)
  fix protocol token ip st cn st'
  assume "handle_socket_start (env_with env v) protocol token ip st = Some (Accepted cn, st')"
  from accepted_verified [OF this env_with_simps(2)] assms
  show "admitted_under (ae_jwt_libs env) P (cn_ctx cn)"
    unfolding admitted_under_def env_with_simps by metis
qed

text \<open>The verifier from which the current or coming PEM is read: what the invariant says of the key.\<close>

lemma node_inv_key:
  assumes "node_inv env limit pem0 watch n"
  shows "from_rsa_pem (ae_jwt_libs env) (last (nd_pems n)) = Inr (set_pem (kverifier (nd_key n)) (last (nd_pems n)))"
    and "key_guard (nd_key n) = None \<Longrightarrow> from_rsa_pem (ae_jwt_libs env) (last (nd_pems n)) = Inr (kverifier (nd_key n))"
    and "last (nd_pems n) \<in> set (nd_pems n)"
proof -
  have k: "fresh_for (ae_jwt_libs env) (kverifier (nd_key n)) (last (nd_pems n))" "nd_pems n \<noteq> []"
    "last (nd_pems n) = coming_pem (nd_key n)"
    using assms by (simp_all add: node_inv_def key_inv_coming)
  show "from_rsa_pem (ae_jwt_libs env) (last (nd_pems n)) = Inr (set_pem (kverifier (nd_key n)) (last (nd_pems n)))"
    using k(1) by (simp add: fresh_for_def)
  show "last (nd_pems n) \<in> set (nd_pems n)" by (rule last_in_set [OF k(2)])
  show "from_rsa_pem (ae_jwt_libs env) (last (nd_pems n)) = Inr (kverifier (nd_key n))" if "key_guard (nd_key n) = None"
    using k(1) that unfolding k(3) by (simp add: coming_pem_def fresh_for_def)
qed

lemma node_inv_gateway:
  assumes inv: "node_inv env limit pem0 watch n" and step: "gw_step (env_with env v) (nd_gateway n) g"
    and v: "from_rsa_pem (ae_jwt_libs env) (last (nd_pems n)) = Inr v"
  shows "node_inv env limit pem0 watch (n\<lparr>nd_gateway := g\<rparr>)"
proof -
  let ?Q = "admitted_under (ae_jwt_libs env) (set (nd_pems n))"
  have "gw_inv limit (nd_gateway n)" "access_inv ?Q (env_with env v) (nd_gateway n)"
    using inv by (simp_all add: node_inv_def)
  with step have "gw_inv limit g" "access_inv ?Q env g"
    using access_inv_step [OF step, of limit ?Q] admits_under [OF v node_inv_key(3) [OF inv]] by (auto intro: gw_inv_step)
  with inv show ?thesis by (simp add: node_inv_def)
qed

lemma node_inv_step: "node_step env n n' \<Longrightarrow> node_inv env limit pem0 watch n \<Longrightarrow> node_inv env limit pem0 watch n'"
proof (induction rule: node_step.induct)
  case (node_gateway n g)
  then show ?case using node_inv_gateway node_inv_key(2) by blast
next
  case (node_gateway_guarded n g)
  then show ?case using node_inv_gateway node_inv_key(1) by blast
next
  case (node_watch_error n e items)
  then show ?case by (simp add: node_inv_def)
next
  case (node_watch_invalid n pem items e)
  then show ?case by (simp add: node_inv_def is_pem_def)
next
  case (node_rotate_begin n pem items k)
  then have "access_inv (admitted_under (ae_jwt_libs env) (set (nd_pems n @ [pem]))) env (nd_gateway n)"
    by (auto simp: node_inv_def elim!: access_inv_mono admitted_under_mono)
  moreover have "key_inv (ae_jwt_libs env) \<lparr>kverifier = set_key (kverifier (nd_key n)) k, key_guard = Some pem\<rparr>"
    using node_rotate_begin fresh_for_update [OF _ node_rotate_begin(3)] by (auto simp: node_inv_def key_inv_coming)
  ultimately show ?case using node_rotate_begin by (simp add: node_inv_def is_pem_def)
next
  case (node_rotate_end n pem)
  then have "key_inv (ae_jwt_libs env) \<lparr>kverifier = set_pem (kverifier (nd_key n)) pem, key_guard = None\<rparr>"
    "guarded (vpem (set_pem (kverifier (nd_key n)) pem)) = pem" "coming_pem (nd_key n) = pem"
    by (auto simp: node_inv_def key_inv_coming coming_pem_def fresh_for_def set_pem_def)
  with node_rotate_end show ?case by (simp add: node_inv_def)
qed

lemma node_inv_reach:
  assumes "from_rsa_pem (ae_jwt_libs env) (current_pem v0) = Inr v0"
    and "node_reach env (node_init v0 watch (gateway_init limit rl)) n"
  shows "node_inv env limit (current_pem v0) watch n"
  using assms(2)
proof (induction rule: rtranclp_induct)
  case base
  have "fresh_for (ae_jwt_libs env) v0 (current_pem v0)" "guarded (vpem v0) = current_pem v0"
    using fresh_for_start [OF assms(1)] by simp_all
  then show ?case by (simp add: node_inv_def node_init_def gw_inv_init access_inv_init key_inv_coming)
next
  case (step n n')
  then show ?case by (blast intro: node_inv_step)
qed

text \<open>The verifier that start-up hands to the node, with the items of its watch stream.\<close>

lemma init_jwt_current:
  assumes "init_jwt_verifier libs calls cfg = Started (Some (v0, watch))"
  shows "from_rsa_pem libs (current_pem v0) = Inr v0"
proof -
  from assms obtain pem where "from_rsa_pem libs pem = Inr v0"
    by (auto simp: init_jwt_verifier_def load_and_watch_from_nats_def split: option.splits sum.splits)
  from fresh_for_start [OF this] show ?thesis using fresh_for_self by metis
qed

lemma started_node_inv:
  assumes "run_startup libs sl vl calls cfg = Started (env, g0)"
    and "init_jwt_verifier libs calls cfg = Started (Some (v0, watch))"
    and "node_reach env (node_init v0 watch g0) n"
  shows "node_inv env (max_connections_per_ip cfg) (current_pem v0) watch n"
    and "ae_jwt_libs env = libs" "ae_values env = vl" "env_with env v0 = env"
proof -
  have env: "env = make_env libs sl vl cfg (Some v0) (init_nats_consumer calls cfg) (init_presence calls)"
    using run_startup_env [OF assms(1)] assms(2) by (metis fst_conv option.map(2) startup.inject(2))
  then show l: "ae_jwt_libs env = libs" "ae_values env = vl" "env_with env v0 = env"
    by (simp_all add: make_env_def env_with_def)
  obtain rl where "g0 = gateway_init (max_connections_per_ip cfg) rl"
    using assms(1,2) by (auto simp: run_startup_def build_state_def Let_def split: if_splits sum.splits)
  with assms(3) init_jwt_current [OF assms(2)] show "node_inv env (max_connections_per_ip cfg) (current_pem v0) watch n"
    unfolding l(1) [symmetric] using node_inv_reach by metis
qed

text \<open>The node with a fixed key is the node whose watch stream yields nothing.\<close>

lemma gw_reach_node_reach:
  "gw_reach env limit rl g \<Longrightarrow> env_with env v = env \<Longrightarrow>
     node_reach env (node_init v watch (gateway_init limit rl)) ((node_init v watch (gateway_init limit rl))\<lparr>nd_gateway := g\<rparr>)"
proof (induction rule: gw_reach.induct)
  case gw_start
  then show ?case by (simp add: node_init_def)
next
  case (gw_next g g')
  let ?n = "(node_init v watch (gateway_init limit rl))\<lparr>nd_gateway := g\<rparr>"
  have "node_step env ?n (?n\<lparr>nd_gateway := g'\<rparr>)"
    using gw_next by (intro node_gateway) (simp_all add: node_init_def)
  with gw_next show ?case by (simp add: rtranclp.rtrancl_into_rtrancl)
qed

end
