(* ===== verification/Sockets.thy ===== *)
theory Sockets
  imports Gateway
begin

text \<open>
  The life of a socket in the separate steps of \<open>handle_socket\<close> (\<open>connection/handler.rs\<close>). In \<open>gw_step\<close> an admission and the end of a
  connection are one step each; here they are several, and the tasks of many sockets, the
  consumer, the heartbeats and the replays run in between: a socket takes its slot, is authenticated, is
  accepted or gives the slot back; a connection that has stopped deletes its presence entries one by one, drops its
  heartbeats, leaves the registry, the gauge and the limiter, and drops its channels. Being accepted, from the identifier to
  the welcome, is one step. The steps of the gateway are runs of these in which a socket is not interrupted.
\<close>

section \<open>The steps of a socket\<close>

text \<open>A socket that has taken a slot and is not a connection yet, and a connection that ends, by what each does next.\<close>

datatype arrival =
    Acquired ip_addr str "str option"
  | Authenticated ip_addr str "str list \<times> str option"
  | Refusing ip_addr
  | Refused ip_addr

datatype departure =
    Clearing "str list"
  | Leaving
  | Uncounting
  | Releasing
  | Cleaning
  | Hanging_up

datatype arrival_result = Next arrival | Admitted conn | Closed

text \<open>\<open>None\<close> is a panic.\<close>

fun arrival_step :: "'key app_env \<Rightarrow> arrival \<Rightarrow> app_state \<Rightarrow> (arrival_result \<times> app_state) option" where
  "arrival_step env (Acquired ip protocol token) st =
     (case authenticate env token st of
        (Inl reason, st1) \<Rightarrow> Some (Next (Refusing ip), st1)
      | (Inr who, st1) \<Rightarrow> Some (Next (Authenticated ip protocol who), st1))"
| "arrival_step env (Authenticated ip protocol who) st =
     (case accept env ip protocol who st of None \<Rightarrow> None | Some (cn, st1) \<Rightarrow> Some (Admitted cn, st1))"
| "arrival_step env (Refusing ip) st =
     (let (should_remove, l1) = release_dec (st_limiter st) ip
      in Some (if should_remove then Next (Refused ip) else Closed, st\<lparr>st_limiter := l1\<rparr>))"
| "arrival_step env (Refused ip) st = Some (Closed, st\<lparr>st_limiter := release_cleanup (st_limiter st) ip\<rparr>)"

text \<open>The streams whose presence the inbound loop deletes on its way out.\<close>

definition presence_streams :: "'key app_env \<Rightarrow> conn \<Rightarrow> str list" where
  "presence_streams env cn =
     (case (user_id (cn_ctx cn), ae_presence env) of
        (Some _, True) \<Rightarrow> hm_keys (heartbeats (cn_local cn))
      | _ \<Rightarrow> [])"

fun departure_step :: "conn \<Rightarrow> departure \<Rightarrow> app_state \<Rightarrow> departure option \<times> app_state" where
  "departure_step cn (Clearing (stream # rest)) st =
     (Some (Clearing rest),
      case user_id (cn_ctx cn) of
        None \<Rightarrow> st
      | Some uid \<Rightarrow> st\<lparr>st_presence := presence_delete (st_presence st) stream uid\<rparr>)"
| "departure_step cn (Clearing []) st =
     (Some Leaving,
      st\<lparr>st_presence := fold (\<lambda>h pm. drop_heartbeat pm h) (map snd (heartbeats (cn_local cn))) (st_presence st)\<rparr>)"
| "departure_step cn Leaving st =
     (let (r1, gone) = deregister (st_registry st) (conn_id (cn_ctx cn))
      in (Some Uncounting,
          st\<lparr>st_registry := r1, st_chans := (case gone of None \<Rightarrow> st_chans st | Some e \<Rightarrow> drop_entry e (st_chans st))\<rparr>))"
| "departure_step cn Uncounting st =
     (let m = st_metrics st in (Some Releasing, st\<lparr>st_metrics := m\<lparr>connections_active := connections_active m - 1\<rparr>\<rparr>))"
| "departure_step cn Releasing st =
     (let (should_remove, l1) = release_dec (st_limiter st) (cn_ip cn)
      in (Some (if should_remove then Cleaning else Hanging_up), st\<lparr>st_limiter := l1\<rparr>))"
| "departure_step cn Cleaning st = (Some Hanging_up, st\<lparr>st_limiter := release_cleanup (st_limiter st) (cn_ip cn)\<rparr>)"
| "departure_step cn Hanging_up st =
     (let ctx = cn_ctx cn
      in (None, st\<lparr>st_chans := drop_sender (urgent_close_tx ctx) (drop_sender (replay_tx ctx) (drop_sender (live_tx ctx) (st_chans st)))\<rparr>))"

section \<open>All sockets of a node\<close>

record sockets =
  sk_gateway :: gateway
  sk_arriving :: "nat \<rightharpoonup> arrival"
  sk_departing :: "u64 \<rightharpoonup> departure"

definition sockets_init :: "u64 \<Rightarrow> stream_rate_limiter option \<Rightarrow> sockets" where
  "sockets_init limit rl = \<lparr>sk_gateway = gateway_init limit rl, sk_arriving = Map.empty, sk_departing = Map.empty\<rparr>"

abbreviation sk_app :: "sockets \<Rightarrow> app_state" where
  "sk_app s \<equiv> app (sk_gateway s)"

abbreviation sk_conns :: "sockets \<Rightarrow> u64 \<rightharpoonup> conn" where
  "sk_conns s \<equiv> conns (sk_gateway s)"

definition set_app :: "app_state \<Rightarrow> sockets \<Rightarrow> sockets" where
  "set_app st s = s\<lparr>sk_gateway := (sk_gateway s)\<lparr>app := st\<rparr>\<rparr>"

text \<open>The steps of the other tasks, and of a connection while it serves, are those of the gateway.\<close>

inductive serve_step :: "'key app_env \<Rightarrow> gateway \<Rightarrow> gateway \<Rightarrow> bool" for env where
  serve_event: "conns g c = Some cn \<Longrightarrow> in_pc (cn_local cn) = In_select \<Longrightarrow>
     serve_step env g (set_local g c cn (inbound_event env (cn_ctx cn) ev (app g) (cn_local cn)))"
| serve_send: "conns g c = Some cn \<Longrightarrow> in_pc (cn_local cn) = In_sending b ping \<Longrightarrow>
     serve_step env g (set_local g c cn (inbound_send (cn_ctx cn) (app g) (cn_local cn)))"
| serve_broadcast: "serve_step env g (from_fan g (process_nats_message (ae_values env) (ae_serde env) now msg (to_fan g)))"
| serve_heartbeat: "serve_step env g (g\<lparr>app := (app g)\<lparr>st_presence := heartbeat_tick (st_presence (app g)) h\<rparr>\<rparr>)"
| serve_replay: "serve_step env g (g\<lparr>app := (app g)\<lparr>
     st_metrics := snd (snd (replay_task renv permit calls lseq fetches (st_metrics (app g)))), st_chans := cs\<rparr>\<rparr>)"
| serve_outbound: "serve_step env g (g\<lparr>app := (app g)\<lparr>st_chans := cs\<rparr>\<rparr>)"

inductive sk_step :: "'key app_env \<Rightarrow> sockets \<Rightarrow> sockets \<Rightarrow> bool" for env where
  sk_over_limit: "try_acquire (st_limiter (sk_app s)) ip = (False, l) \<Longrightarrow>
     sk_step env s (set_app (count_rejected ((sk_app s)\<lparr>st_limiter := l\<rparr>)) s)"
| sk_acquire: "try_acquire (st_limiter (sk_app s)) ip = (True, l) \<Longrightarrow> sk_arriving s k = None \<Longrightarrow>
     sk_step env s (set_app ((sk_app s)\<lparr>st_limiter := l\<rparr>) s\<lparr>sk_arriving := (sk_arriving s)(k \<mapsto> Acquired ip protocol token)\<rparr>)"
| sk_arrival: "sk_arriving s k = Some a \<Longrightarrow> arrival_step env a (sk_app s) = Some (Next a', st) \<Longrightarrow>
     sk_step env s (set_app st s\<lparr>sk_arriving := (sk_arriving s)(k \<mapsto> a')\<rparr>)"
| sk_closed: "sk_arriving s k = Some a \<Longrightarrow> arrival_step env a (sk_app s) = Some (Closed, st) \<Longrightarrow>
     sk_step env s (set_app st s\<lparr>sk_arriving := (sk_arriving s)(k := None)\<rparr>)"
| sk_admitted: "sk_arriving s k = Some a \<Longrightarrow> arrival_step env a (sk_app s) = Some (Admitted cn, st) \<Longrightarrow>
     unat (next_id (st_registry (sk_app s))) + 1 < 2 ^ 64 \<Longrightarrow>
     sk_step env s (s\<lparr>sk_gateway := (sk_gateway s)\<lparr>app := st, conns := (sk_conns s)(conn_id (cn_ctx cn) \<mapsto> cn)\<rparr>,
       sk_arriving := (sk_arriving s)(k := None)\<rparr>)"
| sk_serve: "serve_step env (sk_gateway s) g \<Longrightarrow> sk_step env s (s\<lparr>sk_gateway := g\<rparr>)"
| sk_stop: "sk_conns s c = Some cn \<Longrightarrow> in_pc (cn_local cn) = In_stopped \<Longrightarrow> sk_departing s c = None \<Longrightarrow>
     sk_step env s (s\<lparr>sk_departing := (sk_departing s)(c \<mapsto> Clearing (presence_streams env cn))\<rparr>)"
| sk_departure: "sk_conns s c = Some cn \<Longrightarrow> sk_departing s c = Some d \<Longrightarrow> departure_step cn d (sk_app s) = (Some d', st) \<Longrightarrow>
     sk_step env s (set_app st s\<lparr>sk_departing := (sk_departing s)(c \<mapsto> d')\<rparr>)"
| sk_gone: "sk_conns s c = Some cn \<Longrightarrow> sk_departing s c = Some d \<Longrightarrow> departure_step cn d (sk_app s) = (None, st) \<Longrightarrow>
     sk_step env s (s\<lparr>sk_gateway := (sk_gateway s)\<lparr>app := st, conns := (sk_conns s)(c := None)\<rparr>,
       sk_departing := (sk_departing s)(c := None)\<rparr>)"

abbreviation sk_reach :: "'key app_env \<Rightarrow> u64 \<Rightarrow> stream_rate_limiter option \<Rightarrow> sockets \<Rightarrow> bool" where
  "sk_reach env limit rl \<equiv> (sk_step env)\<^sup>*\<^sup>* (sockets_init limit rl)"

section \<open>What a socket still holds\<close>

fun departure_rank :: "departure \<Rightarrow> nat" where
  "departure_rank (Clearing _) = 0"
| "departure_rank Leaving = 1"
| "departure_rank Uncounting = 2"
| "departure_rank Releasing = 3"
| "departure_rank Cleaning = 4"
| "departure_rank Hanging_up = 5"

definition still :: "nat \<Rightarrow> departure option \<Rightarrow> bool" where
  "still n d = (case d of None \<Rightarrow> True | Some x \<Rightarrow> departure_rank x \<le> n)"

lemma still_simps [simp]: "still n None" "still n (Some x) \<longleftrightarrow> departure_rank x \<le> n"
  by (simp_all add: still_def)

text \<open>The connections that have not passed point \<open>n\<close> of their departure: 0 for the heartbeats, 1 the registry, 2 the gauge, 3 the slot.\<close>

definition conns_at :: "nat \<Rightarrow> (u64 \<rightharpoonup> conn) \<Rightarrow> (u64 \<rightharpoonup> departure) \<Rightarrow> u64 \<rightharpoonup> conn" where
  "conns_at n cs dep c = (if still n (dep c) then cs c else None)"

fun arrival_ip :: "arrival \<Rightarrow> ip_addr" where
  "arrival_ip (Acquired ip _ _) = ip"
| "arrival_ip (Authenticated ip _ _) = ip"
| "arrival_ip (Refusing ip) = ip"
| "arrival_ip (Refused ip) = ip"

fun holds_slot :: "arrival \<Rightarrow> bool" where
  "holds_slot (Refused _) \<longleftrightarrow> False"
| "holds_slot _ \<longleftrightarrow> True"

definition arriving_from :: "(nat \<rightharpoonup> arrival) \<Rightarrow> ip_addr \<Rightarrow> nat set" where
  "arriving_from arr ip = {k. \<exists>a. arr k = Some a \<and> arrival_ip a = ip \<and> holds_slot a}"

definition slots_held :: "(u64 \<rightharpoonup> conn) \<Rightarrow> (u64 \<rightharpoonup> departure) \<Rightarrow> (nat \<rightharpoonup> arrival) \<Rightarrow> ip_addr \<Rightarrow> nat" where
  "slots_held cs dep arr ip = card (conns_from (conns_at 3 cs dep) ip) + card (arriving_from arr ip)"

definition slots_match :: "u64 \<Rightarrow> connection_limiter \<Rightarrow> (ip_addr \<Rightarrow> nat) \<Rightarrow> bool" where
  "slots_match limit l amount \<longleftrightarrow> max_per_ip l = limit \<and> (\<forall>ip. unat (count_for l ip) = amount ip \<and> amount ip \<le> unat limit)"

definition departing_ok :: "(u64 \<rightharpoonup> conn) \<Rightarrow> (u64 \<rightharpoonup> departure) \<Rightarrow> bool" where
  "departing_ok cs dep \<longleftrightarrow> (\<forall>c d. dep c = Some d \<longrightarrow> (\<exists>cn. cs c = Some cn \<and> in_pc (cn_local cn) = In_stopped))"

definition books :: "u64 \<Rightarrow> app_state \<Rightarrow> (u64 \<rightharpoonup> conn) \<Rightarrow> (u64 \<rightharpoonup> departure) \<Rightarrow> (nat \<rightharpoonup> arrival) \<Rightarrow> bool" where
  "books limit st cs dep arr \<longleftrightarrow>
     conns_ok (st_registry st) cs \<and> departing_ok cs dep \<and> finite (dom arr) \<and>
     slots_match limit (st_limiter st) (slots_held cs dep arr) \<and>
     connections_active (st_metrics st) = int (card (dom (conns_at 2 cs dep))) \<and>
     registry_ok (st_registry st) (st_next_chan st) (conns_at 1 cs dep) \<and>
     hb_inv (hb_tasks (st_presence st)) (hb_next (st_presence st)) (owns_of (conns_at 0 cs dep))"

definition sk_inv :: "u64 \<Rightarrow> sockets \<Rightarrow> bool" where
  "sk_inv limit s \<longleftrightarrow> books limit (sk_app s) (sk_conns s) (sk_departing s) (sk_arriving s)"

section \<open>Changes of the maps\<close>

lemma conns_at_update [simp]:
  "dep c = None \<Longrightarrow> conns_at n (cs(c \<mapsto> cn)) dep = (conns_at n cs dep)(c \<mapsto> cn)"
  by (auto simp: conns_at_def fun_eq_iff)

lemma conns_at_stays: "still n (Some d) = still n (dep c) \<Longrightarrow> conns_at n cs (dep(c \<mapsto> d)) = conns_at n cs dep"
  by (auto simp: conns_at_def fun_eq_iff)

lemma conns_at_leaves: "n < departure_rank d \<Longrightarrow> conns_at n cs (dep(c \<mapsto> d)) = (conns_at n cs dep)(c := None)"
  by (auto simp: conns_at_def fun_eq_iff)

lemma conns_at_gone: "\<not> still n (dep c) \<Longrightarrow> conns_at n (cs(c := None)) (dep(c := None)) = conns_at n cs dep"
  by (auto simp: conns_at_def fun_eq_iff)

lemma conns_at_Some: "conns_at n cs dep c = Some cn \<longleftrightarrow> cs c = Some cn \<and> still n (dep c)"
  by (simp add: conns_at_def)

lemma conns_at_dom: "dom (conns_at n cs dep) = {c \<in> dom cs. still n (dep c)}"
  by (auto simp: conns_at_def split: if_splits)

lemma conns_at_none: "cs c = None \<Longrightarrow> conns_at n cs dep c = None"
  by (simp add: conns_at_def)

lemma conns_at_empty [simp]: "conns_at n Map.empty dep = Map.empty"
  by (simp add: conns_at_def fun_eq_iff)

lemma conns_at_live [simp]: "conns_at n cs Map.empty = cs"
  by (simp add: conns_at_def fun_eq_iff)

lemma conns_at_finite: "finite (dom cs) \<Longrightarrow> finite (dom (conns_at n cs dep))"
  by (simp add: conns_at_dom)

lemma departing_okD: "departing_ok cs dep \<Longrightarrow> cs c = Some cn \<Longrightarrow> in_pc (cn_local cn) \<noteq> In_stopped \<Longrightarrow> dep c = None"
  by (cases "dep c") (auto simp: departing_ok_def)

lemma departing_ok_none: "departing_ok cs dep \<Longrightarrow> cs c = None \<Longrightarrow> dep c = None"
  by (cases "dep c") (auto simp: departing_ok_def)

lemma arriving_finite: "finite (dom arr) \<Longrightarrow> finite (arriving_from arr ip)"
  by (rule finite_subset [of _ "dom arr"]) (auto simp: arriving_from_def)

lemma card_insert_cond:
  "B = (if P then insert x A else A) \<Longrightarrow> x \<notin> A \<Longrightarrow> finite A \<Longrightarrow> card B = card A + (if P then 1 else 0)"
  by simp

lemma card_arriving_new:
  assumes "finite (dom arr)" and "arr k = None" and "holds_slot a"
  shows "card (arriving_from (arr(k \<mapsto> a)) ip) = card (arriving_from arr ip) + (if ip = arrival_ip a then 1 else 0)"
proof -
  have "arriving_from (arr(k \<mapsto> a)) ip = (if ip = arrival_ip a then insert k (arriving_from arr ip) else arriving_from arr ip)"
    using assms(2,3) by (auto simp: arriving_from_def split: if_splits)
  moreover have "k \<notin> arriving_from arr ip" using assms(2) by (simp add: arriving_from_def)
  ultimately show ?thesis using arriving_finite [OF assms(1)] by (rule card_insert_cond)
qed

lemma card_arriving_end:
  assumes "finite (dom arr)" and "arr k = Some a" and "holds_slot a"
    and "arr' = arr(k := None) \<or> (\<exists>a'. arr' = arr(k \<mapsto> a') \<and> \<not> holds_slot a')"
  shows "card (arriving_from arr ip) = card (arriving_from arr' ip) + (if ip = arrival_ip a then 1 else 0)"
proof -
  have "arriving_from arr ip = (if ip = arrival_ip a then insert k (arriving_from arr' ip) else arriving_from arr' ip)"
    using assms(2-4) by (auto simp: arriving_from_def split: if_splits)
  moreover have "k \<notin> arriving_from arr' ip" using assms(4) by (auto simp: arriving_from_def)
  moreover have "finite (arriving_from arr' ip)" using assms(1,4) by (intro arriving_finite) auto
  ultimately show ?thesis by (rule card_insert_cond)
qed

lemma arriving_same:
  assumes "arr k = Some a" and "arrival_ip a' = arrival_ip a" and "holds_slot a' = holds_slot a"
  shows "arriving_from (arr(k \<mapsto> a')) ip = arriving_from arr ip"
  using assms by (auto simp: arriving_from_def split: if_splits)

lemma arriving_drop: "arr k = Some a \<Longrightarrow> \<not> holds_slot a \<Longrightarrow> arriving_from (arr(k := None)) ip = arriving_from arr ip"
  by (auto simp: arriving_from_def split: if_splits)

lemma card_conns_from_new:
  assumes "finite (dom cs)" and "cs c = None"
  shows "card (conns_from (cs(c \<mapsto> cn)) ip) = card (conns_from cs ip) + (if ip = cn_ip cn then 1 else 0)"
proof -
  have "conns_from (cs(c \<mapsto> cn)) ip = (if ip = cn_ip cn then insert c (conns_from cs ip) else conns_from cs ip)"
    using assms(2) by (auto simp: conns_from_def split: if_splits)
  moreover have "c \<notin> conns_from cs ip" using assms(2) by (simp add: conns_from_def)
  ultimately show ?thesis using conns_from_finite [OF assms(1)] by (rule card_insert_cond)
qed

lemma card_conns_from_gone:
  assumes "finite (dom cs)" and "cs c = Some cn"
  shows "card (conns_from cs ip) = card (conns_from (cs(c := None)) ip) + (if ip = cn_ip cn then 1 else 0)"
proof -
  have "conns_from cs ip = (if ip = cn_ip cn then insert c (conns_from (cs(c := None)) ip) else conns_from (cs(c := None)) ip)"
    using assms(2) by (auto simp: conns_from_def split: if_splits)
  moreover have "c \<notin> conns_from (cs(c := None)) ip" by (simp add: conns_from_def)
  moreover have "finite (conns_from (cs(c := None)) ip)" using assms(1) by (intro conns_from_finite) simp
  ultimately show ?thesis by (rule card_insert_cond)
qed

section \<open>The slots\<close>

lemma slots_match_acquire:
  assumes "slots_match limit l amount" and "try_acquire l ip = (True, l')"
  shows "slots_match limit l' (amount(ip := amount ip + 1))"
proof -
  have "unat (count_for l ip) < unat (max_per_ip l)" using assms(2) lim.acquire_iff [of l ip] by simp
  moreover have "(\<lambda>k. unat (count_for l' k)) = (\<lambda>k. unat (count_for l k))(ip := Suc (unat (count_for l ip)))"
    using lim.acquire_used [of l ip] assms(2) calculation by (simp add: fun_eq_iff)
  moreover have "max_per_ip l' = max_per_ip l" using try_acquire_max [of l ip] assms(2) by simp
  ultimately show ?thesis using assms(1) by (auto simp: slots_match_def fun_eq_iff)
qed

lemma slots_match_refused:
  assumes "slots_match limit l amount" and "try_acquire l ip = (False, l')"
  shows "slots_match limit l' amount"
proof -
  have "(\<lambda>k. unat (count_for l' k)) = (\<lambda>k. unat (count_for l k))"
    using lim.acquire_used [of l ip] lim.acquire_iff [of l ip] assms(2) by (simp add: fun_eq_iff)
  moreover have "max_per_ip l' = max_per_ip l" using try_acquire_max [of l ip] assms(2) by simp
  ultimately show ?thesis using assms(1) by (auto simp: slots_match_def fun_eq_iff)
qed

lemma slots_match_release:
  assumes "slots_match limit l amount" and "release_dec l ip = (z, l')" and "\<And>k. amount k = amount' k + (if k = ip then 1 else 0)"
  shows "slots_match limit l' amount'"
  using assms(1,3) release_dec_count [OF assms(2)]
  by (auto simp: slots_match_def fun_eq_iff unat_saturating_sub split: if_splits)

lemma slots_match_cleanup: "slots_match limit l amount \<Longrightarrow> slots_match limit (release_cleanup l ip) amount"
  by (simp add: slots_match_def release_cleanup_count)

section \<open>The books stay balanced\<close>

lemma booksD:
  assumes "books limit st cs dep arr"
  shows "conns_ok (st_registry st) cs" "departing_ok cs dep" "finite (dom arr)"
    "slots_match limit (st_limiter st) (slots_held cs dep arr)"
    "connections_active (st_metrics st) = int (card (dom (conns_at 2 cs dep)))"
    "registry_ok (st_registry st) (st_next_chan st) (conns_at 1 cs dep)"
    "hb_inv (hb_tasks (st_presence st)) (hb_next (st_presence st)) (owns_of (conns_at 0 cs dep))"
    "finite (dom cs)"
  using assms by (simp_all add: books_def conns_ok_def)

lemma books_same:
  assumes "books limit st cs dep arr"
    and "st_limiter st' = st_limiter st" "st_registry st' = st_registry st" "st_next_chan st' = st_next_chan st"
    and "connections_active (st_metrics st') = connections_active (st_metrics st)"
    and "hb_tasks (st_presence st') = hb_tasks (st_presence st)" "hb_next (st_presence st') = hb_next (st_presence st)"
  shows "books limit st' cs dep arr"
  using assms by (simp add: books_def)

lemma books_limiter:
  assumes "books limit st cs dep arr" and "finite (dom arr')" and "slots_match limit l (slots_held cs dep arr')"
  shows "books limit (st\<lparr>st_limiter := l\<rparr>) cs dep arr'"
  using assms by (simp add: books_def)

lemma books_local:
  assumes b: "books limit st cs dep arr" and c: "cs c = Some cn" "dep c = None"
    and e: "frame_effect st (cn_local cn) (fst res) (snd res)"
  shows "books limit (fst res) (cs(c \<mapsto> cn\<lparr>cn_local := snd res\<rparr>)) dep arr"
proof -
  have same: "same_books st (fst res)"
    and hbe: "hb_effect (st_presence st) (heartbeats (cn_local cn)) (st_presence (fst res)) (heartbeats (snd res))"
    using e by (simp_all add: frame_effect_def)
  have live: "conns_at n cs dep c = Some cn" for n using c by (simp add: conns_at_Some)
  note u = conns_update [where cs = "conns_at n cs dep" for n, OF live, of _ "snd res"]
  have "hb_inv (hb_tasks (st_presence (fst res))) (hb_next (st_presence (fst res)))
      ((owns_of (conns_at 0 cs dep))(c := map_of (heartbeats (snd res))))"
    using booksD(7) [OF b] live by (intro hb_effect_inv [OF _ _ hbe]) (simp_all add: owns_of_def)
  moreover have "conns_ok (st_registry (fst res)) (cs(c \<mapsto> cn\<lparr>cn_local := snd res\<rparr>))"
    using booksD(1) [OF b] c(1) same hb_effect_ok [OF hbe] by (auto simp: conns_ok_def same_books_def)
  moreover have "registry_ok (st_registry (fst res)) (st_next_chan (fst res)) ((conns_at 1 cs dep)(c \<mapsto> cn\<lparr>cn_local := snd res\<rparr>))"
    using booksD(6) [OF b] same by (auto simp: registry_ok_def same_books_def senders_distinct_def)
  moreover have "departing_ok (cs(c \<mapsto> cn\<lparr>cn_local := snd res\<rparr>)) dep"
    using booksD(2) [OF b] c(2) by (auto simp: departing_ok_def)
  moreover have "slots_held (cs(c \<mapsto> cn\<lparr>cn_local := snd res\<rparr>)) dep arr = slots_held cs dep arr"
    "dom (conns_at 2 (cs(c \<mapsto> cn\<lparr>cn_local := snd res\<rparr>)) dep) = dom (conns_at 2 cs dep)"
    by (simp_all only: slots_held_def fun_eq_iff conns_at_update [of dep, OF c(2)] u) simp
  moreover have "owns_of (conns_at 0 (cs(c \<mapsto> cn\<lparr>cn_local := snd res\<rparr>)) dep) = (owns_of (conns_at 0 cs dep))(c := map_of (heartbeats (snd res)))"
    by (simp only: conns_at_update [of dep, OF c(2)] u)
  ultimately show ?thesis
    using booksD(3-5) [OF b] same unfolding books_def same_books_def conns_at_update [of dep, OF c(2)] by simp
qed

lemma books_broadcast:
  assumes "books limit (app g) (conns g) dep arr"
  shows "books limit (app (from_fan g (process_nats_message vl sl now msg (to_fan g)))) (conns g) dep arr"
proof -
  note old = booksD(6) [OF assms]
  have ok: "fan_ok (to_fan g)" using old by (simp add: fan_ok_def to_fan_def registry_ok_def)
  note e = process_effect [OF refl ok, of vl sl now msg]
  have t: "fs_registry (to_fan g) = st_registry (app g)" "fs_metrics (to_fan g) = st_metrics (app g)"
    by (simp_all add: to_fan_def)
  have "registry_ok (fs_registry (process_nats_message vl sl now msg (to_fan g))) (st_next_chan (app g)) (conns_at 1 (conns g) dep)"
    using e(1) registry_okD [OF old] e(2) unfolding registry_ok_def fan_ok_def t by blast
  then show ?thesis using assms e(3,4) by (simp add: books_def from_fan_def t conns_ok_def)
qed

lemma books_serve:
  assumes "serve_step env g g'" and "books limit (app g) (conns g) dep arr"
  shows "books limit (app g') (conns g') dep arr"
  using assms
proof (induction rule: serve_step.induct)
  case (serve_event g c cn ev)
  then have "dep c = None" by (intro departing_okD [OF booksD(2) [OF serve_event(3)] serve_event(1)]) simp
  from books_local [OF serve_event(3,1) this frame_effect_event [of _ _ env "cn_ctx cn" ev]] show ?case
    by (simp add: set_local_def fun_upd_def)
next
  case (serve_send g c cn b ping)
  then have "dep c = None" by (intro departing_okD [OF booksD(2) [OF serve_send(3)] serve_send(1)]) simp
  from books_local [OF serve_send(3,1) this frame_effect_send [of _ _ "cn_ctx cn"]] show ?case
    by (simp add: set_local_def fun_upd_def)
next
  case (serve_broadcast g now msg)
  then show ?case using books_broadcast by (simp add: from_fan_def)
next
  case (serve_heartbeat g h)
  then show ?case by (auto intro: books_same)
next
  case (serve_replay g renv permit calls lseq fetches cs)
  then show ?case by (auto simp: replay_task_active intro: books_same)
next
  case (serve_outbound g cs)
  then show ?case by (auto intro: books_same)
qed

lemma books_acquire:
  assumes b: "books limit st cs dep arr" and "try_acquire (st_limiter st) ip = (True, l)" and "arr k = None"
  shows "books limit (st\<lparr>st_limiter := l\<rparr>) cs dep (arr(k \<mapsto> Acquired ip protocol token))"
proof -
  have "slots_held cs dep (arr(k \<mapsto> Acquired ip protocol token)) = (slots_held cs dep arr)(ip := slots_held cs dep arr ip + 1)"
    using card_arriving_new [OF booksD(3) [OF b] assms(3), of "Acquired ip protocol token"] by (auto simp: slots_held_def fun_eq_iff)
  with slots_match_acquire [OF booksD(4) [OF b] assms(2)] booksD(3) [OF b] show ?thesis
    by (intro books_limiter [OF b]) simp_all
qed

lemma books_refusing:
  assumes b: "books limit st cs dep arr" and "arr k = Some (Refusing ip)" and "release_dec (st_limiter st) ip = (z, l)"
    and "arr' = (if z then arr(k \<mapsto> Refused ip) else arr(k := None))"
  shows "books limit (st\<lparr>st_limiter := l\<rparr>) cs dep arr'"
proof (rule books_limiter [OF b])
  have fin: "finite (dom arr)" by (rule booksD(3) [OF b])
  then show "finite (dom arr')" using assms(4) by simp
  have "arr' = arr(k := None) \<or> (\<exists>a'. arr' = arr(k \<mapsto> a') \<and> \<not> holds_slot a')"
    using assms(4) by (metis holds_slot.simps(1))
  from card_arriving_end [OF fin assms(2) _ this]
  have "card (arriving_from arr k') = card (arriving_from arr' k') + (if k' = ip then 1 else 0)" for k' by simp
  then show "slots_match limit l (slots_held cs dep arr')"
    by (intro slots_match_release [OF booksD(4) [OF b] assms(3)]) (simp add: slots_held_def)
qed

lemma books_arrival_same:
  assumes "books limit st cs dep arr" and "arr k = Some a" and "arrival_ip a' = arrival_ip a" and "holds_slot a' = holds_slot a"
  shows "books limit st cs dep (arr(k \<mapsto> a'))"
proof -
  have "slots_held cs dep (arr(k \<mapsto> a')) = slots_held cs dep arr"
    using arriving_same [of arr k, OF assms(2-4)] by (simp add: slots_held_def fun_eq_iff)
  with assms(1) show ?thesis by (simp add: books_def)
qed

lemma books_arrival_gone:
  assumes "books limit st cs dep arr" and "arr k = Some (Refused ip)"
  shows "books limit (st\<lparr>st_limiter := release_cleanup (st_limiter st) ip\<rparr>) cs dep (arr(k := None))"
proof -
  have "slots_held cs dep (arr(k := None)) = slots_held cs dep arr"
    using arriving_drop [of arr k, OF assms(2)] by (simp add: slots_held_def fun_eq_iff)
  with booksD(3,4) [OF assms(1)] slots_match_cleanup show ?thesis by (intro books_limiter [OF assms(1)]) simp_all
qed

lemma books_admit:
  assumes b: "books limit st cs dep arr" and k: "arr k = Some (Authenticated ip protocol who)"
    and room: "unat (next_id (st_registry st)) + 1 < 2 ^ 64" and acc: "accept env ip protocol who st = Some (cn, st')"
  shows "books limit st' (cs(conn_id (cn_ctx cn) \<mapsto> cn)) dep (arr(k := None))"
proof -
  let ?r = "st_registry st" and ?c = "next_id (st_registry st)" and ?n = "st_next_chan st"
  note e = accept_effect [OF acc]
  obtain x where reg: "st_registry st' = register (snd (allocate_id ?r)) ?c ?n x ?n" using e by blast
  have new: "cs ?c = None" using booksD(1) [OF b] by (cases "cs ?c") (auto simp: conns_ok_def)
  have dep: "dep ?c = None" by (rule departing_ok_none [OF booksD(2) [OF b] new])
  have loc: "heartbeats (cn_local cn) = []" using e by (simp add: init_local_def)
  have above: "c < ?c + 1" if "c \<le> ?c" for c
    using that unat_u64_inc [OF room] by (simp add: word_less_nat_alt word_le_nat_alt)
  note fin = booksD(8) [OF b] and none = conns_at_none [of cs ?c _ dep, OF new]
  have "conns_ok (st_registry st') (cs(?c \<mapsto> cn))"
    using booksD(1) [OF b] e loc above by (auto simp: conns_ok_def reg register_def allocate_id_def less_imp_le)
  moreover have "departing_ok (cs(?c \<mapsto> cn)) dep" using booksD(2) [OF b] dep by (auto simp: departing_ok_def)
  moreover have "slots_held (cs(?c \<mapsto> cn)) dep (arr(k := None)) = slots_held cs dep arr"
    using card_conns_from_new [OF conns_at_finite [OF fin] none, of 3 cn] card_arriving_end [OF booksD(3) [OF b] k, of "arr(k := None)"] e
    by (auto simp: slots_held_def fun_eq_iff dep)
  moreover have "card (dom (conns_at 2 (cs(?c \<mapsto> cn)) dep)) = Suc (card (dom (conns_at 2 cs dep)))"
    using conns_at_finite [OF fin, of 2] none [of 2] by (simp add: dep domIff)
  moreover have "registry_ok (st_registry st') (st_next_chan st') ((conns_at 1 cs dep)(?c \<mapsto> cn))"
    using registry_ok_register [OF booksD(6) [OF b] none reg] e by simp
  moreover have "owns_of (conns_at 0 (cs(?c \<mapsto> cn)) dep) = owns_of (conns_at 0 cs dep)"
    using conns_new(3) [of "conns_at 0 cs dep" ?c cn, OF none loc] by (simp add: dep)
  ultimately show ?thesis
    using booksD(3-5,7) [OF b] e unfolding books_def by (simp add: conns_at_update [of dep, OF dep])
qed

lemma slots_held_cong: "conns_at 3 cs dep = conns_at 3 cs' dep' \<Longrightarrow> slots_held cs dep arr = slots_held cs' dep' arr"
  by (rule ext) (simp add: slots_held_def)

text \<open>A connection that stops, or goes on to the next point of its departure, keeps what it has not given up yet.\<close>

lemma departing_ok_next:
  "departing_ok cs dep \<Longrightarrow> cs c = Some cn \<Longrightarrow> in_pc (cn_local cn) = In_stopped \<Longrightarrow> departing_ok cs (dep(c \<mapsto> d))"
  by (auto simp: departing_ok_def)

lemma books_next:
  assumes "books limit st cs dep arr" and "departing_ok cs (dep(c \<mapsto> d))"
    and "\<And>n. n \<le> 3 \<Longrightarrow> still n (Some d) = still n (dep c)"
  shows "books limit st cs (dep(c \<mapsto> d)) arr"
proof -
  have "conns_at n cs (dep(c \<mapsto> d)) = conns_at n cs dep" if "n \<le> 3" for n
    using assms(3) [OF that] by (rule conns_at_stays)
  with assms(1,2) slots_held_cong [of cs "dep(c \<mapsto> d)" cs dep arr] show ?thesis by (simp add: books_def)
qed

lemma departing_stopped:
  "departing_ok cs dep \<Longrightarrow> dep c = Some d \<Longrightarrow> departing_ok cs (dep(c \<mapsto> d'))"
  by (auto simp: departing_ok_def)

lemma books_quiet:
  assumes b: "books limit st cs dep arr" and c: "cs c = Some cn" "dep c = Some (Clearing [])"
    and pm: "hb_tasks pm = (\<lambda>h. if h \<in> snd ` set (heartbeats (cn_local cn)) then None else hb_tasks (st_presence st) h)"
      "hb_next pm = hb_next (st_presence st)"
  shows "books limit (st\<lparr>st_presence := pm\<rparr>) cs (dep(c \<mapsto> Leaving)) arr"
proof -
  have stays: "conns_at n cs (dep(c \<mapsto> Leaving)) = conns_at n cs dep" if "1 \<le> n" for n
    using that c(2) by (intro conns_at_stays) simp
  have ok: "hm_ok (heartbeats (cn_local cn))" using booksD(1) [OF b] c(1) by (auto simp: conns_ok_def)
  have own: "owns_of (conns_at 0 cs dep) c = map_of (heartbeats (cn_local cn))"
    using c by (simp add: owns_of_def conns_at_def)
  have "conns_at 0 cs (dep(c \<mapsto> Leaving)) = (conns_at 0 cs dep)(c := None)" by (rule conns_at_leaves) simp
  then have "owns_of (conns_at 0 cs (dep(c \<mapsto> Leaving))) = (owns_of (conns_at 0 cs dep))(c := Map.empty)"
    by (auto simp: owns_of_def fun_eq_iff)
  moreover have "hb_inv (hb_tasks pm) (hb_next pm) ((owns_of (conns_at 0 cs dep))(c := Map.empty))"
    using hb_inv_exit [OF booksD(7) [OF b], of c] unfolding own ran_map_of [OF ok] pm .
  ultimately show ?thesis
    using b departing_stopped [OF booksD(2) [OF b] c(2), of Leaving]
      slots_held_cong [of cs "dep(c \<mapsto> Leaving)" cs dep arr, OF stays] by (simp add: books_def stays)
qed

lemma books_leave:
  assumes b: "books limit st cs dep arr" and c: "cs c = Some cn" "dep c = Some Leaving"
  shows "books limit (st\<lparr>st_registry := fst (deregister (st_registry st) c), st_chans := ch\<rparr>) cs (dep(c \<mapsto> Uncounting)) arr"
proof -
  have stays: "conns_at n cs (dep(c \<mapsto> Uncounting)) = conns_at n cs dep" if "n \<noteq> 1" for n
    using that c(2) by (intro conns_at_stays) auto
  have "conns_at 1 cs (dep(c \<mapsto> Uncounting)) = (conns_at 1 cs dep)(c := None)" by (rule conns_at_leaves) simp
  moreover have "registry_ok (fst (deregister (st_registry st) c)) (st_next_chan st) ((conns_at 1 cs dep)(c := None))"
    using booksD(6) [OF b] unfolding registry_ok_def senders_distinct_def
    by (auto simp: deregister_frame inv_intros split: if_splits)
  moreover have "conns_ok (fst (deregister (st_registry st) c)) cs"
    using booksD(1) [OF b] by (simp add: conns_ok_def deregister_frame)
  ultimately show ?thesis
    using b departing_stopped [OF booksD(2) [OF b] c(2), of Uncounting]
      slots_held_cong [of cs "dep(c \<mapsto> Uncounting)" cs dep arr, OF stays] by (simp add: books_def stays)
qed

lemma books_uncount:
  assumes b: "books limit st cs dep arr" and c: "cs c = Some cn" "dep c = Some Uncounting"
  shows "books limit (st\<lparr>st_metrics := (st_metrics st)\<lparr>connections_active := connections_active (st_metrics st) - 1\<rparr>\<rparr>) cs (dep(c \<mapsto> Releasing)) arr"
proof -
  have stays: "conns_at n cs (dep(c \<mapsto> Releasing)) = conns_at n cs dep" if "n \<noteq> 2" for n
    using that c(2) by (intro conns_at_stays) auto
  have "conns_at 2 cs (dep(c \<mapsto> Releasing)) = (conns_at 2 cs dep)(c := None)" by (rule conns_at_leaves) simp
  moreover have "c \<in> dom (conns_at 2 cs dep)" "finite (dom (conns_at 2 cs dep))"
    using c conns_at_finite [OF booksD(8) [OF b]] by (simp_all add: conns_at_dom domIff)
  moreover from this have "0 < card (dom (conns_at 2 cs dep))" by (auto simp: card_gt_0_iff)
  ultimately have "int (card (dom (conns_at 2 cs dep))) - 1 = int (card (dom (conns_at 2 cs (dep(c \<mapsto> Releasing)))))"
    by (simp add: card_Diff_singleton)
  then show ?thesis
    using b departing_stopped [OF booksD(2) [OF b] c(2), of Releasing]
      slots_held_cong [of cs "dep(c \<mapsto> Releasing)" cs dep arr, OF stays] by (simp add: books_def stays)
qed

lemma books_release:
  assumes b: "books limit st cs dep arr" and c: "cs c = Some cn" "dep c = Some Releasing"
    and rel: "release_dec (st_limiter st) (cn_ip cn) = (z, l)" and d: "4 \<le> departure_rank d"
  shows "books limit (st\<lparr>st_limiter := l\<rparr>) cs (dep(c \<mapsto> d)) arr"
proof -
  have stays: "conns_at n cs (dep(c \<mapsto> d)) = conns_at n cs dep" if "n < 3" for n
    using that c(2) d by (intro conns_at_stays) auto
  have leaves: "conns_at 3 cs (dep(c \<mapsto> d)) = (conns_at 3 cs dep)(c := None)" using d by (intro conns_at_leaves) simp
  have "conns_at 3 cs dep c = Some cn" using c by (simp add: conns_at_Some)
  then have "slots_held cs dep arr ip = slots_held cs (dep(c \<mapsto> d)) arr ip + (if ip = cn_ip cn then 1 else 0)" for ip
    using card_conns_from_gone [OF conns_at_finite [OF booksD(8) [OF b]], of 3 dep c cn ip] by (simp add: slots_held_def leaves)
  from slots_match_release [OF booksD(4) [OF b] rel this]
  show ?thesis
    using b departing_stopped [OF booksD(2) [OF b] c(2), of d] by (simp add: books_def stays)
qed

lemma books_hang_up:
  assumes b: "books limit st cs dep arr" and c: "cs c = Some cn" "dep c = Some Hanging_up"
  shows "books limit (st\<lparr>st_chans := ch\<rparr>) (cs(c := None)) (dep(c := None)) arr"
proof -
  have "conns_at n (cs(c := None)) (dep(c := None)) = conns_at n cs dep" if "n \<le> 3" for n
    using that c(2) by (intro conns_at_gone) simp
  moreover have "conns_ok (st_registry st) (cs(c := None))" "departing_ok (cs(c := None)) (dep(c := None))"
    using booksD(1,2) [OF b] by (auto simp: conns_ok_def departing_ok_def)
  ultimately show ?thesis using b slots_held_cong [of "cs(c := None)" "dep(c := None)" cs dep arr] by (simp add: books_def)
qed

lemma books_departure:
  assumes b: "books limit st cs dep arr" and c: "cs c = Some cn" "dep c = Some d"
    and step: "departure_step cn d st = (Some d', st')"
  shows "books limit st' cs (dep(c \<mapsto> d')) arr"
proof -
  have id: "conn_id (cn_ctx cn) = c" using booksD(1) [OF b] c(1) by (simp add: conns_ok_def)
  note stopped = departing_stopped [OF booksD(2) [OF b] c(2)]
  show ?thesis
  proof (cases d)
    case (Clearing ss)
    show ?thesis
    proof (cases ss)
      case Nil
      with Clearing step have "d' = Leaving"
        "st' = st\<lparr>st_presence := fold (\<lambda>h pm. drop_heartbeat pm h) (map snd (heartbeats (cn_local cn))) (st_presence st)\<rparr>" by simp_all
      then show ?thesis using books_quiet [OF b c(1)] c(2) Clearing Nil by (simp add: drop_heartbeats_tasks cong: if_cong)
    next
      case (Cons t ts)
      have "books limit st' cs dep arr" by (rule books_same [OF b]) (use step Clearing Cons in \<open>auto split: option.splits\<close>)
      moreover have "d' = Clearing ts" using step Clearing Cons by simp
      ultimately show ?thesis using stopped c(2) Clearing by (intro books_next) auto
    qed
  next
    case Leaving
    then show ?thesis using books_leave [OF b c(1)] c(2) step id by (auto simp: split_beta Let_def)
  next
    case Uncounting
    then show ?thesis using books_uncount [OF b c(1)] c(2) step by (auto simp: Let_def)
  next
    case Releasing
    obtain z l where rel: "release_dec (st_limiter st) (cn_ip cn) = (z, l)" by fastforce
    from books_release [OF b c(1) _ rel, of d'] Releasing step c(2) rel show ?thesis by (auto split: if_splits)
  next
    case Cleaning
    have "books limit st' cs dep arr"
      using step Cleaning books_limiter [OF b booksD(3) [OF b] slots_match_cleanup [OF booksD(4) [OF b]]] by auto
    moreover have "d' = Hanging_up" using step Cleaning by simp
    ultimately show ?thesis using stopped c(2) Cleaning by (intro books_next) auto
  next
    case Hanging_up
    then show ?thesis using step by (simp add: Let_def)
  qed
qed

lemma books_arrival:
  assumes b: "books limit st cs dep arr" and k: "arr k = Some a" and step: "arrival_step env a st = Some (res, st')"
  shows "res = Next a' \<Longrightarrow> books limit st' cs dep (arr(k \<mapsto> a'))"
    and "res = Closed \<Longrightarrow> books limit st' cs dep (arr(k := None))"
    and "res = Admitted cn \<Longrightarrow> unat (next_id (st_registry st)) + 1 < 2 ^ 64 \<Longrightarrow>
      books limit st' (cs(conn_id (cn_ctx cn) \<mapsto> cn)) dep (arr(k := None))"
proof -
  show "books limit st' cs dep (arr(k \<mapsto> a'))" if r: "res = Next a'"
  proof (cases a)
    case (Acquired ip protocol token)
    obtain who st1 where auth: "authenticate env token st = (who, st1)" by fastforce
    with Acquired step r have st: "st' = st1" "arrival_ip a' = arrival_ip a" "holds_slot a' = holds_slot a"
      by (auto split: sum.splits)
    have "books limit st' cs dep arr" unfolding st(1) using authenticate_frame [OF auth] by (intro books_same [OF b]) simp_all
    then show ?thesis using k st(2,3) by (rule books_arrival_same)
  next
    case (Refusing ip)
    obtain z l where rel: "release_dec (st_limiter st) ip = (z, l)" by fastforce
    with step Refusing r have "z" "a' = Refused ip" "st' = st\<lparr>st_limiter := l\<rparr>" by (auto split: if_splits)
    then show ?thesis using books_refusing [OF b _ rel, of k] k Refusing by simp
  qed (use step r in \<open>auto split: option.splits\<close>)
  show "books limit st' cs dep (arr(k := None))" if r: "res = Closed"
  proof (cases a)
    case (Refusing ip)
    obtain z l where rel: "release_dec (st_limiter st) ip = (z, l)" by fastforce
    with step Refusing r have "\<not> z" "st' = st\<lparr>st_limiter := l\<rparr>" by (auto split: if_splits)
    then show ?thesis using books_refusing [OF b _ rel, of k] k Refusing by simp
  next
    case (Refused ip)
    then show ?thesis using books_arrival_gone [OF b] k step by auto
  qed (use step r in \<open>auto split: option.splits sum.splits prod.splits\<close>)
  show "books limit st' (cs(conn_id (cn_ctx cn) \<mapsto> cn)) dep (arr(k := None))"
    if r: "res = Admitted cn" "unat (next_id (st_registry st)) + 1 < 2 ^ 64"
  proof (cases a)
    case (Authenticated ip protocol who)
    with step r(1) have "accept env ip protocol who st = Some (cn, st')" by (auto split: option.splits)
    then show ?thesis using books_admit [OF b _ r(2)] k Authenticated by simp
  qed (use step r in \<open>auto simp: Let_def split: sum.splits prod.splits if_splits\<close>)
qed

lemma set_app_simps [simp]:
  "sk_gateway (set_app st s) = (sk_gateway s)\<lparr>app := st\<rparr>" "sk_arriving (set_app st s) = sk_arriving s"
  "sk_departing (set_app st s) = sk_departing s"
  by (simp_all add: set_app_def)

lemma departure_last: "departure_step cn d st = (None, st') \<Longrightarrow> d = Hanging_up"
  by (induction cn d st rule: departure_step.induct) (auto simp: Let_def split_beta)

lemma sk_inv_step: "sk_step env s s' \<Longrightarrow> sk_inv limit s \<Longrightarrow> sk_inv limit s'"
proof (induction rule: sk_step.induct)
  case (sk_over_limit s ip l)
  then have "books limit ((sk_app s)\<lparr>st_limiter := l\<rparr>) (sk_conns s) (sk_departing s) (sk_arriving s)"
    unfolding sk_inv_def using slots_match_refused by (blast intro: books_limiter dest: booksD(3,4))
  then show ?case unfolding sk_inv_def by (auto simp: count_rejected_def intro: books_same)
next
  case (sk_acquire s ip l k protocol token)
  then show ?case using books_acquire by (simp add: sk_inv_def)
next
  case (sk_arrival s k a a' st)
  then show ?case unfolding sk_inv_def by (auto intro: books_arrival(1))
next
  case (sk_closed s k a st)
  then show ?case unfolding sk_inv_def by (auto intro: books_arrival(2))
next
  case (sk_admitted s k a cn st)
  then show ?case unfolding sk_inv_def by (auto intro: books_arrival(3))
next
  case (sk_serve s g)
  then show ?case using books_serve by (simp add: sk_inv_def)
next
  case (sk_stop s c cn)
  then have "departing_ok (sk_conns s) ((sk_departing s)(c \<mapsto> Clearing (presence_streams env cn)))"
    unfolding sk_inv_def by (intro departing_ok_next) (auto dest: booksD(2))
  then show ?case using sk_stop unfolding sk_inv_def by (simp add: books_next)
next
  case (sk_departure s c cn d d' st)
  then show ?case unfolding sk_inv_def by (auto intro: books_departure)
next
  case (sk_gone s c cn d st)
  then have "d = Hanging_up" by (auto dest: departure_last)
  with sk_gone books_hang_up show ?case by (auto simp: sk_inv_def Let_def)
qed

lemma sk_inv_quiet: "sk_arriving s = Map.empty \<Longrightarrow> sk_departing s = Map.empty \<Longrightarrow> sk_inv limit s \<longleftrightarrow> gw_inv limit (sk_gateway s)"
  by (auto simp: sk_inv_def books_def gw_inv_def departing_ok_def slots_match_def slots_ok_def slots_held_def arriving_from_def)

lemma sk_inv_reach: "sk_reach env limit rl s \<Longrightarrow> sk_inv limit s"
  by (induction rule: rtranclp_induct) (auto simp: sk_inv_quiet sockets_init_def gw_inv_init intro: sk_inv_step)

section \<open>The gateway's steps are runs of these\<close>

text \<open>A socket that has the node for itself does what \<open>handle_socket_start\<close> and \<open>handle_socket_end\<close> say.\<close>

definition at_rest :: "gateway \<Rightarrow> sockets" where
  "at_rest g = \<lparr>sk_gateway = g, sk_arriving = Map.empty, sk_departing = Map.empty\<rparr>"

definition arriving_at :: "gateway \<Rightarrow> arrival \<Rightarrow> sockets" where
  "arriving_at g a = \<lparr>sk_gateway = g, sk_arriving = [0 \<mapsto> a], sk_departing = Map.empty\<rparr>"

definition departing_at :: "gateway \<Rightarrow> u64 \<Rightarrow> departure \<Rightarrow> sockets" where
  "departing_at g c d = \<lparr>sk_gateway = g, sk_arriving = Map.empty, sk_departing = [c \<mapsto> d]\<rparr>"

lemma solo_acquire:
  "try_acquire (st_limiter (app g)) ip = (True, l) \<Longrightarrow>
   sk_step env (at_rest g) (arriving_at (g\<lparr>app := (app g)\<lparr>st_limiter := l\<rparr>\<rparr>) (Acquired ip protocol token))"
  using sk_acquire [of "at_rest g" ip l 0 env protocol token] by (simp add: at_rest_def arriving_at_def set_app_def)

lemma solo_arrival:
  assumes "arrival_step env a (app g) = Some (res, st)"
  shows "res = Next a' \<Longrightarrow> sk_step env (arriving_at g a) (arriving_at (g\<lparr>app := st\<rparr>) a')"
    and "res = Closed \<Longrightarrow> sk_step env (arriving_at g a) (at_rest (g\<lparr>app := st\<rparr>))"
    and "res = Admitted cn \<Longrightarrow> unat (next_id (st_registry (app g))) + 1 < 2 ^ 64 \<Longrightarrow>
      sk_step env (arriving_at g a) (at_rest (g\<lparr>app := st, conns := (conns g)(conn_id (cn_ctx cn) \<mapsto> cn)\<rparr>))"
  using sk_arrival [of "arriving_at g a" 0 a env a' st] sk_closed [of "arriving_at g a" 0 a env st]
    sk_admitted [of "arriving_at g a" 0 a env cn st] assms
  by (simp_all add: at_rest_def arriving_at_def set_app_def)

lemma solo_departure:
  assumes "conns g c = Some cn" and "departure_step cn d (app g) = (res, st)"
  shows "res = Some d' \<Longrightarrow> sk_step env (departing_at g c d) (departing_at (g\<lparr>app := st\<rparr>) c d')"
    and "res = None \<Longrightarrow> sk_step env (departing_at g c d) (at_rest (g\<lparr>app := st, conns := (conns g)(c := None)\<rparr>))"
  using sk_departure [of "departing_at g c d" c cn d d' st env] sk_gone [of "departing_at g c d" c cn d st env] assms
  by (simp_all add: at_rest_def departing_at_def set_app_def)

lemma solo_refused:
  "(sk_step env)\<^sup>*\<^sup>* (arriving_at g (Refusing ip)) (at_rest (g\<lparr>app := (app g)\<lparr>st_limiter := release (st_limiter (app g)) ip\<rparr>\<rparr>))"
proof -
  obtain z l where rel: "release_dec (st_limiter (app g)) ip = (z, l)" by fastforce
  let ?st = "(app g)\<lparr>st_limiter := l\<rparr>"
  show ?thesis
  proof (cases z)
    case True
    have "sk_step env (arriving_at g (Refusing ip)) (arriving_at (g\<lparr>app := ?st\<rparr>) (Refused ip))"
      using rel True by (intro solo_arrival(1) [of _ _ _ "Next (Refused ip)"]) simp_all
    moreover have "sk_step env (arriving_at (g\<lparr>app := ?st\<rparr>) (Refused ip))
      (at_rest (g\<lparr>app := ?st, app := ?st\<lparr>st_limiter := release_cleanup l ip\<rparr>\<rparr>))"
      by (intro solo_arrival(2) [of _ _ _ Closed]) simp_all
    ultimately show ?thesis using rel True by (simp add: release_def)
  next
    case False
    have "sk_step env (arriving_at g (Refusing ip)) (at_rest (g\<lparr>app := ?st\<rparr>))"
      using rel False by (intro solo_arrival(2) [of _ _ _ Closed]) simp_all
    then show ?thesis using rel False by (simp add: release_def)
  qed
qed

lemma solo_start:
  assumes "handle_socket_start env protocol token ip (app g) = Some (res, st)"
  shows "res = Rejected code reason \<Longrightarrow> (sk_step env)\<^sup>*\<^sup>* (at_rest g) (at_rest (g\<lparr>app := st\<rparr>))"
    and "res = Accepted cn \<Longrightarrow> unat (next_id (st_registry (app g))) + 1 < 2 ^ 64 \<Longrightarrow>
      (sk_step env)\<^sup>*\<^sup>* (at_rest g) (at_rest (g\<lparr>app := st, conns := (conns g)(conn_id (cn_ctx cn) \<mapsto> cn)\<rparr>))"
proof -
  obtain ok l where acq: "try_acquire (st_limiter (app g)) ip = (ok, l)" by fastforce
  let ?st1 = "(app g)\<lparr>st_limiter := l\<rparr>" and ?g1 = "g\<lparr>app := (app g)\<lparr>st_limiter := l\<rparr>\<rparr>"
  obtain who st2 where auth: "authenticate env token ?st1 = (who, st2)" by fastforce
  let ?g2 = "?g1\<lparr>app := st2\<rparr>"
  have first: "(sk_step env)\<^sup>*\<^sup>* (at_rest g) (arriving_at ?g2 a)" if ok and "a = (case who of Inl _ \<Rightarrow> Refusing ip | Inr w \<Rightarrow> Authenticated ip protocol w)" for a
  proof -
    have "sk_step env (at_rest g) (arriving_at ?g1 (Acquired ip protocol token))" using acq that(1) by (simp add: solo_acquire)
    moreover have "sk_step env (arriving_at ?g1 (Acquired ip protocol token)) (arriving_at ?g2 a)"
      using auth that(2) by (intro solo_arrival(1) [of _ _ _ "Next a"]) (auto split: sum.splits)
    ultimately show ?thesis by simp
  qed
  show "(sk_step env)\<^sup>*\<^sup>* (at_rest g) (at_rest (g\<lparr>app := st\<rparr>))" if "res = Rejected code reason"
  proof (cases ok)
    case True
    with assms acq auth that obtain r where who: "who = Inl r" and st: "st = st2\<lparr>st_limiter := release (st_limiter st2) ip\<rparr>"
      by (auto simp: handle_socket_start_def split: sum.splits option.splits)
    show ?thesis using rtranclp_trans [OF first [OF True] solo_refused [of env ?g2 ip]] who st by simp
  next
    case False
    with assms acq have "st = count_rejected ?st1" by (simp add: handle_socket_start_def)
    with sk_over_limit [of "at_rest g" ip l env] acq False show ?thesis by (auto simp: at_rest_def set_app_def)
  qed
  show "(sk_step env)\<^sup>*\<^sup>* (at_rest g) (at_rest (g\<lparr>app := st, conns := (conns g)(conn_id (cn_ctx cn) \<mapsto> cn)\<rparr>))"
    if res: "res = Accepted cn" and room: "unat (next_id (st_registry (app g))) + 1 < 2 ^ 64"
  proof -
    from assms acq auth res obtain w where ok and who: "who = Inr w" and acc: "accept env ip protocol w st2 = Some (cn, st)"
      by (auto simp: handle_socket_start_def Let_def split: sum.splits option.splits if_splits)
    have "st_registry st2 = st_registry (app g)" using authenticate_frame [OF auth] by simp
    then have "sk_step env (arriving_at ?g2 (Authenticated ip protocol w)) (at_rest (?g2\<lparr>app := st, conns := (conns ?g2)(conn_id (cn_ctx cn) \<mapsto> cn)\<rparr>))"
      using room acc by (intro solo_arrival(3) [of _ _ _ "Admitted cn"]) simp_all
    with first [OF \<open>ok\<close>, of "Authenticated ip protocol w"] who show ?thesis by simp
  qed
qed

lemma solo_clear:
  assumes "conns g c = Some cn" and "user_id (cn_ctx cn) = Some uid"
  shows "(sk_step env)\<^sup>*\<^sup>* (departing_at g c (Clearing ss))
    (departing_at (g\<lparr>app := (app g)\<lparr>st_presence := fold (\<lambda>stream pm. presence_delete pm stream uid) ss (st_presence (app g))\<rparr>\<rparr>) c (Clearing []))"
  using assms(1)
proof (induction ss arbitrary: g)
  case (Cons t ts)
  let ?g = "g\<lparr>app := (app g)\<lparr>st_presence := presence_delete (st_presence (app g)) t uid\<rparr>\<rparr>"
  have "sk_step env (departing_at g c (Clearing (t # ts))) (departing_at ?g c (Clearing ts))"
    using Cons.prems assms(2) by (intro solo_departure(1) [of _ _ cn]) simp_all
  with Cons.IH [of ?g] Cons.prems show ?case by (simp add: converse_rtranclp_into_rtranclp)
qed simp

lemma solo_cleared:
  assumes c: "conns g c = Some cn"
  shows "(sk_step env)\<^sup>*\<^sup>* (departing_at g c (Clearing (presence_streams env cn)))
    (departing_at (g\<lparr>app := inbound_exit env (cn_ctx cn) (app g) (cn_local cn)\<rparr>) c Leaving)"
proof -
  let ?g = "g\<lparr>app := (app g)\<lparr>st_presence := delete_presence env (cn_ctx cn) (app g) (cn_local cn)\<rparr>\<rparr>"
  have "(sk_step env)\<^sup>*\<^sup>* (departing_at g c (Clearing (presence_streams env cn))) (departing_at ?g c (Clearing []))"
    using solo_clear [OF c, of _ env "presence_streams env cn"]
    by (cases "user_id (cn_ctx cn)"; cases "ae_presence env") (simp_all add: presence_streams_def delete_presence_def)
  moreover have "sk_step env (departing_at ?g c (Clearing []))
    (departing_at (?g\<lparr>app := inbound_exit env (cn_ctx cn) (app g) (cn_local cn)\<rparr>) c Leaving)"
    using c by (intro solo_departure(1) [of _ _ cn]) (simp_all add: inbound_exit_def)
  ultimately show ?thesis by simp
qed

lemma solo_release:
  assumes c: "conns g c = Some cn"
  shows "(sk_step env)\<^sup>*\<^sup>* (departing_at g c Releasing)
    (departing_at (g\<lparr>app := (app g)\<lparr>st_limiter := release (st_limiter (app g)) (cn_ip cn)\<rparr>\<rparr>) c Hanging_up)"
proof -
  obtain z l where rel: "release_dec (st_limiter (app g)) (cn_ip cn) = (z, l)" by fastforce
  let ?g = "g\<lparr>app := (app g)\<lparr>st_limiter := l\<rparr>\<rparr>"
  have "sk_step env (departing_at g c Releasing) (departing_at ?g c (if z then Cleaning else Hanging_up))"
    using c rel by (intro solo_departure(1) [of _ _ cn]) simp_all
  moreover have "sk_step env (departing_at ?g c Cleaning)
    (departing_at (?g\<lparr>app := (app ?g)\<lparr>st_limiter := release_cleanup l (cn_ip cn)\<rparr>\<rparr>) c Hanging_up)"
    using c by (intro solo_departure(1) [of _ _ cn]) simp_all
  ultimately show ?thesis using rel by (cases z) (auto simp: release_def)
qed

lemma solo_end:
  assumes c: "conns g c = Some cn" and "in_pc (cn_local cn) = In_stopped"
  shows "(sk_step env)\<^sup>*\<^sup>* (at_rest g) (at_rest (g\<lparr>app := handle_socket_end env cn (app g), conns := (conns g)(c := None)\<rparr>))"
proof -
  define st1 where "st1 = inbound_exit env (cn_ctx cn) (app g) (cn_local cn)"
  obtain r gone where der: "deregister (st_registry st1) (conn_id (cn_ctx cn)) = (r, gone)" by fastforce
  define st2 where "st2 = st1\<lparr>st_registry := r, st_chans := (case gone of None \<Rightarrow> st_chans st1 | Some e \<Rightarrow> drop_entry e (st_chans st1))\<rparr>"
  define st3 where "st3 = st2\<lparr>st_metrics := (st_metrics st2)\<lparr>connections_active := connections_active (st_metrics st2) - 1\<rparr>\<rparr>"
  define st4 where "st4 = st3\<lparr>st_limiter := release (st_limiter st3) (cn_ip cn)\<rparr>"
  have last: "departure_step cn Hanging_up st4 = (None, handle_socket_end env cn (app g))"
    using der [unfolded st1_def] by (simp add: handle_socket_end_def Let_def st4_def st3_def st2_def st1_def split: option.split)
  have "sk_step env (at_rest g) (departing_at g c (Clearing (presence_streams env cn)))"
    using sk_stop [of "at_rest g" c cn env] assms by (simp add: at_rest_def departing_at_def)
  also have "(sk_step env)\<^sup>*\<^sup>* \<dots> (departing_at (g\<lparr>app := st1\<rparr>) c Leaving)"
    unfolding st1_def by (rule solo_cleared [OF c])
  also have "sk_step env \<dots> (departing_at (g\<lparr>app := st1, app := st2\<rparr>) c Uncounting)"
    using c der by (intro solo_departure(1) [of _ _ cn]) (simp_all add: st2_def)
  also have "sk_step env \<dots> (departing_at (g\<lparr>app := st1, app := st2, app := st3\<rparr>) c Releasing)"
    using c by (intro solo_departure(1) [of _ _ cn]) (simp_all add: st3_def Let_def)
  also have "(sk_step env)\<^sup>*\<^sup>* \<dots> (departing_at (g\<lparr>app := st4\<rparr>) c Hanging_up)"
    using solo_release [of "g\<lparr>app := st3\<rparr>" c cn env] c by (simp add: st4_def)
  also have "sk_step env \<dots> (at_rest (g\<lparr>app := st4, app := handle_socket_end env cn (app g), conns := (conns g)(c := None)\<rparr>))"
    using solo_departure(2) [OF _ _ refl, of "g\<lparr>app := st4\<rparr>" c cn Hanging_up] c last by auto
  finally show ?thesis by simp
qed

lemma serve_reach: "serve_step env g g' \<Longrightarrow> (sk_step env)\<^sup>*\<^sup>* (at_rest g) (at_rest g')"
  using sk_serve [of env "at_rest g" g'] by (auto simp: at_rest_def)

lemma gw_step_refined: "gw_step env g g' \<Longrightarrow> (sk_step env)\<^sup>*\<^sup>* (at_rest g) (at_rest g')"
proof (induction rule: gw_step.induct)
  case (gw_send g c cn)
  show ?case
  proof (cases "in_pc (cn_local cn)")
    case (In_sending b ping)
    with gw_send show ?thesis by (blast intro: serve_reach serve_send)
  qed (use gw_send in \<open>auto simp: inbound_send_def set_local_def fun_upd_idem\<close>)
qed (blast intro: solo_start [OF _ refl] solo_end serve_reach serve_step.intros)+

lemma gw_reach_sockets: "gw_reach env limit rl g \<Longrightarrow> sk_reach env limit rl (at_rest g)"
  by (induction rule: gw_reach.induct) (auto simp: sockets_init_def at_rest_def dest: gw_step_refined [unfolded at_rest_def])

section \<open>Properties\<close>

text \<open>
  C2. The books balance between any two steps of any sockets, in the middle of admissions and teardowns too. The count of
  an address is the number of its connections that have not released their slot yet and of its
  sockets that are being authenticated or refused, and stays within the limit; the gauge is the number of connections that have
  not been uncounted; only connections that have not deregistered are in the registry, whose maps agree; a heartbeat
  runs exactly for the presence a connection still has. When no socket is left nothing is: no count,
  no gauge, no registered connection, no stream and no heartbeat.
\<close>

theorem sockets_books_balance:
  assumes "sk_reach env limit rl s"
  shows "(\<forall>ip. unat (count_for (st_limiter (sk_app s)) ip) = slots_held (sk_conns s) (sk_departing s) (sk_arriving s) ip \<and>
       slots_held (sk_conns s) (sk_departing s) (sk_arriving s) ip \<le> unat limit) \<and>
    connections_active (st_metrics (sk_app s)) = int (card (dom (conns_at 2 (sk_conns s) (sk_departing s)))) \<and>
    reg_inv (st_registry (sk_app s)) \<and> senders_distinct (st_registry (sk_app s)) \<and>
    members (st_registry (sk_app s)) \<subseteq> dom (conns_at 1 (sk_conns s) (sk_departing s)) \<and>
    dom (hb_tasks (st_presence (sk_app s))) = {h. \<exists>c i. owns_of (conns_at 0 (sk_conns s) (sk_departing s)) c i = Some h} \<and>
    (sk_conns s = Map.empty \<and> sk_arriving s = Map.empty \<longrightarrow>
       (\<forall>ip. count_for (st_limiter (sk_app s)) ip = 0) \<and> connections_active (st_metrics (sk_app s)) = 0 \<and>
       connections (st_registry (sk_app s)) = Map.empty \<and> streams (st_registry (sk_app s)) = Map.empty \<and>
       hb_tasks (st_presence (sk_app s)) = Map.empty)"
proof -
  have inv: "sk_inv limit s" using assms by (rule sk_inv_reach)
  note b = inv [unfolded sk_inv_def] and ok = booksD(6) [OF inv [unfolded sk_inv_def]] and hb = booksD(7) [OF inv [unfolded sk_inv_def]]
  have slots: "\<forall>ip. unat (count_for (st_limiter (sk_app s)) ip) = slots_held (sk_conns s) (sk_departing s) (sk_arriving s) ip \<and>
       slots_held (sk_conns s) (sk_departing s) (sk_arriving s) ip \<le> unat limit"
    using booksD(4) [OF b] by (simp add: slots_match_def)
  have mem: "members (st_registry (sk_app s)) \<subseteq> dom (conns_at 1 (sk_conns s) (sk_departing s))"
    using registry_okD [OF ok] by (force simp: members_def)
  have tasks: "dom (hb_tasks (st_presence (sk_app s))) = {h. \<exists>c i. owns_of (conns_at 0 (sk_conns s) (sk_departing s)) c i = Some h}"
    using hb_invD(1,5) [OF hb] by blast
  have idle: "(\<forall>ip. count_for (st_limiter (sk_app s)) ip = 0) \<and> connections_active (st_metrics (sk_app s)) = 0 \<and>
       connections (st_registry (sk_app s)) = Map.empty \<and> streams (st_registry (sk_app s)) = Map.empty \<and>
       hb_tasks (st_presence (sk_app s)) = Map.empty"
    if e: "sk_conns s = Map.empty" "sk_arriving s = Map.empty"
  proof -
    have "sk_departing s = Map.empty" using booksD(2) [OF b] e(1) by (simp add: fun_eq_iff departing_ok_none)
    then have "gw_inv limit (sk_gateway s)" using inv e(2) by (simp add: sk_inv_quiet)
    from idle_registry [OF this e(1)] slots tasks booksD(5) [OF b] e show ?thesis
      by (simp add: slots_held_def conns_from_def arriving_from_def owns_of_def unat_eq_zero)
  qed
  show ?thesis using slots mem tasks idle booksD(5) [OF b] ok by (simp add: registry_ok_def)
qed

lemma sk_reach_held:
  "\<exists>s cn. sk_reach demo_env 2 None s \<and> sk_conns s = [1 \<mapsto> cn] \<and> cn_ip cn = V4 1 \<and> sk_departing s = Map.empty \<and>
     sk_arriving s = [0 \<mapsto> Acquired (V4 1) SUB_PROTOCOL_JSON None]"
proof -
  obtain g cn where g: "gw_reach demo_env 2 None g" "conns g = [1 \<mapsto> cn]" "cn_ip cn = V4 1" using demo_reach_open by blast
  have "conns_from (conns g) (V4 1) = {1}" using g(2,3) by (auto simp: conns_from_def split: if_splits)
  then have "unat (count_for (st_limiter (app g)) (V4 1)) = 1" "max_per_ip (st_limiter (app g)) = 2"
    using gw_inv_reach [OF g(1)] by (simp_all add: gw_inv_def slots_ok_def)
  then have "fst (try_acquire (st_limiter (app g)) (V4 1))" by (simp add: lim.acquire_iff)
  then obtain l where acq: "try_acquire (st_limiter (app g)) (V4 1) = (True, l)" by (cases "try_acquire (st_limiter (app g)) (V4 1)") auto
  let ?s = "arriving_at (g\<lparr>app := (app g)\<lparr>st_limiter := l\<rparr>\<rparr>) (Acquired (V4 1) SUB_PROTOCOL_JSON None)"
  have "sk_reach demo_env 2 None ?s" using gw_reach_sockets [OF g(1)] solo_acquire [OF acq] by (rule rtranclp.rtrancl_into_rtrancl)
  with g(2,3) show ?thesis by (intro exI [of _ ?s] exI [of _ cn]) (simp add: arriving_at_def)
qed

theorem sockets_books_balance_witness:
  "\<exists>s. sk_reach demo_env 2 None s \<and> dom (sk_conns s) = {1} \<and> dom (sk_arriving s) = {0} \<and>
     unat (count_for (st_limiter (sk_app s)) (V4 1)) = 2 \<and> connections_active (st_metrics (sk_app s)) = 1"
proof -
  obtain s cn where s: "sk_reach demo_env 2 None s" "sk_conns s = [1 \<mapsto> cn]" "cn_ip cn = V4 1" "sk_departing s = Map.empty"
    "sk_arriving s = [0 \<mapsto> Acquired (V4 1) SUB_PROTOCOL_JSON None]" using sk_reach_held by blast
  have "conns_from (sk_conns s) (V4 1) = {1}" "arriving_from (sk_arriving s) (V4 1) = {0}"
    using s(2,3,5) by (auto simp: conns_from_def arriving_from_def split: if_splits)
  with sockets_books_balance [OF s(1)] s show ?thesis by (intro exI [of _ s]) (simp add: slots_held_def)
qed

end
