(* ===== verification/Spec2Isabelle.thy ===== *)
theory Spec2Isabelle
  imports Registry_Steps Wire Process Node Sockets
begin

text \<open>
  A verification library of turbocable-server, a WebSocket gateway that fans JetStream broadcasts out to
  ActionCable clients (the crate under \<open>src/src\<close>).

  \<^bold>\<open>The program.\<close> \<open>server.rs\<close> starts a node from the configuration: the token verifier, the per-address
  connection limiter, the registry, the JetStream consumer, presence, and the HTTP routes. A client that
  upgrades is admitted by \<open>handle_socket\<close> in \<open>connection/handler.rs\<close>: it takes a slot of the limiter, is
  authenticated, gets four channels and a registry entry, and then has two tasks. The inbound task
  decodes frames and changes the registry, presence and the publish queue; the outbound task writes what
  arrives on the channels to the socket. The consumer task takes broadcasts from JetStream, asks the
  rate limiter, and calls the registry's fan-out, which puts an encoded frame into the channel of every
  subscriber and evicts the subscribers whose channel is full. A client that resumes gets a replay task, which reads
  the missed messages from JetStream into the client's replay channel. On shutdown the tasks see a signal, and the server
  polls the registry until it is empty or thirty seconds have passed.

  \<^bold>\<open>Theories and sources.\<close>
  \<^item> \<open>Prelude\<close>, \<open>Rust_Std\<close>: types, saturating arithmetic, hash maps as association lists; the string functions of
    the standard library that the code uses (splitting, trimming, number parsing, UTF-8 validity).
  \<^item> \<open>Channels\<close>: the documented behaviour of bounded channels; contract \<open>bounded_queue\<close>.
  \<^item> \<open>Limiter\<close>: \<open>connection/limiter.rs\<close>, with \<open>release\<close> in its two separately locked halves.
  \<^item> \<open>Registry\<close>: \<open>connection/registry.rs\<close>; contracts for the subscription table and for the sends of the fan-out.
    \<open>Registry_Steps\<close>: the same calls as sequences of single map operations, interleaved, with the shard guards.
  \<^item> \<open>Protocol\<close>: \<open>protocol/*.rs\<close> and \<open>errors.rs\<close>. \<open>Wire\<close>: the objects of client frames, from the attributes of \<open>protocol/types.rs\<close>. \<open>Config\<close>, \<open>Command_Line\<close>: \<open>config.rs\<close>, the second how flags, variables and defaults become a configuration. \<open>Auth\<close>: \<open>auth/*.rs\<close>.
  \<^item> \<open>F64\<close>: rounding of \<open>f64\<close> to nearest even; contract \<open>rounding\<close>. \<open>Rate_Limiter\<close>: \<open>fanout/mod.rs\<close>. \<open>Metrics\<close>: \<open>metrics.rs\<close>. \<open>Presence\<close>: \<open>presence/mod.rs\<close>.
  \<^item> \<open>Nats\<close>: \<open>pubsub/nats.rs\<close> without replay. \<open>Replay\<close>: \<open>replay_since\<close> and the task that
    \<open>dispatch_command\<close> spawns for it.
  \<^item> \<open>Outbound\<close>: \<open>outbound_loop\<close> of \<open>connection/handler.rs\<close>, one step per await. \<open>Handler\<close>: the rest of that file.
  \<^item> \<open>Gateway\<close>: all tasks of a node over its shared state, as the step relation \<open>gw_step\<close>. \<open>Sockets\<close>: the same with admission and teardown in their parts, \<open>sk_step\<close>.
  \<^item> \<open>Server\<close>: start-up, handlers and drain of \<open>server.rs\<close>, \<open>raise_fd_limit\<close> of \<open>main.rs\<close>, the loop of \<open>bin/publish.rs\<close>. \<open>Process\<close>: the listener, the routes, the signals,
    \<open>run\<close> as a whole, \<open>main\<close>, the publisher's arguments.
  \<^item> \<open>Access\<close>: invariants of the node about tokens, and delivery from broadcast to socket. \<open>Node\<close>: the node with the key
    watcher of \<open>auth/key_watcher.rs\<close> running beside it.

  Records carry the fields of the structs, functions the names of the operations where the logic allows
  it (\<open>limiter_new\<close>, \<open>rate_check\<close>, \<open>nats_connect\<close> and the like where a name is taken). An operation takes the state and returns it;
  an error is the left side of a sum, a panic is \<open>None\<close> or \<open>Panicked\<close>. Logging is left out.

  \<^bold>\<open>What is shown.\<close>
  \<^item> The registry refines a set of members and a relation of subscriptions; fan-out reaches exactly the subscribers
    with room, in their encoding, and evicts exactly the others (C6, C7, C17, C33).
    Its calls are linearizable when their single operations interleave, and they return (C5, C16).
  \<^item> The limiter counts the slots held under every interleaving and never exceeds its maximum (C15).
  \<^item> Frames reach the socket in order, catch-up before live, eviction and shutdown are served in bounded
    time (C8, C22, C23, C24); and the loop does not end once its replay channel is closed (C25).
  \<^item> Replay sends exactly the missed messages, ordered, up to its cap, tests the retention window exactly,
    and ends with one answer and one count (C9, C19, C20, C21).
  \<^item> The consumer delivers what the limiter passes to every subscriber with room and acknowledges everything (C13, C36); the rate
    limiter keeps its bound up to rounding, never drops conforming traffic and computes with normal numbers only (C14, C37, C30), but
    a burst that is too large for a double to count switches it off (C38).
  \<^item> Key and published PEM agree under concurrent rotation, patterns mean what they say, no subscription happens without
    authorisation, every subscribe is answered once, a refusal leaves no trace, publishing is unchecked (C29, C31, C12,
    C18, C34, C35).
  \<^item> In every reachable state of the node the slots, the gauge, the registry and the heartbeats agree with the
    live connections, between the parts of an admission or a teardown too, and an idle node holds nothing (C1, C2); every subscription is backed by a
    verified token while the key is rotated, and a rotated key is the one enforced (C3, C10); and a consumed broadcast reaches the sockets (C4).
  \<^item> Start-up never drops a configured key, the settings that make admission panic are known, draining ends, and the process ends as its calls determine (C11, C40, C28, C26, C27).
  \<^item> The objects of client frames and the settings of a configuration are read back exactly (C32, C39).
  \<^item> Further theorems without a number: streams are limited apart from each other, a disabled limiter is exactly one that
    never refuses, the first free slots are granted, the watcher keeps the last valid key, stream keys and sub-protocols are chosen as documented,
    the metrics register without a panic, the override syntax round-trips.

  \<^bold>\<open>Contracts.\<close> The locales state what one component relies on of another: \<open>bounded_queue\<close> (interpreted by the channels),
  \<open>slot_pool\<close> (the limiter), \<open>subscription_table\<close> (the registry), \<open>fanout_channels\<close> (the channels of a node) and \<open>rounding\<close> (doubles) are each
  interpreted on the definitions that translate the code, and the properties use the interpreted facts.

  \<^bold>\<open>Bounds and termination.\<close> There is no fuel except where the code itself has a cap (10000 replayed messages, a burst of 512).
  Loops over external input recurse over the list of what the input yields. The drain loop, which the code leaves by count or
  deadline, is a \<open>partial_function\<close>, and C28 shows that it returns. The interleaved calls of the registry
  end by a multiset order on their program points. Identifiers and counters are 64-bit words; the
  admissions of \<open>gw_step\<close> and C6 exclude the wrap-around of the identifier counter.

  \<^bold>\<open>Abstractions.\<close> A double is a rational that rounding leaves unchanged; its exponent is unbounded, which C30 shows to make no
  difference. In \<open>gw_step\<close> a registry call is one step, which C5 justifies and so are the admission and the end of
  a connection, which \<open>Sockets\<close> takes apart; \<open>gw_reach_sockets\<close> shows that \<open>gw_step\<close> is what it does when no socket is interrupted. The
  sharding of the maps is arbitrary but fixed, and memory is sequentially consistent. In \<open>gw_step\<close> the outbound and replay tasks may leave the
  channels with any contents, which only adds behaviours.

  \<^bold>\<open>Parameters.\<close> The serde codecs, the JWT library, the NATS client, the Prometheus registry, the sockets and the clocks
  are arguments: functions, results of calls, or sequences of what they yield.

  \<^bold>\<open>Not modelled.\<close> The matching of routes in \<open>server.rs\<close> (calls to axum), the delivery of signals, the splitting of the argument vector into flags (clap), the byte formats of the codecs,
  logging and the allocator in \<open>main.rs\<close>, scheduler yields and delays, the connection query of the NATS
  client, module declarations, and the fuzz targets, which only call the decoders.
\<close>

section \<open>A configured node\<close>

definition demo_calls :: server_calls where
  "demo_calls = \<lparr>sv_read_file = (\<lambda>p. if p = ''key.pem'' then Inr ''A'' else Inl ''not found''),
     sv_key_kv = \<lparr>kv_connect = Inr (), kv_open = Inr (), kv_get = Inr None, kv_watch = Inr [Inr ''BB'']\<rparr>,
     sv_nats_connect = Inr (), sv_nats_stream = (\<lambda>_. Inr ()), sv_presence_connect = Inr (), sv_presence_get = Inr (),
     sv_presence_create = Inr (), sv_listener = (\<lambda>_. Inr ()), sv_local_addr = Inr ()\<rparr>"

definition demo_config :: config where
  "demo_config = (config_default ''n'')\<lparr>jwt_public_key_path := Some ''key.pem''\<rparr>"

lemma demo_startup: "\<exists>env g. run_startup demo_jwt (ae_serde demo_env) (ae_values demo_env) demo_calls demo_config = Started (env, g)"
proof -
  have "\<not> MAX_PERMITS < 1000" using MAX_PERMITS_ge [of 1000] by simp
  then show ?thesis
    by (simp add: run_startup_def init_jwt_verifier_def demo_config_def config_default_def demo_calls_def from_rsa_pem_def
        demo_jwt_def start_nats_key_watcher_def build_state_def Let_def)
qed

lemma live_queue_open:
  "\<exists>g cn. gw_reach demo_env 2 None g \<and> conns g = [1 \<mapsto> cn] \<and> in_pc (cn_local cn) = In_select \<and>
     queue (byte_chans (st_chans (app g)) (live_tx (cn_ctx cn))) = [''frame'']"
proof -
  obtain cn st where a: "handle_socket_start demo_env SUB_PROTOCOL_JSON None (V4 1) (app (gateway_init 2 None)) = Some (Accepted cn, st)"
    using demo_accept by blast
  have c: "cn_local cn = init_local" "conn_id (cn_ctx cn) = 1"
    using admission_effect [OF a] by (simp_all add: gateway_init_def registry_new_def)
  have "unat (next_id (st_registry (app (gateway_init 2 None)))) + 1 < 2 ^ 64" by (simp add: gateway_init_def registry_new_def)
  from gw_accept [OF this a] have r: "gw_reach demo_env 2 None ((gateway_init 2 None)\<lparr>app := st, conns := (conns (gateway_init 2 None))(1 \<mapsto> cn)\<rparr>)"
    using gw_next [OF gw_start] by (simp add: c(2))
  have "queue (byte_chans (st_chans st) (live_tx (cn_ctx cn))) = [''frame'']"
    using a
    by (auto simp: handle_socket_start_def authenticate_def demo_env_def accept_def split_beta Let_def open_channels_def
        new_chans_def chan_new_def codec_for_protocol_def send_welcome_def encode_opt_def json_codec_def chan_send_def
        clone_sender_def chan_clone_sender_def inc_metric_def split: if_splits option.splits)
  with r c show ?thesis
    by (intro exI [of _ "(gateway_init 2 None)\<lparr>app := st, conns := (conns (gateway_init 2 None))(1 \<mapsto> cn)\<rparr>"] exI [of _ cn])
       (simp add: init_local_def gateway_init_def)
qed

definition demo_auth :: "nat jwt_libs" where
  "demo_auth = demo_jwt\<lparr>jwt_decode := (\<lambda>t k v. if t = ''tok'' then
     Inr \<lparr>sub_claim = ''u'', allowed_streams = [''room''], exp_claim = 9, iat_claim = 1\<rparr> else Inl InvalidSignature)\<rparr>"

lemma demo_start:
  "\<exists>g v. run_startup demo_auth (ae_serde demo_env) (ae_values demo_env) demo_calls demo_config =
     Started (make_env demo_auth (ae_serde demo_env) (ae_values demo_env) demo_config (Some v) True True, g) \<and>
     from_rsa_pem demo_auth ''A'' = Inr v \<and>
     verify demo_auth v ''tok'' = Inr \<lparr>sub_claim = ''u'', allowed_streams = [''room''], exp_claim = 9, iat_claim = 1\<rparr>"
proof -
  have "\<not> MAX_PERMITS < 1000" using MAX_PERMITS_ge [of 1000] by simp
  then show ?thesis
    by (simp add: run_startup_def init_jwt_verifier_def demo_config_def config_default_def demo_calls_def from_rsa_pem_def
        demo_jwt_def demo_auth_def start_nats_key_watcher_def build_state_def init_nats_consumer_def nats_connect_def
        init_presence_def presence_connect_def verify_def rw_lock_new_def Let_def)
qed

lemma accepted_codec:
  "handle_socket_start env protocol token ip st = Some (Accepted cn, st') \<Longrightarrow>
     codec_for_protocol (ae_serde env) protocol = Some (ctx_codec (cn_ctx cn))"
  by (auto simp: handle_socket_start_def accept_def split_beta Let_def split: if_splits sum.splits option.splits)

text \<open>A client of the node connects with its token and subscribes.\<close>

lemma demo_connected:
  assumes "env = make_env demo_auth (ae_serde demo_env) (ae_values demo_env) demo_config (Some v) True True"
    and "verify demo_auth v ''tok'' = Inr \<lparr>sub_claim = ''u'', allowed_streams = [''room''], exp_claim = 9, iat_claim = 1\<rparr>"
  shows "\<exists>g cn. gw_reach env 10 None g \<and> conns g 1 = Some cn \<and> cn_local cn = init_local \<and> conn_id (cn_ctx cn) = 1 \<and>
    ctx_allowed_streams (cn_ctx cn) = [''room''] \<and> ctx_codec (cn_ctx cn) = json_codec (ae_serde demo_env) \<and>
    1 \<in> members (st_registry (app g))"
proof -
  let ?g = "gateway_init 10 None"
  let ?st = "(app ?g)\<lparr>st_limiter := snd (try_acquire (st_limiter (app ?g)) (V4 1))\<rparr>"
  have e: "ae_jwt_verifier env = Some v" "ae_jwt_libs env = demo_auth" "ae_serde env = ae_serde demo_env"
    "ae_ws_channel_capacity env = 4096" "ae_ws_replay_channel_capacity env = 4096" "ae_ping_interval_secs env = 30"
    by (simp_all add: assms(1) make_env_def demo_config_def config_default_def)
  have ok: "fst (try_acquire (st_limiter (app ?g)) (V4 1))"
    by (simp add: lim.acquire_iff gateway_init_def limiter_new_def count_for_def)
  obtain st2 where auth: "authenticate env (Some ''tok'') ?st = (Inr ([''room''], Some ''u''), st2)"
    using assms(2) by (simp add: authenticate_def e Let_def)
  have "accept env (V4 1) SUB_PROTOCOL_JSON ([''room''], Some ''u'') st2 \<noteq> None"
    by (rule accept_not_None) (simp_all add: e codec_for_protocol_def MAX_PERMITS_ge)
  with ok auth obtain cn st where a: "handle_socket_start env SUB_PROTOCOL_JSON (Some ''tok'') (V4 1) (app ?g) = Some (Accepted cn, st)"
    by (auto simp: handle_socket_start_def split_beta Let_def)
  have c: "cn_local cn = init_local" "conn_id (cn_ctx cn) = 1"
    using admission_effect [OF a] by (simp_all add: gateway_init_def registry_new_def)
  obtain b where "st_registry st = register (snd (allocate_id (st_registry (app ?g)))) 1 (st_next_chan (app ?g)) b (st_next_chan (app ?g))"
    using admission_effect [OF a] by (auto simp: gateway_init_def registry_new_def)
  then have m: "1 \<in> members (st_registry st)" by (simp add: members_def register_def)
  have al: "ctx_allowed_streams (cn_ctx cn) = [''room'']" using accepted_verified [OF a e(1)] by (auto simp: e(2) demo_auth_def verify_def split: if_splits)
  have co: "ctx_codec (cn_ctx cn) = json_codec (ae_serde demo_env)"
    using accepted_codec [OF a] by (simp add: e(3) codec_for_protocol_def)
  have "unat (next_id (st_registry (app ?g))) + 1 < 2 ^ 64" by (simp add: gateway_init_def registry_new_def)
  from gw_accept [OF this a] have "gw_reach env 10 None (?g\<lparr>app := st, conns := (conns ?g)(1 \<mapsto> cn)\<rparr>)"
    using gw_next [OF gw_start] by (simp add: c(2))
  with c m al co show ?thesis by (intro exI [of _ "?g\<lparr>app := st, conns := (conns ?g)(1 \<mapsto> cn)\<rparr>"] exI [of _ cn]) simp
qed

lemma demo_subscribed:
  "\<exists>env g0 g. run_startup demo_auth (ae_serde demo_env) (ae_values demo_env) demo_calls demo_config = Started (env, g0) \<and>
     gw_reach env 10 None g \<and> (1, ''room'') \<in> subs_rel (st_registry (app g))"
proof -
  obtain env g0 v where s: "run_startup demo_auth (ae_serde demo_env) (ae_values demo_env) demo_calls demo_config = Started (env, g0)"
    and env: "env = make_env demo_auth (ae_serde demo_env) (ae_values demo_env) demo_config (Some v) True True"
    and v: "verify demo_auth v ''tok'' = Inr \<lparr>sub_claim = ''u'', allowed_streams = [''room''], exp_claim = 9, iat_claim = 1\<rparr>"
    using demo_start by blast
  obtain g cn where g: "gw_reach env 10 None g" "conns g 1 = Some cn" "cn_local cn = init_local" "conn_id (cn_ctx cn) = 1"
    "ctx_allowed_streams (cn_ctx cn) = [''room'']" "ctx_codec (cn_ctx cn) = json_codec (ae_serde demo_env)"
    "1 \<in> members (st_registry (app g))" using demo_connected [OF env v] by blast
  let ?res = "inbound_event env (cn_ctx cn) (In_message (Text ''sub'')) (app g) (cn_local cn)"
  have "gw_reach env 10 None (set_local g 1 cn ?res)"
    using g(1) gw_event [of g 1 cn] g(2,3) by (intro gw_next [OF g(1)] gw_event) (simp_all add: init_local_def)
  moreover have "decode (ctx_codec (cn_ctx cn)) ''sub'' = Inr (Command (Subscribe ''room''))"
    by (simp add: g(6) json_codec_def demo_env_def)
  moreover have "is_allowed [''room''] ''room''" by code_simp
  moreover have "reg_inv (st_registry (app g))" using gw_inv_reach [OF g(1)] by (simp add: gw_inv_def registry_ok_def)
  ultimately show ?thesis
    using s g(4,5,7)
    by (intro exI [of _ env] exI [of _ g0] exI [of _ "set_local g 1 cn ?res"])
       (simp add: set_local_def handle_frame_registry reg_effect_def subscribe_admitted_def regt.rel_sub env make_env_def
         demo_config_def config_default_def stream_key_from_identifier_def demo_env_def requires_hello_first_def
         rejects_non_replay_subscribe_def)
qed

text \<open>After the client has subscribed, the watcher replaces the key.\<close>

lemma demo_rotated:
  "\<exists>env v0 g0 n. run_startup demo_auth (ae_serde demo_env) (ae_values demo_env) demo_calls demo_config = Started (env, g0) \<and>
     init_jwt_verifier demo_auth demo_calls demo_config = Started (Some (v0, [Inr ''BB''])) \<and>
     node_reach env (node_init v0 [Inr ''BB''] g0) n \<and> current_pem (kverifier (nd_key n)) = ''BB'' \<and> key_guard (nd_key n) = None \<and>
     (1, ''room'') \<in> subs_rel (st_registry (app (nd_gateway n))) \<and> current_pem v0 = ''A''"
proof -
  obtain env g0 g where s: "run_startup demo_auth (ae_serde demo_env) (ae_values demo_env) demo_calls demo_config = Started (env, g0)"
    and g: "gw_reach env 10 None g" "(1, ''room'') \<in> subs_rel (st_registry (app g))"
    using demo_subscribed by blast
  define v0 :: "nat jwt_verifier" where "v0 = \<lparr>vkey = rw_lock_new 1, vpem = rw_lock_new ''A'',
    vvalidation = \<lparr>val_algorithm = RS256, required_spec_claims = [''exp'', ''sub'', ''iat'']\<rparr>\<rparr>"
  have i: "init_jwt_verifier demo_auth demo_calls demo_config = Started (Some (v0, [Inr ''BB'']))"
    by (simp add: init_jwt_verifier_def demo_config_def demo_calls_def from_rsa_pem_def demo_auth_def demo_jwt_def
        start_nats_key_watcher_def v0_def)
  have env: "env_with env v0 = env" "ae_jwt_libs env = demo_auth"
    using started_node_inv(2,4) [OF s i rtranclp.rtrancl_refl] by simp_all
  have rl: "build_rate_limiter demo_config = None" "max_connections_per_ip demo_config = 10"
    by (simp_all add: build_rate_limiter_def demo_config_def config_default_def parse_stream_rate_overrides_def is_disabled_def
        rate_limiter_new_def u64_as_f64_def Let_def)
  then have g0: "g0 = gateway_init 10 None" by - (rule run_startup_env [OF s], simp)
  let ?n = "(node_init v0 [Inr ''BB''] g0)\<lparr>nd_gateway := g\<rparr>"
  let ?k = "\<lparr>kverifier = set_key v0 2, key_guard = Some ''BB''\<rparr>"
  let ?n1 = "?n\<lparr>nd_key := ?k, nd_watch := [], nd_pems := [current_pem v0] @ [''BB'']\<rparr>"
  let ?n2 = "?n1\<lparr>nd_key := \<lparr>kverifier = set_pem (set_key v0 2) ''BB'', key_guard = None\<rparr>\<rparr>"
  have "node_reach env (node_init v0 [Inr ''BB''] g0) ?n" unfolding g0 by (rule gw_reach_node_reach [OF g(1) env(1)])
  moreover have "node_step env ?n ?n1"
    using node_rotate_begin [of ?n "''BB''" "[]" env 2]
    by (simp add: node_init_def env(2) demo_auth_def demo_jwt_def v0_def rw_lock_new_def)
  moreover have "node_step env ?n1 ?n2" using node_rotate_end [of ?n1 "''BB''" env] by simp
  ultimately have "node_reach env (node_init v0 [Inr ''BB''] g0) ?n2" by (meson rtranclp.rtrancl_into_rtrancl)
  with s i g(2) show ?thesis
    by (intro exI [of _ env] exI [of _ v0] exI [of _ g0] exI [of _ ?n2])
       (simp add: current_pem_def set_pem_def set_key_def v0_def rw_lock_new_def)
qed

section \<open>Properties across components\<close>

text \<open>
  Every subscription is backed by a token. Start a node with a key path. In every state it can reach, each entry
  of the subscription table belongs to a live connection that was admitted with a token which the verifier of the configured key
  accepts, and is the stream key of an identifier that a pattern of that token's claims allows.
\<close>

theorem subscriptions_authorised:
  assumes "run_startup libs sl vl calls cfg = Started (env, g0)" and "jwt_public_key_path cfg = Some path"
    and "gw_reach env (max_connections_per_ip cfg) rl g" and "(c, s) \<in> subs_rel (st_registry (app g))"
  shows "\<exists>pem v t claims i cn. sv_read_file calls path = Inr pem \<and> from_rsa_pem libs pem = Inr v \<and>
    verify libs v t = Inr claims \<and> conns g c = Some cn \<and> user_id (cn_ctx cn) = Some (sub_claim claims) \<and>
    is_allowed (allowed_streams claims) i \<and> s = stream_key_from_identifier vl i"
proof -
  obtain jwt where jwt: "init_jwt_verifier libs calls cfg = Started jwt"
    and env: "env = make_env libs sl vl cfg (map_option fst jwt) (init_nats_consumer calls cfg) (init_presence calls)"
    using assms(1) by (rule run_startup_env)
  obtain pem v w where v: "sv_read_file calls path = Inr pem" "from_rsa_pem libs pem = Inr v" "jwt = Some (v, w)"
    using init_jwt_from_file [OF jwt assms(2)] by blast
  have e: "ae_jwt_verifier env = Some v" "ae_jwt_libs env = libs" "ae_values env = vl" by (simp_all add: env v(3) make_env_def)
  have acc: "access_inv (conn_verified env) env g" using assms(3) by (rule access_inv_reach)
  then obtain cn i where i: "conns g c = Some cn" "is_allowed (ctx_allowed_streams (cn_ctx cn)) i" "s = stream_key_from_identifier vl i"
    using assms(4) unfolding access_inv_def subs_backed_def e(3) by blast
  have "conn_verified env (cn_ctx cn)" using acc i(1) by (simp add: access_inv_def conns_all_def)
  then obtain t claims where "verify libs v t = Inr claims" "ctx_allowed_streams (cn_ctx cn) = allowed_streams claims"
    "user_id (cn_ctx cn) = Some (sub_claim claims)"
    using e(1,2) by (auto simp: conn_verified_def)
  with v(1,2) i show ?thesis by metis
qed

theorem subscriptions_authorised_witness:
  "\<exists>env g0 g v t claims. run_startup demo_auth (ae_serde demo_env) (ae_values demo_env) demo_calls demo_config = Started (env, g0) \<and>
     gw_reach env 10 None g \<and> (1, ''room'') \<in> subs_rel (st_registry (app g)) \<and> from_rsa_pem demo_auth ''A'' = Inr v \<and> verify demo_auth v t = Inr claims"
proof -
  obtain env g0 g where s: "run_startup demo_auth (ae_serde demo_env) (ae_values demo_env) demo_calls demo_config = Started (env, g0)"
    and g: "gw_reach env 10 None g" "(1, ''room'') \<in> subs_rel (st_registry (app g))"
    using demo_subscribed by blast
  have c: "jwt_public_key_path demo_config = Some ''key.pem''" "max_connections_per_ip demo_config = 10"
    by (simp_all add: demo_config_def config_default_def)
  have "sv_read_file demo_calls ''key.pem'' = Inr ''A''" by (simp add: demo_calls_def)
  with subscriptions_authorised [OF s c(1) _ g(2), unfolded c(2), OF g(1)]
  obtain v t claims where "from_rsa_pem demo_auth ''A'' = Inr v" "verify demo_auth v t = Inr claims" by auto
  with s g show ?thesis by blast
qed

text \<open>
  C3. Every subscription is backed by a token, under key rotation. Start a node with a key, from its file or from the key bucket, and let its
  watcher replace the key at any time. In every state the node can reach, each entry of the subscription
  table belongs to a live connection that was admitted with a token which the verifier of the first key or of a valid entry of
  the watched bucket accepts, and is the stream key of an identifier that a pattern of that token's claims allows.
\<close>

theorem rotated_subscriptions_authorised:
  assumes "run_startup libs sl vl calls cfg = Started (env, g0)"
    and "init_jwt_verifier libs calls cfg = Started (Some (v0, watch))"
    and "node_reach env (node_init v0 watch g0) n" and "(c, s) \<in> subs_rel (st_registry (app (nd_gateway n)))"
  shows "\<exists>pem v t claims i cn. pem \<in> set (current_pem v0 # valid_pems libs watch) \<and> from_rsa_pem libs pem = Inr v \<and>
    verify libs v t = Inr claims \<and> conns (nd_gateway n) c = Some cn \<and> user_id (cn_ctx cn) = Some (sub_claim claims) \<and>
    is_allowed (allowed_streams claims) i \<and> s = stream_key_from_identifier vl i"
proof -
  note inv = started_node_inv [OF assms(1-3)]
  have "access_inv (admitted_under libs (set (nd_pems n))) env (nd_gateway n)"
    and pems: "nd_pems n @ valid_pems libs (nd_watch n) = current_pem v0 # valid_pems libs watch"
    using inv(1) by (simp_all add: node_inv_def inv(2))
  moreover from this(1) obtain cn i where i: "conns (nd_gateway n) c = Some cn" "is_allowed (ctx_allowed_streams (cn_ctx cn)) i"
    "s = stream_key_from_identifier vl i"
    using assms(4) unfolding access_inv_def subs_backed_def inv(3) by blast
  ultimately have "admitted_under libs (set (nd_pems n)) (cn_ctx cn)" by (simp add: access_inv_def conns_all_def)
  then obtain pem v t claims where "pem \<in> set (nd_pems n)" "from_rsa_pem libs pem = Inr v" "verify libs v t = Inr claims"
    "ctx_allowed_streams (cn_ctx cn) = allowed_streams claims" "user_id (cn_ctx cn) = Some (sub_claim claims)"
    unfolding admitted_under_def by blast
  moreover from this(1) have "pem \<in> set (current_pem v0 # valid_pems libs watch)" unfolding pems [symmetric] by simp
  ultimately show ?thesis using i
    by (intro exI [of _ pem] exI [of _ v] exI [of _ t] exI [of _ claims] exI [of _ i] exI [of _ cn] conjI) simp_all
qed

theorem rotated_subscriptions_authorised_witness:
  "\<exists>env v0 g0 n. run_startup demo_auth (ae_serde demo_env) (ae_values demo_env) demo_calls demo_config = Started (env, g0) \<and>
     init_jwt_verifier demo_auth demo_calls demo_config = Started (Some (v0, [Inr ''BB''])) \<and>
     node_reach env (node_init v0 [Inr ''BB''] g0) n \<and> current_pem (kverifier (nd_key n)) = ''BB'' \<and>
     (1, ''room'') \<in> subs_rel (st_registry (app (nd_gateway n))) \<and>
     (\<exists>pem v t claims. pem \<in> {''A'', ''BB''} \<and> from_rsa_pem demo_auth pem = Inr v \<and> verify demo_auth v t = Inr claims)"
proof -
  obtain env v0 g0 n where n: "run_startup demo_auth (ae_serde demo_env) (ae_values demo_env) demo_calls demo_config = Started (env, g0)"
    "init_jwt_verifier demo_auth demo_calls demo_config = Started (Some (v0, [Inr ''BB'']))"
    "node_reach env (node_init v0 [Inr ''BB''] g0) n" "current_pem (kverifier (nd_key n)) = ''BB''"
    "(1, ''room'') \<in> subs_rel (st_registry (app (nd_gateway n)))" "current_pem v0 = ''A''"
    using demo_rotated by blast
  from rotated_subscriptions_authorised [OF n(1,2,3,5)] obtain pem v t claims
    where p: "pem \<in> set (current_pem v0 # valid_pems demo_auth [Inr ''BB''])"
      and v: "from_rsa_pem demo_auth pem = Inr v" "verify demo_auth v t = Inr claims" by blast
  have "set (current_pem v0 # valid_pems demo_auth [Inr ''BB'']) \<subseteq> {''A'', ''BB''}" by (simp add: n(6))
  with p have "pem \<in> {''A'', ''BB''}" by blast
  with v have "\<exists>pem v t claims. pem \<in> {''A'', ''BB''} \<and> from_rsa_pem demo_auth pem = Inr v \<and> verify demo_auth v t = Inr claims"
    by blast
  with n(1-5) show ?thesis by (intro exI [of _ env] exI [of _ v0] exI [of _ g0] exI [of _ n] conjI)
qed

text \<open>
  C10. Rotation takes effect at once and for everyone who connects later. In every state a node can reach, when no update
  is under way, the verifier is the one of the last valid key its watcher has delivered, or of the first key when there is
  none; \<open>/pubkey\<close> answers with exactly that key; and a connection is admitted only with a token that
  this verifier accepts, so no longer with one that only an older key accepts.
\<close>

theorem rotation_enforced:
  assumes "run_startup libs sl vl calls cfg = Started (env, g0)"
    and "init_jwt_verifier libs calls cfg = Started (Some (v0, watch))"
    and "node_reach env (node_init v0 watch g0) n" and "key_guard (nd_key n) = None"
  shows "\<exists>seen v. current_pem v0 # valid_pems libs watch = seen @ valid_pems libs (nd_watch n) \<and> seen \<noteq> [] \<and>
    from_rsa_pem libs (last seen) = Inr v \<and> kverifier (nd_key n) = v \<and>
    (utf8_valid (last seen) \<longrightarrow> pubkey_handler (env_with env v) =
       \<lparr>resp_status = 200, resp_content_type = Some ''application/x-pem-file'', resp_body = last seen\<rparr>) \<and>
    (\<forall>protocol token ip st cn st'. handle_socket_start (env_with env v) protocol token ip st = Some (Accepted cn, st') \<longrightarrow>
       (\<exists>t claims. token = Some t \<and> verify libs v t = Inr claims \<and> ctx_allowed_streams (cn_ctx cn) = allowed_streams claims))"
proof -
  note inv = started_node_inv [OF assms(1-3)]
  let ?v = "kverifier (nd_key n)"
  have v: "from_rsa_pem libs (last (nd_pems n)) = Inr ?v" using node_inv_key(2) [OF inv(1) assms(4)] by (simp add: inv(2))
  have pems: "nd_pems n @ valid_pems libs (nd_watch n) = current_pem v0 # valid_pems libs watch" "nd_pems n \<noteq> []"
    using inv(1) by (simp_all add: node_inv_def inv(2))
  have "utf8_valid (last (nd_pems n)) \<longrightarrow> pubkey_handler (env_with env ?v) =
      \<lparr>resp_status = 200, resp_content_type = Some ''application/x-pem-file'', resp_body = last (nd_pems n)\<rparr>"
    by (simp add: pubkey_handler_def from_rsa_pem_pem [OF v])
  moreover have "\<exists>t claims. token = Some t \<and> verify libs ?v t = Inr claims \<and> ctx_allowed_streams (cn_ctx cn) = allowed_streams claims"
    if "handle_socket_start (env_with env ?v) protocol token ip st = Some (Accepted cn, st')" for protocol token ip st cn st'
    using accepted_verified [OF that env_with_simps(2)] by (auto simp: inv(2))
  ultimately show ?thesis using v pems
    by (intro exI [of _ "nd_pems n"] exI [of _ ?v] conjI allI impI) simp_all
qed

theorem rotation_enforced_witness:
  "\<exists>env v0 g0 n v. run_startup demo_auth (ae_serde demo_env) (ae_values demo_env) demo_calls demo_config = Started (env, g0) \<and>
     node_reach env (node_init v0 [Inr ''BB''] g0) n \<and> from_rsa_pem demo_auth ''BB'' = Inr v \<and> kverifier (nd_key n) = v \<and>
     (\<forall>protocol ip st cn st'. handle_socket_start (env_with env v) protocol None ip st \<noteq> Some (Accepted cn, st'))"
proof -
  obtain env v0 g0 n where n: "run_startup demo_auth (ae_serde demo_env) (ae_values demo_env) demo_calls demo_config = Started (env, g0)"
    "init_jwt_verifier demo_auth demo_calls demo_config = Started (Some (v0, [Inr ''BB'']))"
    "node_reach env (node_init v0 [Inr ''BB''] g0) n" "current_pem (kverifier (nd_key n)) = ''BB''" "key_guard (nd_key n) = None"
    using demo_rotated by blast
  from rotation_enforced [OF n(1,2,3,5)] obtain seen v where s: "from_rsa_pem demo_auth (last seen) = Inr v" "kverifier (nd_key n) = v"
    "\<And>protocol ip st cn st'. handle_socket_start (env_with env v) protocol None ip st \<noteq> Some (Accepted cn, st')"
    by blast
  have "last seen = ''BB''" using from_rsa_pem_pem [OF s(1)] n(4) s(2) by simp
  with n(1,3) s show ?thesis
    by (intro exI [of _ env] exI [of _ v0] exI [of _ g0] exI [of _ n] exI [of _ v] conjI allI) simp_all
qed

text \<open>
  C11. A configured key is enforced. When the server starts with a key path, the verifier is built from the content
  of that file, \<open>/pubkey\<close> answers with it, and every connection admitted in that environment presented a non-empty token
  that this verifier accepts, and has exactly the streams and the user of its claims. A missing or
  invalid key file never leads to a server without authentication.
\<close>

theorem configured_key_enforced:
  assumes "run_startup libs sl vl calls cfg = Started (env, g)" and "jwt_public_key_path cfg = Some path"
  shows "\<exists>pem v. sv_read_file calls path = Inr pem \<and> from_rsa_pem libs pem = Inr v \<and>
    (utf8_valid pem \<longrightarrow> pubkey_handler env = \<lparr>resp_status = 200, resp_content_type = Some ''application/x-pem-file'', resp_body = pem\<rparr>) \<and>
    (\<forall>protocol token ip st cn st'. handle_socket_start env protocol token ip st = Some (Accepted cn, st') \<longrightarrow>
       (\<exists>t c. token = Some t \<and> t \<noteq> [] \<and> verify libs v t = Inr c \<and>
          ctx_allowed_streams (cn_ctx cn) = allowed_streams c \<and> user_id (cn_ctx cn) = Some (sub_claim c)))"
proof -
  obtain jwt where jwt: "init_jwt_verifier libs calls cfg = Started jwt"
    and env: "env = make_env libs sl vl cfg (map_option fst jwt) (init_nats_consumer calls cfg) (init_presence calls)"
    using assms(1) by (rule run_startup_env)
  obtain pem v w where v: "sv_read_file calls path = Inr pem" "from_rsa_pem libs pem = Inr v" "jwt = Some (v, w)"
    using init_jwt_from_file [OF jwt assms(2)] by blast
  have e: "ae_jwt_verifier env = Some v" "ae_jwt_libs env = libs" by (simp_all add: env v(3) make_env_def)
  have "utf8_valid pem \<longrightarrow> pubkey_handler env = \<lparr>resp_status = 200, resp_content_type = Some ''application/x-pem-file'', resp_body = pem\<rparr>"
    by (simp add: pubkey_handler_def e(1) from_rsa_pem_pem [OF v(2)])
  with v accepted_verified [OF _ e(1)] show ?thesis unfolding e(2) by blast
qed

theorem configured_key_enforced_witness:
  "\<exists>env g v. run_startup demo_jwt (ae_serde demo_env) (ae_values demo_env) demo_calls demo_config = Started (env, g) \<and>
     from_rsa_pem demo_jwt ''A'' = Inr v \<and> (\<forall>protocol ip st cn st'. handle_socket_start env protocol None ip st \<noteq> Some (Accepted cn, st'))"
proof -
  obtain env g where s: "run_startup demo_jwt (ae_serde demo_env) (ae_values demo_env) demo_calls demo_config = Started (env, g)"
    using demo_startup by blast
  have "jwt_public_key_path demo_config = Some ''key.pem''" by (simp add: demo_config_def)
  from configured_key_enforced [OF s this]
  obtain pem v where v: "sv_read_file demo_calls ''key.pem'' = Inr pem" "from_rsa_pem demo_jwt pem = Inr v"
    and no: "handle_socket_start env protocol None ip st \<noteq> Some (Accepted cn, st')" for protocol ip st cn st'
    by blast
  from v(1) have "pem = ''A''" by (simp add: demo_calls_def)
  with v(2) no s show ?thesis by blast
qed

text \<open>
  C40. Whether admission can panic is decided by three settings. On a node started from a configuration,
  building a connection panics if and only if a channel capacity is zero or above the largest semaphore,
  or the ping interval is zero, whatever protocol the client asks for, whoever it is, and whatever the state of the node.
\<close>

theorem admission_panics_iff:
  assumes "run_startup libs sl vl calls cfg = Started (env, g)"
  shows "accept env ip (fst (ws_upgrade requested)) who st = None \<longleftrightarrow> \<not> admission_config_ok cfg"
proof -
  have e: "ae_ws_channel_capacity env = ws_channel_capacity cfg" "ae_ws_replay_channel_capacity env = ws_replay_channel_capacity cfg"
    "ae_ping_interval_secs env = ping_interval_secs cfg"
    using assms by (auto elim!: run_startup_env simp: make_env_def)
  obtain c where "codec_for_protocol (ae_serde env) (fst (ws_upgrade requested)) = Some c" using ws_upgrade_codec by blast
  from accept_None_iff [OF this] show ?thesis unfolding e admission_config_ok_def by blast
qed

theorem admission_panics_iff_witness:
  "\<exists>env g. run_startup demo_jwt (ae_serde demo_env) (ae_values demo_env) demo_calls demo_config = Started (env, g) \<and>
     accept env (V4 1) (fst (ws_upgrade None)) ([], None) demo_app \<noteq> None"
proof -
  obtain env g where s: "run_startup demo_jwt (ae_serde demo_env) (ae_values demo_env) demo_calls demo_config = Started (env, g)"
    using demo_startup by blast
  have "admission_config_ok demo_config"
    using MAX_PERMITS_ge [of 4096] by (simp add: admission_config_ok_def demo_config_def config_default_def)
  with admission_panics_iff [OF s, of "V4 1" None "([], None)" demo_app] s show ?thesis by blast
qed

text \<open>
  C26. Shutdown empties the node, and does so before the clients have been served. When the inbound tasks of all live
  connections see the shutdown signal and end, the node is in a reachable state with no connection registered, so the
  drain loop returns at its first poll; the frames that were queued for the clients are all still queued.
\<close>

theorem shutdown_drains_registry_first:
  assumes "gw_reach env limit rl g" and "\<forall>c cn. conns g c = Some cn \<longrightarrow> in_pc (cn_local cn) = In_select"
    and "dom (conns g) \<subseteq> set ids"
  shows "gw_reach env limit rl (shutdown_all env ids g) \<and> conns (shutdown_all env ids g) = Map.empty \<and>
    drain (\<lambda>_. connection_count (st_registry (app (shutdown_all env ids g)))) clock start = Some (Drained 0) \<and>
    (\<forall>h. queue (byte_chans (st_chans (app (shutdown_all env ids g))) h) = queue (byte_chans (st_chans (app g)) h))"
proof -
  have r: "gw_reach env limit rl (shutdown_all env ids g)" using assms(1,2) by (rule shutdown_all_reach)
  have c: "conns (shutdown_all env ids g) = Map.empty"
    using assms(3) by (auto simp: shutdown_all_effect(1) fun_eq_iff)
  have "connection_count (st_registry (app (shutdown_all env ids g))) = 0"
    by (rule idle_registry(3) [OF gw_inv_reach [OF r] c])
  then have "drain (\<lambda>_. connection_count (st_registry (app (shutdown_all env ids g)))) clock start = Some (Drained 0)"
    unfolding drain_def by (subst drain_loop_unfold) simp
  with r c show ?thesis by (simp add: shutdown_all_effect(2))
qed

theorem shutdown_drains_registry_first_witness:
  "\<exists>g cn. gw_reach demo_env 2 None g \<and> conns g = [1 \<mapsto> cn] \<and>
     drain (\<lambda>_. connection_count (st_registry (app (shutdown_all demo_env [1] g)))) (\<lambda>i. 100 * i) 0 = Some (Drained 0) \<and>
     queue (byte_chans (st_chans (app (shutdown_all demo_env [1] g))) (live_tx (cn_ctx cn))) = [''frame'']"
proof -
  obtain g cn where g: "gw_reach demo_env 2 None g" "conns g = [1 \<mapsto> cn]" "in_pc (cn_local cn) = In_select"
    "queue (byte_chans (st_chans (app g)) (live_tx (cn_ctx cn))) = [''frame'']" using live_queue_open by blast
  have "\<forall>c cn'. conns g c = Some cn' \<longrightarrow> in_pc (cn_local cn') = In_select" "dom (conns g) \<subseteq> set [1]"
    using g(2,3) by (auto split: if_splits)
  from shutdown_drains_registry_first [OF g(1) this, of "\<lambda>i. 100 * i" 0] g show ?thesis
    by (intro exI [of _ g] exI [of _ cn]) simp
qed

end
